(* ===== verification/Prelude.thy ===== *)
theory Prelude
  imports Main "HOL-Library.Word" "HOL-Library.AList" "HOL-Library.List_Lexorder"
    "HOL-Library.Multiset"
begin

text \<open>
  The shared vocabulary of the development: Rust's fixed-width integers, the
  \<open>Error\<close> type of nervusdb-storage and the \<open>Result\<close> that carries it, slices and
  in-place overwriting of byte arrays, and the two standard collections the storage
  engine is written with. A \<open>BTreeMap\<close> is an association list sorted by key
  (iteration is in key order), a \<open>HashMap\<close> is an association list whose list order
  stands for the unspecified iteration order. Both implement the locale \<open>dict\<close>, in which
  the facts that the components need about runs of insertions are proved once.
\<close>

section \<open>Integers, bytes, results\<close>

type_synonym u8 = "8 word"
type_synonym u16 = "16 word"
type_synonym u32 = "32 word"
type_synonym u64 = "64 word"
type_synonym bytes = "u8 list"

text \<open>
  A Rust \<open>String\<close> is its UTF-8 byte sequence: \<open>as_bytes\<close> is the identity, and the
  derived order of strings is the lexicographic order of their bytes, which is the order
  \<open>HOL-Library.List_Lexorder\<close> gives to \<^typ>\<open>bytes\<close>.
\<close>

type_synonym rstring = bytes

text \<open>
  The error type of the storage crate. \<open>Io\<close> stands for the end-of-file error of
  \<open>read_exact\<close>; the payload of messages is the source's string. \<open>Panic\<close> is not a
  constructor of the source: it stands for a Rust panic (a slice index out of range, a
  failed \<open>unwrap\<close> or \<open>expect\<close>), so that a theorem can state that none happens.
\<close>

datatype error =
    Io
  | InvalidMagic
  | UnsupportedPageSize u64
  | StorageFormatMismatch u64 u64
  | PageIdOutOfRange u64
  | PageNotAllocated u64
  | WalRecordTooLarge u32
  | WalChecksumMismatch u64
  | WalProtocol string
  | StorageCorrupted string
  | BackupProtocol string
  | Serialization
  | Panic string

type_synonym 'a result = "error + 'a"

text \<open>The \<open>?\<close> operator: an error returns at once, a value is handed on.\<close>

definition rbind :: "'e + 'a \<Rightarrow> ('a \<Rightarrow> 'e + 'b) \<Rightarrow> 'e + 'b" where
  "rbind m f = (case m of Inl e \<Rightarrow> Inl e | Inr a \<Rightarrow> f a)"

definition map_err :: "('e \<Rightarrow> 'f) \<Rightarrow> 'e + 'a \<Rightarrow> 'f + 'a" where
  "map_err f m = (case m of Inl e \<Rightarrow> Inl (f e) | Inr a \<Rightarrow> Inr a)"

definition ok_or :: "'e \<Rightarrow> 'a option \<Rightarrow> 'e + 'a" where
  "ok_or e m = (case m of None \<Rightarrow> Inl e | Some a \<Rightarrow> Inr a)"

definition is_ok :: "'e + 'a \<Rightarrow> bool" where
  "is_ok m = (case m of Inl _ \<Rightarrow> False | Inr _ \<Rightarrow> True)"

fun is_panic :: "error + 'a \<Rightarrow> bool" where
  "is_panic (Inl (Panic _)) = True"
| "is_panic _ = False"

lemma rbind_simps [simp]:
  "rbind (Inl e) f = Inl e"
  "rbind (Inr a) f = f a"
  by (simp_all add: rbind_def)

lemma rbind_Inr_iff: "rbind m f = Inr b \<longleftrightarrow> (\<exists>a. m = Inr a \<and> f a = Inr b)"
  by (cases m) auto

lemma rbind_Inl_iff: "rbind m f = Inl e \<longleftrightarrow> m = Inl e \<or> (\<exists>a. m = Inr a \<and> f a = Inl e)"
  by (cases m) auto

lemma rbind_InrE [elim?]:
  assumes "rbind m f = Inr b"
  obtains a where "m = Inr a" "f a = Inr b"
  using assms by (auto simp: rbind_Inr_iff)

lemma rbind_assoc: "rbind (rbind m f) g = rbind m (\<lambda>x. rbind (f x) g)"
  by (cases m) auto

lemma rbind_cong [fundef_cong]:
  "m = m' \<Longrightarrow> (\<And>a. m' = Inr a \<Longrightarrow> f a = f' a) \<Longrightarrow> rbind m f = rbind m' f'"
  by (cases m') auto

lemma map_err_simps [simp]:
  "map_err f (Inl e) = Inl (f e)"
  "map_err f (Inr a) = Inr a"
  "map_err f m = Inr a \<longleftrightarrow> m = Inr a"
  by (cases m; simp add: map_err_def)+

lemma ok_or_simps [simp]:
  "ok_or e None = Inl e"
  "ok_or e (Some a) = Inr a"
  "ok_or e m = Inr a \<longleftrightarrow> m = Some a"
  by (cases m; simp add: ok_or_def)+

lemma is_ok_simps [simp]:
  "is_ok (Inr a)" "\<not> is_ok (Inl e)"
  by (simp_all add: is_ok_def)

lemma is_ok_iff: "is_ok m \<longleftrightarrow> (\<exists>a. m = Inr a)"
  by (cases m) auto

lemma is_panic_Inl: "is_panic (Inl e) \<longleftrightarrow> (\<exists>m. e = Panic m)"
  by (cases e) auto

lemma is_panic_rbind_Inr [simp]: "is_panic (rbind m (\<lambda>x. Inr (f x))) = is_panic m"
  by (cases m) (simp_all add: is_panic_Inl)

lemma unat_bound: "unat (w :: 'a::len word) < 2 ^ LENGTH('a)"
  by (rule unsigned_less)

lemma unat_word_of_nat_less: "n < 2 ^ LENGTH('a) \<Longrightarrow> unat (word_of_nat n :: 'a::len word) = n"
  by (simp add: unat_of_nat)

lemma unat_u8_less: "unat (b :: u8) < 256"
  using unat_bound [of b] by simp

section \<open>Slices and overwriting\<close>

text \<open>\<open>buf[i..i + n]\<close>, and \<open>buf[i..i + n].copy_from_slice(src)\<close> for \<open>n = src.len()\<close>.\<close>

definition subslice :: "nat \<Rightarrow> nat \<Rightarrow> 'a list \<Rightarrow> 'a list" where
  "subslice i n xs = take n (drop i xs)"

definition overwrite :: "nat \<Rightarrow> 'a list \<Rightarrow> 'a list \<Rightarrow> 'a list" where
  "overwrite i src xs = take i xs @ src @ drop (i + length src) xs"

text \<open>Rust checks the bounds of a subslice and panics when they do not fit.\<close>

definition subslice_checked :: "nat \<Rightarrow> nat \<Rightarrow> 'a list \<Rightarrow> 'a list result" where
  "subslice_checked i n xs =
     (if i + n \<le> length xs then Inr (subslice i n xs) else Inl (Panic ''slice index out of range''))"

text \<open>\<open>Vec::get\<close>\<close>

definition vec_get :: "'a list \<Rightarrow> nat \<Rightarrow> 'a option" where
  "vec_get xs i = (if i < length xs then Some (xs ! i) else None)"

lemma vec_get_append [simp]:
  "vec_get (xs @ [x]) i = (if i = length xs then Some x else vec_get xs i)"
  by (auto simp: vec_get_def nth_append)

lemma vec_get_Some: "vec_get xs i = Some x \<longleftrightarrow> i < length xs \<and> xs ! i = x"
  by (simp add: vec_get_def)

lemma length_subslice [simp]: "i + n \<le> length xs \<Longrightarrow> length (subslice i n xs) = n"
  by (simp add: subslice_def)

lemma length_overwrite [simp]:
  "i + length src \<le> length xs \<Longrightarrow> length (overwrite i src xs) = length xs"
  by (simp add: overwrite_def)

lemma subslice_all [simp]: "subslice 0 (length xs) xs = xs"
  by (simp add: subslice_def)

lemma subslice_0_all [simp]: "n = length xs \<Longrightarrow> subslice 0 n xs = xs"
  by (simp add: subslice_def)

lemma subslice_0_append [simp]: "n = length xs \<Longrightarrow> subslice 0 n (xs @ ys) = xs"
  by (simp add: subslice_def)

lemma subslice_append_right: "length xs \<le> i \<Longrightarrow> subslice i n (xs @ ys) = subslice (i - length xs) n ys"
  by (simp add: subslice_def)

lemma subslice_append_left: "i + n \<le> length xs \<Longrightarrow> subslice i n (xs @ ys) = subslice i n xs"
  by (simp add: subslice_def)

lemma subslice_overwrite_same:
  "i + length src \<le> length xs \<Longrightarrow> n = length src \<Longrightarrow> subslice i n (overwrite i src xs) = src"
  by (simp add: subslice_def overwrite_def)

lemma subslice_overwrite_before:
  assumes "j + n \<le> i" and "i \<le> length xs"
  shows "subslice j n (overwrite i src xs) = subslice j n xs"
proof (rule nth_equalityI)
  show "length (subslice j n (overwrite i src xs)) = length (subslice j n xs)"
    using assms by (auto simp: subslice_def overwrite_def)
next
  fix k assume "k < length (subslice j n (overwrite i src xs))"
  then have "k < n" by (simp add: subslice_def)
  with assms show "subslice j n (overwrite i src xs) ! k = subslice j n xs ! k"
    by (simp add: subslice_def overwrite_def nth_append)
qed

lemma subslice_overwrite_after:
  assumes "i + length src \<le> j" and "i \<le> length xs"
  shows "subslice j n (overwrite i src xs) = subslice j n xs"
  using assms by (auto simp: subslice_def overwrite_def min_def)

lemma subslice_overwrite_other:
  "j + n \<le> i \<or> i + length src \<le> j \<Longrightarrow> i \<le> length xs \<Longrightarrow>
   subslice j n (overwrite i src xs) = subslice j n xs"
  using subslice_overwrite_before subslice_overwrite_after by blast

lemma subslice_subslice: "i + n \<le> m \<Longrightarrow> subslice i n (subslice j m xs) = subslice (j + i) n xs"
  by (simp add: subslice_def drop_take add.commute min_def)

lemma overwrite_nth:
  "i + length src \<le> length xs \<Longrightarrow> k < length xs \<Longrightarrow>
   overwrite i src xs ! k = (if i \<le> k \<and> k < i + length src then src ! (k - i) else xs ! k)"
  by (auto simp: overwrite_def nth_append)

lemma subslice_checked_Inr:
  "subslice_checked i n xs = Inr ys \<longleftrightarrow> i + n \<le> length xs \<and> ys = subslice i n xs"
  by (auto simp: subslice_checked_def)

end
