(* ===== verification/Dicts.thy ===== *)
theory Dicts
  imports Prelude
begin

text \<open>
  The maps and sets of Rust's standard library that the storage engine uses. A
  \<open>BTreeMap\<close> is a list of entries in strictly increasing key order and a \<open>BTreeSet\<close> a
  strictly increasing list, so iterating is reading the list; a \<open>HashMap\<close> is an
  association list with distinct keys (\<open>AList.update\<close> and \<open>AList.delete\<close> of the
  library), and every theorem about one holds whatever order its entries stand in. The
  locale \<open>dict\<close> is the interface both provide.
\<close>

section \<open>The dictionary interface\<close>

lemma map_of_rev_distinct: "distinct (map fst kvs) \<Longrightarrow> map_of (rev kvs) = map_of kvs"
proof (induction kvs)
  case (Cons e kvs)
  then have "map_of kvs (fst e) = None" by (simp add: map_of_eq_None_iff)
  with Cons show ?case by (cases e) (auto simp: map_add_def fun_eq_iff split: option.split)
qed simp

locale dict =
  fixes lookup :: "'m \<Rightarrow> 'k \<Rightarrow> 'v option"
    and put :: "'k \<Rightarrow> 'v \<Rightarrow> 'm \<Rightarrow> 'm"
    and del :: "'k \<Rightarrow> 'm \<Rightarrow> 'm"
    and nothing :: 'm
    and invar :: "'m \<Rightarrow> bool"
  assumes lookup_nothing: "lookup nothing k = None"
    and lookup_put: "invar m \<Longrightarrow> lookup (put k v m) k' = (if k' = k then Some v else lookup m k')"
    and lookup_del: "invar m \<Longrightarrow> lookup (del k m) k' = (if k' = k then None else lookup m k')"
    and invar_nothing: "invar nothing"
    and invar_put: "invar m \<Longrightarrow> invar (put k v m)"
    and invar_del: "invar m \<Longrightarrow> invar (del k m)"
begin

lemma invar_fold_put: "invar m \<Longrightarrow> invar (fold (\<lambda>(k, v). put k v) kvs m)"
  by (induction kvs arbitrary: m) (auto intro: invar_put)

text \<open>Collecting a sequence of entries: the last one of a key wins.\<close>

lemma lookup_fold_put:
  "invar m \<Longrightarrow> lookup (fold (\<lambda>(k, v). put k v) kvs m) k =
     (case map_of (rev kvs) k of None \<Rightarrow> lookup m k | Some v \<Rightarrow> Some v)"
proof (induction kvs arbitrary: m)
  case Nil
  then show ?case by simp
next
  case (Cons kv kvs)
  obtain a b where [simp]: "kv = (a, b)" by (cases kv)
  have "invar (put a b m)" using Cons.prems by (rule invar_put)
  from Cons.IH [OF this] Cons.prems show ?case
    by (auto simp: map_add_def lookup_put split: option.split)
qed

lemma lookup_fold_put_distinct:
  "invar m \<Longrightarrow> distinct (map fst kvs) \<Longrightarrow>
   lookup (fold (\<lambda>(k, v). put k v) kvs m) k =
     (case map_of kvs k of None \<Rightarrow> lookup m k | Some v \<Rightarrow> Some v)"
  by (simp add: lookup_fold_put map_of_rev_distinct)

text \<open>Collecting entries only where the key is still vacant (\<open>entry(k).or_insert(v)\<close>):
  the first one of a key wins.\<close>

lemma invar_fold_or_insert:
  "invar m \<Longrightarrow>
   invar (fold (\<lambda>(k, v) m. if lookup m k = None then put k v m else m) kvs m)"
proof (induction kvs arbitrary: m)
  case (Cons kv kvs)
  then show ?case by (cases kv) (simp add: invar_put)
qed simp

lemma lookup_fold_or_insert:
  "invar m \<Longrightarrow>
   lookup (fold (\<lambda>(k, v) m. if lookup m k = None then put k v m else m) kvs m) k =
     (case lookup m k of None \<Rightarrow> map_of kvs k | Some v \<Rightarrow> Some v)"
proof (induction kvs arbitrary: m)
  case Nil
  then show ?case by (simp split: option.split)
next
  case (Cons kv kvs)
  obtain a b where [simp]: "kv = (a, b)" by (cases kv)
  let ?m = "if lookup m a = None then put a b m else m"
  have "invar ?m" using Cons.prems by (simp add: invar_put)
  from Cons.IH [OF this] Cons.prems show ?case
    by (auto simp: lookup_put split: option.split)
qed

end

section \<open>BTreeMap\<close>

type_synonym ('k, 'v) btmap = "('k \<times> 'v) list"

definition bt_wf :: "('k::linorder, 'v) btmap \<Rightarrow> bool" where
  "bt_wf m \<longleftrightarrow> sorted_wrt (<) (map fst m)"

fun bt_insert :: "'k::linorder \<Rightarrow> 'v \<Rightarrow> ('k, 'v) btmap \<Rightarrow> ('k, 'v) btmap" where
  "bt_insert k v [] = [(k, v)]"
| "bt_insert k v (e # m) =
     (if fst e < k then e # bt_insert k v m
      else if fst e = k then (k, v) # m
      else (k, v) # e # m)"

definition bt_remove :: "'k \<Rightarrow> ('k, 'v) btmap \<Rightarrow> ('k, 'v) btmap" where
  "bt_remove k m = filter (\<lambda>e. fst e \<noteq> k) m"

definition bt_get :: "('k, 'v) btmap \<Rightarrow> 'k \<Rightarrow> 'v option" where
  "bt_get m k = map_of m k"

definition bt_collect :: "('k::linorder \<times> 'v) list \<Rightarrow> ('k, 'v) btmap" where
  "bt_collect kvs = fold (\<lambda>(k, v). bt_insert k v) kvs []"

lemma bt_get_Nil [simp]: "bt_get [] k = None"
  by (simp add: bt_get_def)

lemma bt_wf_simps [simp]:
  "bt_wf []"
  "bt_wf (e # m) \<longleftrightarrow> (\<forall>k \<in> fst ` set m. fst e < k) \<and> bt_wf m"
  by (auto simp: bt_wf_def)

lemma fst_set_bt_insert [simp]: "fst ` set (bt_insert k v m) = insert k (fst ` set m)"
  by (induction m) auto

lemma bt_wf_insert [simp]: "bt_wf m \<Longrightarrow> bt_wf (bt_insert k v m)"
proof (induction m)
  case (Cons e m)
  then show ?case
    by (cases "fst e" k rule: linorder_cases) (auto simp: image_iff)
qed simp

lemma bt_wf_remove [simp]: "bt_wf m \<Longrightarrow> bt_wf (bt_remove k m)"
  by (induction m) (auto simp: bt_remove_def)

lemma bt_get_insert:
  "bt_wf m \<Longrightarrow> bt_get (bt_insert k v m) k' = (if k' = k then Some v else bt_get m k')"
proof (induction m)
  case (Cons e m)
  then show ?case
    by (cases e; cases "fst e" k rule: linorder_cases) (auto simp: bt_get_def)
qed (simp add: bt_get_def)

lemma bt_get_remove: "bt_get (bt_remove k m) k' = (if k' = k then None else bt_get m k')"
  by (induction m) (auto simp: bt_get_def bt_remove_def)

interpretation bt: dict bt_get bt_insert bt_remove "[]" bt_wf
  by unfold_locales (simp_all add: bt_get_insert bt_get_remove)

lemma bt_wf_distinct: "bt_wf m \<Longrightarrow> distinct (map fst m)"
  by (auto simp: bt_wf_def strict_sorted_iff)

text \<open>A \<open>BTreeMap\<close> is determined by its contents: equal lookups, equal lists.\<close>

lemma bt_wf_ext: "bt_wf m \<Longrightarrow> bt_wf m' \<Longrightarrow> (\<And>k. bt_get m k = bt_get m' k) \<Longrightarrow> m = m'"
proof (induction m arbitrary: m')
  case Nil
  show ?case
  proof (cases m')
    case (Cons e m'')
    with Nil.prems(3) [of "fst e"] show ?thesis by (cases e) (simp add: bt_get_def)
  qed simp
next
  case (Cons e m)
  obtain k v where e: "e = (k, v)" by (cases e)
  from Cons.prems(3) [of k] have look: "bt_get m' k = Some v" by (simp add: e bt_get_def)
  then obtain e' r where m': "m' = e' # r" by (cases m') (auto simp: bt_get_def)
  obtain k' v' where e': "e' = (k', v')" by (cases e')
  have kin: "k \<in> fst ` set m'" using look by (force simp: bt_get_def dest: map_of_SomeD)
  have "bt_get (e # m) k' = Some v'" using Cons.prems(3) [of k'] by (simp add: m' e' bt_get_def)
  then have kin': "k' \<in> fst ` set (e # m)" by (force simp: bt_get_def dest: map_of_SomeD)
  have "k = k'"
    using kin kin' Cons.prems(1,2) by (force simp: m' e e')
  then have v: "v = v'" using look by (simp add: m' e' bt_get_def)
  have "bt_get m x = bt_get r x" for x
  proof (cases "x = k")
    case True
    from Cons.prems(1) have "k \<notin> fst ` set m" by (force simp: e)
    moreover from Cons.prems(2) have "k \<notin> fst ` set r" using \<open>k = k'\<close> by (force simp: m' e')
    ultimately show ?thesis using True by (simp add: bt_get_def map_of_eq_None_iff [THEN iffD2])
  next
    case False
    with Cons.prems(3) [of x] \<open>k = k'\<close> show ?thesis by (simp add: m' e e' bt_get_def)
  qed
  moreover have "bt_wf m" "bt_wf r" using Cons.prems(1,2) by (simp_all add: m')
  ultimately have "m = r" using Cons.IH by blast
  then show ?case using \<open>k = k'\<close> v by (simp add: m' e e')
qed

lemma bt_wf_collect [simp]: "bt_wf (bt_collect kvs)"
  by (simp add: bt_collect_def bt.invar_fold_put)

lemma bt_get_collect: "bt_get (bt_collect kvs) k = map_of (rev kvs) k"
  by (simp add: bt_collect_def bt.lookup_fold_put split: option.split)

lemma bt_collect_wf: "bt_wf m \<Longrightarrow> bt_collect m = m"
  by (rule bt_wf_ext)
     (simp_all add: bt_get_collect map_of_rev_distinct bt_wf_distinct, simp add: bt_get_def)

lemma bt_collect_distinct_eq:
  "distinct (map fst kvs) \<Longrightarrow> distinct (map fst kvs') \<Longrightarrow> map_of kvs = map_of kvs' \<Longrightarrow>
   bt_collect kvs = bt_collect kvs'"
  by (rule bt_wf_ext) (simp_all add: bt_get_collect map_of_rev_distinct)

section \<open>BTreeSet\<close>

text \<open>\<open>insort_insert\<close> of the library is \<open>BTreeSet::insert\<close> on a strictly increasing list.\<close>

definition bs_wf :: "'a::linorder list \<Rightarrow> bool" where
  "bs_wf s \<longleftrightarrow> sorted s \<and> distinct s"

definition bs_insert :: "'a::linorder \<Rightarrow> 'a list \<Rightarrow> 'a list" where
  "bs_insert x s = insort_insert x s"

definition bs_remove :: "'a \<Rightarrow> 'a list \<Rightarrow> 'a list" where
  "bs_remove x s = filter (\<lambda>y. y \<noteq> x) s"

lemma bs_wf_Nil [simp]: "bs_wf []"
  by (simp add: bs_wf_def)

lemma set_bs_insert [simp]: "set (bs_insert x s) = insert x (set s)"
  by (simp add: bs_insert_def set_insort_insert)

lemma set_bs_remove [simp]: "set (bs_remove x s) = set s - {x}"
  by (auto simp: bs_remove_def)

lemma bs_wf_insert [simp]: "bs_wf s \<Longrightarrow> bs_wf (bs_insert x s)"
  by (simp add: bs_wf_def bs_insert_def sorted_insort_insert distinct_insort_insert)

lemma bs_wf_remove [simp]: "bs_wf s \<Longrightarrow> bs_wf (bs_remove x s)"
  by (simp add: bs_wf_def bs_remove_def sorted_filter [where f = "\<lambda>x. x", simplified])

lemma bs_wf_ext: "bs_wf s \<Longrightarrow> bs_wf t \<Longrightarrow> set s = set t \<Longrightarrow> s = t"
  by (simp add: bs_wf_def sorted_distinct_set_unique)

section \<open>HashMap\<close>

type_synonym ('k, 'v) hmap = "('k \<times> 'v) list"

definition hm_wf :: "('k, 'v) hmap \<Rightarrow> bool" where
  "hm_wf m \<longleftrightarrow> distinct (map fst m)"

definition hm_get :: "('k, 'v) hmap \<Rightarrow> 'k \<Rightarrow> 'v option" where
  "hm_get m k = map_of m k"

definition hm_insert :: "'k \<Rightarrow> 'v \<Rightarrow> ('k, 'v) hmap \<Rightarrow> ('k, 'v) hmap" where
  "hm_insert k v m = AList.update k v m"

definition hm_remove :: "'k \<Rightarrow> ('k, 'v) hmap \<Rightarrow> ('k, 'v) hmap" where
  "hm_remove k m = AList.delete k m"

text \<open>\<open>entry(k).or_default()\<close> followed by a mutation \<open>f\<close> of the entry.\<close>

definition hm_entry :: "'k \<Rightarrow> 'v \<Rightarrow> ('v \<Rightarrow> 'v) \<Rightarrow> ('k, 'v) hmap \<Rightarrow> ('k, 'v) hmap" where
  "hm_entry k dflt f m = hm_insert k (f (case hm_get m k of None \<Rightarrow> dflt | Some v \<Rightarrow> v)) m"

lemma hm_wf_Nil [simp]: "hm_wf []"
  by (simp add: hm_wf_def)

lemma hm_wf_insert [simp]: "hm_wf m \<Longrightarrow> hm_wf (hm_insert k v m)"
  by (simp add: hm_wf_def hm_insert_def distinct_update)

lemma hm_wf_remove [simp]: "hm_wf m \<Longrightarrow> hm_wf (hm_remove k m)"
  by (simp add: hm_wf_def hm_remove_def distinct_delete)

lemma hm_wf_entry [simp]: "hm_wf m \<Longrightarrow> hm_wf (hm_entry k d f m)"
  by (simp add: hm_entry_def)

lemma hm_get_Nil [simp]: "hm_get [] k = None"
  by (simp add: hm_get_def)

lemma hm_get_insert [simp]: "hm_get (hm_insert k v m) k' = (if k' = k then Some v else hm_get m k')"
  by (simp add: hm_get_def hm_insert_def update_conv')

lemma hm_get_remove [simp]: "hm_get (hm_remove k m) k' = (if k' = k then None else hm_get m k')"
  by (simp add: hm_get_def hm_remove_def delete_conv')

interpretation hm: dict hm_get hm_insert hm_remove "[]" hm_wf
  by unfold_locales simp_all

lemma hm_get_entry [simp]:
  "hm_get (hm_entry k d f m) k' =
     (if k' = k then Some (f (case hm_get m k of None \<Rightarrow> d | Some v \<Rightarrow> v)) else hm_get m k')"
  by (simp add: hm_entry_def)

lemma hm_mem_iff: "hm_wf m \<Longrightarrow> (k, v) \<in> set m \<longleftrightarrow> hm_get m k = Some v"
  by (simp add: hm_wf_def hm_get_def)

lemma bt_mem_iff: "bt_wf m \<Longrightarrow> (k, v) \<in> set m \<longleftrightarrow> bt_get m k = Some v"
  by (simp add: bt_wf_distinct bt_get_def)

text \<open>Turning a hash map into a tree map forgets the iteration order and nothing else.\<close>

lemma bt_get_collect_hm: "hm_wf m \<Longrightarrow> bt_get (bt_collect m) k = hm_get m k"
  by (simp add: bt_get_collect hm_get_def hm_wf_def map_of_rev_distinct)

lemma bt_collect_hm_eq:
  "hm_wf m \<Longrightarrow> hm_wf m' \<Longrightarrow> (\<And>k. hm_get m k = hm_get m' k) \<Longrightarrow> bt_collect m = bt_collect m'"
  by (rule bt_wf_ext) (simp_all add: bt_get_collect_hm)

end
