(* ===== verification/Bytes.thy ===== *)
theory Bytes
  imports Dicts
begin

text \<open>
  Byte encodings: \<open>to_le_bytes\<close>, \<open>from_le_bytes\<close> and \<open>to_be_bytes\<close> of the fixed-width
  integers, the validity check of \<open>String::from_utf8\<close>, and the locale \<open>fixed_codec\<close> of
  fixed-width records laid out one after another, which the CSR blobs, the id map pages and
  the manifest's segment pointers instantiate. The main facts are the round trips and that
  the big-endian encoding turns the order of numbers into the order of byte strings.
\<close>

named_theorems wire_simps

section \<open>Little-endian integers\<close>

fun le_bytes :: "nat \<Rightarrow> nat \<Rightarrow> bytes" where
  "le_bytes 0 k = []"
| "le_bytes (Suc n) k = word_of_nat k # le_bytes n (k div 256)"

fun le_nat :: "bytes \<Rightarrow> nat" where
  "le_nat [] = 0"
| "le_nat (b # bs) = unat b + 256 * le_nat bs"

definition to_le :: "'a::len word \<Rightarrow> bytes" where
  "to_le w = le_bytes (LENGTH('a) div 8) (unat w)"

definition from_le :: "bytes \<Rightarrow> 'a::len word" where
  "from_le bs = word_of_nat (le_nat bs)"

lemma length_le_bytes [simp]: "length (le_bytes n k) = n"
  by (induction n arbitrary: k) auto

lemma le_nat_le_bytes: "le_nat (le_bytes n k) = k mod 256 ^ n"
proof (induction n arbitrary: k)
  case (Suc n)
  have "k mod 256 + 256 * (k div 256 mod 256 ^ n) = k mod (256 * 256 ^ n)"
    by (simp add: mod_mult2_eq)
  with Suc show ?case by (simp add: unat_of_nat)
qed simp

lemma le_bytes_le_nat: "n = length bs \<Longrightarrow> le_bytes n (le_nat bs) = bs"
proof (induction bs arbitrary: n)
  case (Cons b bs)
  have lt: "unat b < 256" by (rule unat_u8_less)
  have "(unat b + 256 * le_nat bs) div 256 = le_nat bs" using lt by simp
  moreover have "(word_of_nat (unat b + 256 * le_nat bs) :: u8) = b"
  proof -
    have "(256 :: u8) = 0" by simp
    then have "(word_of_nat (256 * le_nat bs) :: u8) = 0" by (simp only: of_nat_mult of_nat_numeral mult_zero_left)
    then show ?thesis by (simp only: of_nat_add add_0_right) simp
  qed
  ultimately show ?case using Cons by simp
qed simp

lemma le_nat_less: "le_nat bs < 256 ^ length bs"
proof (induction bs)
  case (Cons b bs)
  have "unat b < 256" by (rule unat_u8_less)
  with Cons show ?case by simp
qed simp

lemma length_to_le: "length (to_le (w :: 'a::len word)) = LENGTH('a) div 8"
  by (simp add: to_le_def)

lemma length_to_le_widths [simp, wire_simps]:
  "length (to_le (a :: u8)) = 1"
  "length (to_le (b :: u16)) = 2"
  "length (to_le (c :: u32)) = 4"
  "length (to_le (d :: u64)) = 8"
  by (simp_all add: length_to_le)

lemma from_le_to_le:
  assumes "8 dvd LENGTH('a)"
  shows "from_le (to_le (w :: 'a::len word)) = w"
proof -
  from assms obtain n where n: "LENGTH('a) = 8 * n" by (auto elim: dvdE)
  have "unat w < 256 ^ n" using unat_bound [of w] by (simp add: n power_mult)
  then show ?thesis by (simp add: from_le_def to_le_def le_nat_le_bytes n)
qed

lemma from_le_to_le_widths [simp, wire_simps]:
  "from_le (to_le (a :: u8)) = a"
  "from_le (to_le (b :: u16)) = b"
  "from_le (to_le (c :: u32)) = c"
  "from_le (to_le (d :: u64)) = d"
  by (rule from_le_to_le; simp)+

lemma to_le_inject:
  "8 dvd LENGTH('a) \<Longrightarrow> to_le (v :: 'a::len word) = to_le w \<longleftrightarrow> v = w"
  by (metis from_le_to_le)

lemma to_le_from_le:
  assumes "8 dvd LENGTH('a)" and "length bs = LENGTH('a) div 8"
  shows "to_le (from_le bs :: 'a::len word) = bs"
proof -
  from assms(1) obtain n where n: "LENGTH('a) = 8 * n" by (auto elim: dvdE)
  with assms(2) have len: "length bs = n" by simp
  have "le_nat bs < 2 ^ LENGTH('a)"
    using le_nat_less [of bs] by (simp add: n len power_mult)
  then have "unat (from_le bs :: 'a word) = le_nat bs"
    by (simp add: from_le_def unat_word_of_nat_less)
  then show ?thesis by (simp add: to_le_def n len le_bytes_le_nat)
qed

section \<open>Big-endian integers and the order of byte strings\<close>

definition to_be :: "'a::len word \<Rightarrow> bytes" where
  "to_be w = rev (to_le w)"

definition from_be :: "bytes \<Rightarrow> 'a::len word" where
  "from_be bs = from_le (rev bs)"

lemma length_to_be_widths [simp, wire_simps]:
  "length (to_be (c :: u32)) = 4"
  "length (to_be (d :: u64)) = 8"
  by (simp_all add: to_be_def)

lemma from_be_to_be_widths [simp, wire_simps]:
  "from_be (to_be (c :: u32)) = c"
  "from_be (to_be (d :: u64)) = d"
  by (simp_all add: from_be_def to_be_def)

lemma le_nat_snoc: "le_nat (bs @ [b]) = le_nat bs + unat b * 256 ^ length bs"
  by (induction bs) (auto simp: algebra_simps)

text \<open>On strings of one length the lexicographic order is the order of the numbers read
  big-endian.\<close>

lemma lex_less_iff_be:
  "length xs = length ys \<Longrightarrow> xs < ys \<longleftrightarrow> le_nat (rev xs) < le_nat (rev ys)"
proof (induction xs ys rule: list_induct2)
  case (Cons x xs y ys)
  let ?n = "length xs"
  have bx: "le_nat (rev xs) < 256 ^ ?n" using le_nat_less [of "rev xs"] by simp
  have by': "le_nat (rev ys) < 256 ^ ?n" using le_nat_less [of "rev ys"] Cons.hyps by simp
  have key: "u + p * B < v + q * B \<longleftrightarrow> p < q \<or> p = q \<and> u < v"
    if "u < B" "v < B" for u v p q B :: nat
  proof -
    have step: "a + c * B < b + d * B" if "c < d" "a < B" for a b c d :: nat
    proof -
      from that have "Suc c * B \<le> d * B" by (intro mult_right_mono) simp_all
      with that show ?thesis by simp
    qed
    show ?thesis
      using step [of p q u v] step [of q p v u] that by (cases p q rule: linorder_cases) auto
  qed
  have "x = y \<longleftrightarrow> unat x = unat y" by (simp add: word_unat_eq_iff)
  then show ?case
    using Cons.hyps Cons.IH key [OF bx by', of "unat x" "unat y"]
    by (simp add: le_nat_snoc word_less_nat_alt)
qed simp

lemma to_be_less_iff:
  assumes "8 dvd LENGTH('a)"
  shows "to_be (v :: 'a::len word) < to_be w \<longleftrightarrow> v < w"
proof -
  from assms obtain n where n: "LENGTH('a) = 8 * n" by (auto elim: dvdE)
  have lt: "unat x < 256 ^ n" for x :: "'a word" using unat_bound [of x] by (simp add: n power_mult)
  have "to_be v < to_be w \<longleftrightarrow> le_nat (to_le v) < le_nat (to_le w)"
    by (simp add: to_be_def lex_less_iff_be length_to_le)
  also have "\<dots> \<longleftrightarrow> v < w"
    using lt [of v] lt [of w] by (simp add: to_le_def le_nat_le_bytes n word_less_nat_alt)
  finally show ?thesis .
qed

lemma lex_append_same_length:
  "length (xs :: 'a::linorder list) = length ys \<Longrightarrow>
   xs @ us < ys @ vs \<longleftrightarrow> xs < ys \<or> xs = ys \<and> us < vs"
  by (induction xs ys rule: list_induct2) auto

lemma lex_append_prefix [simp]: "(xs :: 'a::linorder list) @ us < xs @ vs \<longleftrightarrow> us < vs"
  by (induction xs) auto

section \<open>Records of fixed width\<close>

locale fixed_codec =
  fixes enc :: "'a \<Rightarrow> bytes" and dec :: "bytes \<Rightarrow> 'a" and width :: nat
  assumes length_enc: "length (enc a) = width"
    and dec_enc: "dec (enc a) = a"
begin

lemma length_concat_enc: "length (concat (map enc xs)) = width * length xs"
  by (induction xs) (simp_all add: length_enc)

text \<open>Decoding one record after another at multiples of the width, whatever bytes follow
  the last one (the zero padding of the last page, for instance).\<close>

lemma nth_dec: "i < length xs \<Longrightarrow> dec (subslice (i * width) width (concat (map enc xs) @ pad)) = xs ! i"
proof (induction xs arbitrary: i)
  case (Cons x xs)
  show ?case
  proof (cases i)
    case 0
    then show ?thesis by (simp add: subslice_def length_enc dec_enc)
  next
    case (Suc j)
    with Cons.prems have "j < length xs" by simp
    from Cons.IH [OF this] show ?thesis
      by (simp add: Suc subslice_def length_enc)
  qed
qed simp

lemma map_dec:
  "n = length xs \<Longrightarrow>
   map (\<lambda>i. dec (subslice (i * width) width (concat (map enc xs) @ pad))) [0..<n] = xs"
  by (rule nth_equalityI) (simp_all add: nth_dec)

lemma enc_inject: "enc a = enc b \<longleftrightarrow> a = b"
  by (metis dec_enc)

end

interpretation u16le: fixed_codec "to_le :: u16 \<Rightarrow> bytes" from_le 2
  by unfold_locales simp_all

interpretation u32le: fixed_codec "to_le :: u32 \<Rightarrow> bytes" from_le 4
  by unfold_locales simp_all

interpretation u64le: fixed_codec "to_le :: u64 \<Rightarrow> bytes" from_le 8
  by unfold_locales simp_all

section \<open>UTF-8\<close>

text \<open>
  The validity check of \<open>String::from_utf8\<close>: the well-formed byte sequences of the Unicode
  standard (no overlong forms, no surrogates, nothing above U+10FFFF). The lead byte gives
  the number of continuation bytes and the range of the first of them.
\<close>

definition byte_in :: "u8 \<Rightarrow> u8 \<Rightarrow> u8 \<Rightarrow> bool" where
  "byte_in lo hi b \<longleftrightarrow> lo \<le> b \<and> b \<le> hi"

definition utf8_len :: "u8 \<Rightarrow> nat option" where
  "utf8_len b =
     (if byte_in 0x00 0x7F b then Some 0
      else if byte_in 0xC2 0xDF b then Some 1
      else if byte_in 0xE0 0xEF b then Some 2
      else if byte_in 0xF0 0xF4 b then Some 3
      else None)"

definition utf8_second :: "u8 \<Rightarrow> u8 \<Rightarrow> bool" where
  "utf8_second lead b =
     (if lead = 0xE0 then byte_in 0xA0 0xBF b
      else if lead = 0xED then byte_in 0x80 0x9F b
      else if lead = 0xF0 then byte_in 0x90 0xBF b
      else if lead = 0xF4 then byte_in 0x80 0x8F b
      else byte_in 0x80 0xBF b)"

definition utf8_tail :: "u8 \<Rightarrow> nat \<Rightarrow> bytes \<Rightarrow> bool" where
  "utf8_tail lead n r \<longleftrightarrow>
     n \<le> length r \<and> (0 < n \<longrightarrow> utf8_second lead (hd r)) \<and>
     list_all (byte_in 0x80 0xBF) (take n r)"

function utf8_valid :: "bytes \<Rightarrow> bool" where
  "utf8_valid [] = True"
| "utf8_valid (lead # r) =
     (case utf8_len lead of None \<Rightarrow> False
      | Some n \<Rightarrow> utf8_tail lead n r \<and> utf8_valid (drop n r))"
  by pat_completeness auto
termination
  by (relation "measure length") auto

definition from_utf8 :: "'e \<Rightarrow> bytes \<Rightarrow> 'e + rstring" where
  "from_utf8 e bs = (if utf8_valid bs then Inr bs else Inl e)"

lemma from_utf8_Inr [simp]: "from_utf8 e bs = Inr s \<longleftrightarrow> utf8_valid bs \<and> s = bs"
  by (auto simp: from_utf8_def)

lemma from_utf8_valid [simp]: "utf8_valid bs \<Longrightarrow> from_utf8 e bs = Inr bs"
  by (simp add: from_utf8_def)

lemma utf8_tail_append: "utf8_tail lead n r \<Longrightarrow> utf8_tail lead n (r @ ys)"
  by (auto simp: utf8_tail_def hd_append)

lemma utf8_valid_append:
  "utf8_valid xs \<Longrightarrow> utf8_valid (xs @ ys) \<longleftrightarrow> utf8_valid ys"
proof (induction xs rule: utf8_valid.induct)
  case (2 lead r)
  then obtain n where n: "utf8_len lead = Some n" "utf8_tail lead n r" "utf8_valid (drop n r)"
    by (auto split: option.splits)
  then have "n \<le> length r" by (simp add: utf8_tail_def)
  with n "2.IH" [OF n(1,3)] show ?case by (simp add: utf8_tail_append)
qed simp

lemma utf8_valid_ascii: "\<forall>b \<in> set bs. b \<le> 0x7F \<Longrightarrow> utf8_valid bs"
  by (induction bs) (auto simp: utf8_len_def byte_in_def utf8_tail_def)

end
