(* ===== verification/PropertyValue.thy ===== *)
theory PropertyValue
  imports Bytes
begin

text \<open>
  \<open>PropertyValue\<close> of nervusdb-api/src/lib.rs: the value type of node and edge properties and
  its binary format, which the WAL records and the property store hold. \<open>i64\<close> values are
  their 64 bits (read signed by \<open>sint\<close>), \<open>f64\<close> values their IEEE bit pattern, which is all
  that \<open>to_le_bytes\<close> and \<open>from_le_bytes\<close> touch. A \<open>BTreeMap\<close> is a sorted entry list.
\<close>

section \<open>Definitions\<close>

type_synonym i64 = "64 word"
type_synonym f64 = "64 word"

datatype property_value =
    PNull
  | PBool bool
  | PInt i64
  | PFloat f64
  | PString rstring
  | PDateTime i64
  | PBlob bytes
  | PList "property_value list"
  | PMap "(rstring \<times> property_value) list"

text \<open>\<open>u32::try_from(len).expect(msg)\<close>.\<close>

definition len_u32 :: "string \<Rightarrow> nat \<Rightarrow> u32 result" where
  "len_u32 msg n = (if n < 2 ^ 32 then Inr (word_of_nat n) else Inl (Panic msg))"

fun pv_encode :: "property_value \<Rightarrow> bytes result"
  and pv_encode_list :: "property_value list \<Rightarrow> bytes result"
  and pv_encode_entries :: "(rstring \<times> property_value) list \<Rightarrow> bytes result" where
  "pv_encode PNull = Inr [0]"
| "pv_encode (PBool b) = Inr [1, if b then 1 else 0]"
| "pv_encode (PInt i) = Inr (2 # to_le i)"
| "pv_encode (PFloat f) = Inr (3 # to_le f)"
| "pv_encode (PString s) =
     rbind (len_u32 ''string length should fit in u32'' (length s))
       (\<lambda>len. Inr (4 # to_le len @ s))"
| "pv_encode (PDateTime i) = Inr (5 # to_le i)"
| "pv_encode (PBlob b) =
     rbind (len_u32 ''blob length should fit in u32'' (length b))
       (\<lambda>len. Inr (6 # to_le len @ b))"
| "pv_encode (PList l) =
     rbind (len_u32 ''list length should fit in u32'' (length l)) (\<lambda>len.
     rbind (pv_encode_list l) (\<lambda>items. Inr (7 # to_le len @ items)))"
| "pv_encode (PMap m) =
     rbind (len_u32 ''map length should fit in u32'' (length m)) (\<lambda>len.
     rbind (pv_encode_entries m) (\<lambda>entries. Inr (8 # to_le len @ entries)))"
| "pv_encode_list [] = Inr []"
| "pv_encode_list (v # vs) =
     rbind (pv_encode v) (\<lambda>b. rbind (pv_encode_list vs) (\<lambda>bs. Inr (b @ bs)))"
| "pv_encode_entries [] = Inr []"
| "pv_encode_entries ((k, v) # es) =
     rbind (len_u32 ''key length should fit in u32'' (length k)) (\<lambda>k_len.
     rbind (pv_encode v) (\<lambda>b.
     rbind (pv_encode_entries es) (\<lambda>bs. Inr (to_le k_len @ k @ b @ bs))))"

text \<open>
  \<open>DecodeError\<close>; \<open>DecodePanic\<close> stands for the panic of \<open>&bytes[pos..]\<close> when \<open>pos\<close> is past
  the end, which the source does not check before slicing.
\<close>

datatype decode_error =
    Empty
  | InvalidLength
  | InvalidUtf8
  | UnknownType u8
  | DecodePanic

text \<open>
  \<open>decode_recursive\<close> returns the value and the number of bytes consumed. Its two counted
  loops are \<open>pv_decode_items\<close> (a list) and \<open>pv_decode_entries\<close> (a map, inserted entry by
  entry); they carry the position in the slice of the enclosing value as the source does.
\<close>

function (sequential) pv_decode_rec :: "bytes \<Rightarrow> decode_error + (property_value \<times> nat)"
  and pv_decode_items :: "nat \<Rightarrow> bytes \<Rightarrow> nat \<Rightarrow> decode_error + (property_value list \<times> nat)"
  and pv_decode_entries ::
    "nat \<Rightarrow> bytes \<Rightarrow> nat \<Rightarrow> (rstring, property_value) btmap \<Rightarrow>
     decode_error + ((rstring, property_value) btmap \<times> nat)" where
  "pv_decode_rec bs =
     (if bs = [] then Inl Empty
      else let ty = hd bs in
        if ty = 0 then Inr (PNull, 1)
        else if ty = 1 then
          (if length bs < 2 then Inl InvalidLength else Inr (PBool (bs ! 1 \<noteq> 0), 2))
        else if ty = 2 then
          (if length bs < 9 then Inl InvalidLength
           else Inr (PInt (from_le (subslice 1 8 bs)), 9))
        else if ty = 3 then
          (if length bs < 9 then Inl InvalidLength
           else Inr (PFloat (from_le (subslice 1 8 bs)), 9))
        else if ty = 4 then
          (if length bs < 5 then Inl InvalidLength
           else let len = unat (from_le (subslice 1 4 bs) :: u32) in
             if length bs < 5 + len then Inl InvalidLength
             else rbind (from_utf8 InvalidUtf8 (subslice 5 len bs))
                    (\<lambda>s. Inr (PString s, 5 + len)))
        else if ty = 5 then
          (if length bs < 9 then Inl InvalidLength
           else Inr (PDateTime (from_le (subslice 1 8 bs)), 9))
        else if ty = 6 then
          (if length bs < 5 then Inl InvalidLength
           else let len = unat (from_le (subslice 1 4 bs) :: u32) in
             if length bs < 5 + len then Inl InvalidLength
             else Inr (PBlob (subslice 5 len bs), 5 + len))
        else if ty = 7 then
          (if length bs < 5 then Inl InvalidLength
           else let count = unat (from_le (subslice 1 4 bs) :: u32) in
             rbind (pv_decode_items count bs 5) (\<lambda>(items, pos). Inr (PList items, pos)))
        else if ty = 8 then
          (if length bs < 5 then Inl InvalidLength
           else let count = unat (from_le (subslice 1 4 bs) :: u32) in
             rbind (pv_decode_entries count bs 5 []) (\<lambda>(m, pos). Inr (PMap m, pos)))
        else Inl (UnknownType ty))"
| "pv_decode_items 0 bs pos = Inr ([], pos)"
| "pv_decode_items (Suc n) bs pos =
     (if length bs < pos then Inl DecodePanic
      else rbind (pv_decode_rec (drop pos bs)) (\<lambda>(item, consumed).
           rbind (pv_decode_items n bs (pos + consumed)) (\<lambda>(items, pos').
           Inr (item # items, pos'))))"
| "pv_decode_entries 0 bs pos m = Inr (m, pos)"
| "pv_decode_entries (Suc n) bs pos m =
     (if length bs < pos + 4 then Inl InvalidLength
      else let k_len = unat (from_le (subslice pos 4 bs) :: u32); pos1 = pos + 4 in
        if length bs < pos1 + k_len then Inl InvalidLength
        else rbind (from_utf8 InvalidUtf8 (subslice pos1 k_len bs)) (\<lambda>key.
          let pos2 = pos1 + k_len in
          if length bs < pos2 then Inl DecodePanic
          else rbind (pv_decode_rec (drop pos2 bs)) (\<lambda>(val, consumed).
               pv_decode_entries n bs (pos2 + consumed) (bt_insert key val m))))"
  by pat_completeness auto
termination
  by (relation "measures
        [case_sum length (case_sum (\<lambda>(n, bs, pos). length bs - pos)
                                   (\<lambda>(n, bs, pos, m). length bs - pos)),
         case_sum (\<lambda>_. 0) (case_sum (\<lambda>(n, bs, pos). Suc n) (\<lambda>(n, bs, pos, m). Suc n))]")
     auto

declare pv_decode_rec.simps [simp del]

definition pv_decode :: "bytes \<Rightarrow> decode_error + property_value" where
  "pv_decode bs = rbind (pv_decode_rec bs) (\<lambda>(v, _). Inr v)"

definition pv_as_float :: "property_value \<Rightarrow> f64 option" where
  "pv_as_float v = (case v of PFloat f \<Rightarrow> Some f | _ \<Rightarrow> None)"

text \<open>
  The values the program can build: strings are valid UTF-8 (Rust's \<open>String\<close> guarantees
  it), maps are \<open>BTreeMap\<close>s, and every length fits the 32-bit length fields, without
  which \<open>encode\<close> panics.
\<close>

fun pv_wf :: "property_value \<Rightarrow> bool" where
  "pv_wf (PString s) \<longleftrightarrow> utf8_valid s \<and> length s < 2 ^ 32"
| "pv_wf (PBlob b) \<longleftrightarrow> length b < 2 ^ 32"
| "pv_wf (PList l) \<longleftrightarrow> length l < 2 ^ 32 \<and> (\<forall>v \<in> set l. pv_wf v)"
| "pv_wf (PMap m) \<longleftrightarrow> length m < 2 ^ 32 \<and> bt_wf m \<and>
     (\<forall>e \<in> set m. utf8_valid (fst e) \<and> length (fst e) < 2 ^ 32 \<and> pv_wf (snd e))"
| "pv_wf _ \<longleftrightarrow> True"

section \<open>The round trip\<close>

lemma len_u32_ok [simp]: "n < 2 ^ 32 \<Longrightarrow> len_u32 msg n = Inr (word_of_nat n)"
  by (simp add: len_u32_def)

lemma len_u32_Inr: "len_u32 msg n = Inr w \<longleftrightarrow> n < 2 ^ 32 \<and> w = word_of_nat n"
  by (auto simp: len_u32_def)

lemma unat_u32_of_nat [simp]: "n < 2 ^ 32 \<Longrightarrow> unat (word_of_nat n :: u32) = n"
  by (simp add: unat_word_of_nat_less)

lemma subslice_field:
  "length xs = i \<Longrightarrow> length ys = n \<Longrightarrow> subslice i n (xs @ ys @ zs) = ys"
  by (simp add: subslice_def)

lemma subslice_1_field: "length ys = n \<Longrightarrow> subslice (Suc 0) n (x # ys @ zs) = ys"
  by (simp add: subslice_def)

lemma subslice_5_field:
  "length us = 4 \<Longrightarrow> length ys = n \<Longrightarrow> subslice 5 n (x # us @ ys @ zs) = ys"
  by (simp add: subslice_def)

lemma subslice_5_field_last:
  "length us = 4 \<Longrightarrow> length ys = n \<Longrightarrow> subslice 5 n (x # us @ ys) = ys"
  by (simp add: subslice_def)

lemmas subslice_fields = subslice_1_field subslice_5_field subslice_5_field_last

text \<open>One case per constructor, over an arbitrary continuation of the input.\<close>

definition pv_parses :: "property_value \<Rightarrow> bytes \<Rightarrow> bool" where
  "pv_parses v bs \<longleftrightarrow> (\<forall>rest. pv_decode_rec (bs @ rest) = Inr (v, length bs))"

lemma pv_parses_scalars:
  "pv_parses PNull [0]"
  "pv_parses (PBool b) [1, if b then 1 else 0]"
  "pv_parses (PInt i) (2 # to_le i)"
  "pv_parses (PFloat f) (3 # to_le f)"
  "pv_parses (PDateTime i) (5 # to_le i)"
  by (auto simp: pv_parses_def pv_decode_rec.simps subslice_fields)

lemma pv_parses_string:
  "utf8_valid s \<Longrightarrow> length s < 2 ^ 32 \<Longrightarrow>
   pv_parses (PString s) (4 # to_le (word_of_nat (length s) :: u32) @ s)"
  by (simp add: pv_parses_def pv_decode_rec.simps subslice_fields Let_def)

lemma pv_parses_blob:
  "length b < 2 ^ 32 \<Longrightarrow> pv_parses (PBlob b) (6 # to_le (word_of_nat (length b) :: u32) @ b)"
  by (simp add: pv_parses_def pv_decode_rec.simps subslice_fields Let_def)

lemma pv_parses_list:
  assumes "length l < 2 ^ 32"
    and items: "\<And>pre rest. pv_decode_items (length l) (pre @ items @ rest) (length pre) =
                 Inr (l, length pre + length items)"
  shows "pv_parses (PList l) (7 # to_le (word_of_nat (length l) :: u32) @ items)"
proof -
  have "pv_decode_items (length l) (7 # to_le (word_of_nat (length l) :: u32) @ items @ rest) 5 =
          Inr (l, 5 + length items)" for rest
    using items [of "7 # to_le (word_of_nat (length l) :: u32)" rest] by simp
  with assms(1) show ?thesis
    by (simp add: pv_parses_def pv_decode_rec.simps subslice_fields Let_def)
qed

lemma pv_parses_map:
  assumes "length m < 2 ^ 32"
    and items: "\<And>pre rest. pv_decode_entries (length m) (pre @ items @ rest) (length pre) [] =
                 Inr (m, length pre + length items)"
  shows "pv_parses (PMap m) (8 # to_le (word_of_nat (length m) :: u32) @ items)"
proof -
  have "pv_decode_entries (length m) (8 # to_le (word_of_nat (length m) :: u32) @ items @ rest) 5 [] =
          Inr (m, 5 + length items)" for rest
    using items [of "8 # to_le (word_of_nat (length m) :: u32)" rest] by simp
  with assms(1) show ?thesis
    by (simp add: pv_parses_def pv_decode_rec.simps subslice_fields Let_def)
qed

lemma pv_decode_items_Cons:
  assumes "pv_parses v b"
    and "\<And>pre rest. pv_decode_items (length vs) (pre @ bs @ rest) (length pre) =
           Inr (vs, length pre + length bs)"
  shows "pv_decode_items (length (v # vs)) (pre @ (b @ bs) @ rest) (length pre) =
           Inr (v # vs, length pre + length (b @ bs))"
proof -
  have "pv_decode_rec (b @ bs @ rest) = Inr (v, length b)"
    using assms(1) by (simp add: pv_parses_def)
  with assms(2) [of "pre @ b" rest] show ?thesis by simp
qed

text \<open>Inserting a key above all others appends it.\<close>

lemma bt_insert_last: "\<forall>k' \<in> fst ` set m. k' < k \<Longrightarrow> bt_insert k v m = m @ [(k, v)]"
  by (induction m) auto

lemma pv_decode_entries_Cons:
  assumes "pv_parses v b" and k: "utf8_valid k" "length k < 2 ^ 32"
    and "\<forall>k' \<in> fst ` set m. k' < k"
    and rec: "\<And>pre rest. pv_decode_entries (length es) (pre @ bs @ rest) (length pre) (m @ [(k, v)]) =
           Inr ((m @ [(k, v)]) @ es, length pre + length bs)"
  shows "pv_decode_entries (length ((k, v) # es))
           (pre @ (to_le (word_of_nat (length k) :: u32) @ k @ b @ bs) @ rest) (length pre) m =
         Inr (m @ (k, v) # es,
           length pre + length (to_le (word_of_nat (length k) :: u32) @ k @ b @ bs))"
proof -
  let ?kl = "to_le (word_of_nat (length k) :: u32)"
  have "pv_decode_rec (b @ bs @ rest) = Inr (v, length b)"
    using assms(1) by (simp add: pv_parses_def)
  moreover have "subslice (length pre) 4 (pre @ ?kl @ k @ b @ bs @ rest) = ?kl"
    by (rule subslice_field) simp_all
  moreover have "subslice (length pre + 4) (length k) (pre @ ?kl @ k @ b @ bs @ rest) = k"
    using subslice_field [of "pre @ ?kl" "length pre + 4" k "length k" "b @ bs @ rest"] by simp
  ultimately show ?thesis
    using k rec [of "pre @ ?kl @ k @ b" rest] assms(4)
    by (simp add: Let_def bt_insert_last add.assoc)
qed

lemma pv_encode_parses:
  "pv_wf v \<Longrightarrow> \<exists>bs. pv_encode v = Inr bs \<and> pv_parses v bs"
  "\<forall>v \<in> set vs. pv_wf v \<Longrightarrow>
     \<exists>bs. pv_encode_list vs = Inr bs \<and>
       (\<forall>pre rest. pv_decode_items (length vs) (pre @ bs @ rest) (length pre) =
          Inr (vs, length pre + length bs))"
  "bt_wf (m @ es) \<Longrightarrow>
   \<forall>e \<in> set es. utf8_valid (fst e) \<and> length (fst e) < 2 ^ 32 \<and> pv_wf (snd e) \<Longrightarrow>
     \<exists>bs. pv_encode_entries es = Inr bs \<and>
       (\<forall>pre rest. pv_decode_entries (length es) (pre @ bs @ rest) (length pre) m =
          Inr (m @ es, length pre + length bs))"
proof (induction v and vs and es arbitrary: and and m
         rule: pv_encode_pv_encode_list_pv_encode_entries.induct)
  case (8 l)
  then show ?case by (auto intro!: pv_parses_list)
next
  case (9 es)
  from "9.IH" [of "word_of_nat (length es)" "[]"] "9.prems" show ?case
    by (auto intro!: pv_parses_map)
next
  case (11 v vs)
  then obtain b bs where b: "pv_encode v = Inr b" "pv_parses v b"
    and bs: "pv_encode_list vs = Inr bs"
      "\<And>pre rest. pv_decode_items (length vs) (pre @ bs @ rest) (length pre) =
        Inr (vs, length pre + length bs)"
    by auto
  then show ?case using pv_decode_items_Cons [OF b(2) bs(2)] by auto
next
  case (13 k v es)
  from "13.prems" have ltk: "\<forall>k' \<in> fst ` set m. k' < k"
    by (auto simp: bt_wf_def sorted_wrt_append)
  have wf: "bt_wf ((m @ [(k, v)]) @ es)" using "13.prems" by simp
  from "13.prems" have k: "utf8_valid k" "length k < 2 ^ 32" and v: "pv_wf v" by auto
  from "13.IH"(1) [of "word_of_nat (length k)"] k v obtain b where
    b: "pv_encode v = Inr b" "pv_parses v b" by auto
  from "13.IH"(2) [of "word_of_nat (length k)" b "m @ [(k, v)]"] k b wf "13.prems" obtain bs where
    bs: "pv_encode_entries es = Inr bs"
      "\<And>pre rest. pv_decode_entries (length es) (pre @ bs @ rest) (length pre) (m @ [(k, v)]) =
        Inr ((m @ [(k, v)]) @ es, length pre + length bs)"
    by auto
  let ?out = "to_le (word_of_nat (length k) :: u32) @ k @ b @ bs"
  have "pv_encode_entries ((k, v) # es) = Inr ?out" using b(1) bs(1) k by simp
  moreover have "pv_decode_entries (length ((k, v) # es)) (pre @ ?out @ rest) (length pre) m =
      Inr (m @ (k, v) # es, length pre + length ?out)" for pre rest
    by (rule pv_decode_entries_Cons [OF b(2) k ltk bs(2)])
  ultimately show ?case by blast
qed (auto intro: pv_parses_scalars pv_parses_string pv_parses_blob
       simp: pv_parses_scalars(2) [of True, simplified] pv_parses_scalars(2) [of False, simplified])

section \<open>What a decode returns\<close>

lemma from_utf8_Inl [simp]: "from_utf8 e bs = Inl e' \<longleftrightarrow> \<not> utf8_valid bs \<and> e' = e"
  by (auto simp: from_utf8_def)

lemma length_bt_insert_le: "length (bt_insert k v m) \<le> Suc (length m)"
  by (induction m) auto

lemma bt_insert_ball:
  "\<forall>e \<in> set m. P e \<Longrightarrow> P (k, v) \<Longrightarrow> \<forall>e \<in> set (bt_insert k v m). P e"
  by (induction m) (auto split: if_splits)

lemma unat_u32_less: "unat (w :: u32) < 4294967296"
  using unat_bound [of w] by simp

text \<open>
  The three result conditions: no decode slices past the end of its input, the bytes
  consumed lie inside the input, and the value is one \<open>encode\<close> accepts.
\<close>

definition rec_ok :: "bytes \<Rightarrow> decode_error + (property_value \<times> nat) \<Rightarrow> bool" where
  "rec_ok bs r = (case r of Inl e \<Rightarrow> e \<noteq> DecodePanic
     | Inr (v, n) \<Rightarrow> 0 < n \<and> n \<le> length bs \<and> pv_wf v)"

definition items_ok ::
  "nat \<Rightarrow> bytes \<Rightarrow> nat \<Rightarrow> decode_error + (property_value list \<times> nat) \<Rightarrow> bool" where
  "items_ok n bs pos r = (case r of Inl e \<Rightarrow> e \<noteq> DecodePanic
     | Inr (vs, p) \<Rightarrow> pos \<le> p \<and> p \<le> length bs \<and> length vs = n \<and> (\<forall>v \<in> set vs. pv_wf v))"

definition entries_ok ::
  "bytes \<Rightarrow> nat \<Rightarrow> decode_error + ((rstring, property_value) btmap \<times> nat) \<Rightarrow> bool" where
  "entries_ok bs pos r = (case r of Inl e \<Rightarrow> e \<noteq> DecodePanic
     | Inr (m, p) \<Rightarrow> pos \<le> p \<and> p \<le> length bs \<and> pv_wf (PMap m))"

lemma rec_ok_leaf:
  assumes "bs = [] \<or> hd bs \<notin> {7, 8}"
  shows "rec_ok bs (pv_decode_rec bs)"
proof (cases bs)
  case (Cons ty r)
  with assms show ?thesis
    by (simp add: rec_ok_def pv_decode_rec.simps Let_def from_utf8_def unat_u32_less Suc_le_eq)
qed (simp add: rec_ok_def pv_decode_rec.simps)

lemma rec_ok_compound:
  assumes "bs \<noteq> []" and "hd bs \<in> {7, 8}"
    and "\<And>n. n < 2 ^ 32 \<Longrightarrow> 5 \<le> length bs \<Longrightarrow> hd bs = 7 \<Longrightarrow> n = unat (from_le (subslice 1 4 bs) :: u32) \<Longrightarrow>
           items_ok n bs 5 (pv_decode_items n bs 5)"
    and "\<And>n. n < 2 ^ 32 \<Longrightarrow> 5 \<le> length bs \<Longrightarrow> hd bs = 8 \<Longrightarrow> n = unat (from_le (subslice 1 4 bs) :: u32) \<Longrightarrow>
           entries_ok bs 5 (pv_decode_entries n bs 5 [])"
  shows "rec_ok bs (pv_decode_rec bs)"
proof (cases "length bs < 5")
  case True
  with assms(1,2) show ?thesis by (auto simp: rec_ok_def pv_decode_rec.simps [of bs])
next
  case False
  let ?n = "unat (from_le (subslice 1 4 bs) :: u32)"
  have n: "?n < 2 ^ 32" using unat_u32_less by simp
  show ?thesis
  proof (cases "hd bs = 7")
    case True
    with False have eq: "pv_decode_rec bs =
        rbind (pv_decode_items ?n bs 5) (\<lambda>(items, pos). Inr (PList items, pos))"
      by (cases bs) (simp_all add: pv_decode_rec.simps Let_def)
    from assms(3) [OF n _ True refl] False n show ?thesis
      unfolding eq by (auto simp: rec_ok_def items_ok_def split: sum.splits)
  next
    case h: False
    with assms(2) have h8: "hd bs = 8" by simp
    with False have eq: "pv_decode_rec bs =
        rbind (pv_decode_entries ?n bs 5 []) (\<lambda>(m, pos). Inr (PMap m, pos))"
      by (cases bs) (simp_all add: pv_decode_rec.simps Let_def)
    from assms(4) [OF n _ h8 refl] False show ?thesis
      unfolding eq by (auto simp: rec_ok_def entries_ok_def split: sum.splits)
  qed
qed

lemma items_ok_step:
  assumes "pos \<le> length bs"
    and rec: "rec_ok (drop pos bs) (pv_decode_rec (drop pos bs))"
    and items: "\<And>v c. pv_decode_rec (drop pos bs) = Inr (v, c) \<Longrightarrow> pos + c \<le> length bs \<Longrightarrow>
           items_ok n bs (pos + c) (pv_decode_items n bs (pos + c))"
  shows "items_ok (Suc n) bs pos (pv_decode_items (Suc n) bs pos)"
proof (cases "pv_decode_rec (drop pos bs)")
  case (Inl e)
  with rec assms(1) show ?thesis by (simp add: items_ok_def rec_ok_def)
next
  case (Inr r)
  then obtain v c where r: "pv_decode_rec (drop pos bs) = Inr (v, c)" by (cases r) auto
  with rec assms(1) have c: "pos + c \<le> length bs" and v: "pv_wf v" by (auto simp: rec_ok_def)
  from items [OF r c] r v assms(1) show ?thesis
    by (auto simp: items_ok_def split: sum.splits)
qed

lemma entries_ok_step:
  fixes bs :: bytes and pos :: nat
  defines "k \<equiv> unat (from_le (subslice pos 4 bs) :: u32)"
  defines "key \<equiv> subslice (pos + 4) k bs" and "pos2 \<equiv> pos + 4 + k"
  assumes m: "Suc n + length m < 2 ^ 32" "pv_wf (PMap m)"
    and rec: "pos2 \<le> length bs \<Longrightarrow> utf8_valid key \<Longrightarrow>
           rec_ok (drop pos2 bs) (pv_decode_rec (drop pos2 bs))"
    and entries: "\<And>v c. pos2 \<le> length bs \<Longrightarrow> utf8_valid key \<Longrightarrow>
           pv_decode_rec (drop pos2 bs) = Inr (v, c) \<Longrightarrow> pos2 + c \<le> length bs \<Longrightarrow>
           pv_wf (PMap (bt_insert key v m)) \<Longrightarrow> n + length (bt_insert key v m) < 2 ^ 32 \<Longrightarrow>
           entries_ok bs (pos2 + c) (pv_decode_entries n bs (pos2 + c) (bt_insert key v m))"
  shows "entries_ok bs pos (pv_decode_entries (Suc n) bs pos m)"
proof (cases "pos2 \<le> length bs \<and> utf8_valid key")
  case False
  then show ?thesis
    by (auto simp: entries_ok_def Let_def from_utf8_def k_def key_def pos2_def)
next
  case True
  then have eq: "pv_decode_entries (Suc n) bs pos m =
      rbind (pv_decode_rec (drop pos2 bs)) (\<lambda>(val, consumed).
        pv_decode_entries n bs (pos2 + consumed) (bt_insert key val m))"
    by (simp add: Let_def k_def key_def pos2_def)
  show ?thesis
  proof (cases "pv_decode_rec (drop pos2 bs)")
    case (Inl e)
    with rec True show ?thesis unfolding eq by (simp add: entries_ok_def rec_ok_def)
  next
    case (Inr r)
    then obtain v c where r: "pv_decode_rec (drop pos2 bs) = Inr (v, c)" by (cases r) auto
    from rec True r have c: "pos2 + c \<le> length bs" and v: "pv_wf v" by (auto simp: rec_ok_def)
    have "\<forall>e \<in> set (bt_insert key v m). utf8_valid (fst e) \<and> length (fst e) < 2 ^ 32 \<and> pv_wf (snd e)"
      by (rule bt_insert_ball) (use m True v in \<open>auto simp: unat_u32_less key_def k_def pos2_def\<close>)
    with m have wf: "pv_wf (PMap (bt_insert key v m))"
      and len: "n + length (bt_insert key v m) < 2 ^ 32"
      using length_bt_insert_le [of key v m] by auto
    from entries [OF _ _ r c wf len] True r show ?thesis
      unfolding eq by (auto simp: entries_ok_def pos2_def split: sum.splits)
  qed
qed

lemma pv_decode_ok:
  "rec_ok bs (pv_decode_rec bs)"
  "n < 2 ^ 32 \<Longrightarrow> pos \<le> length bs \<Longrightarrow> items_ok n bs pos (pv_decode_items n bs pos)"
  "n + length m < 2 ^ 32 \<Longrightarrow> pos \<le> length bs \<Longrightarrow> pv_wf (PMap m) \<Longrightarrow>
     entries_ok bs pos (pv_decode_entries n bs pos m)"
proof (induction bs and n bs pos and n bs pos m
         rule: pv_decode_rec_pv_decode_items_pv_decode_entries.induct)
  case (1 bs)
  show ?case
  proof (cases "bs = [] \<or> hd bs \<notin> {7, 8}")
    case False
    then show ?thesis by (intro rec_ok_compound "1.IH") auto
  qed (rule rec_ok_leaf)
next
  case (3 n bs pos)
  show ?case
    by (rule items_ok_step) (use "3.prems" "3.IH" in auto)
next
  case (5 n bs pos m)
  show ?case
    by (rule entries_ok_step) (use "5.prems" "5.IH" in auto)
qed (auto simp: items_ok_def entries_ok_def)

section \<open>Properties\<close>

text \<open>
  C9. decoding what \<open>PropertyValue::encode\<close> produced returns the value, whatever bytes
  follow it, and \<open>decode_recursive\<close> consumes exactly the encoding; \<open>encode\<close> does not panic on
  the values the program builds.
\<close>

theorem pv_encode_decode_roundtrip:
  assumes "pv_wf v"
  shows "\<exists>bs. pv_encode v = Inr bs \<and> pv_decode_rec (bs @ rest) = Inr (v, length bs) \<and>
           pv_decode (bs @ rest) = Inr v"
  using pv_encode_parses(1) [OF assms] by (auto simp: pv_parses_def pv_decode_def)

definition pv_example :: property_value where
  "pv_example = PMap [([0x6B], PList [PInt 7, PBool True, PNull, PString [0xC3, 0xA9]])]"

theorem pv_encode_decode_roundtrip_witness:
  "pv_wf pv_example \<and>
   (\<exists>bs. pv_encode pv_example = Inr bs \<and> pv_decode_rec (bs @ [1, 2]) = Inr (pv_example, length bs) \<and>
      pv_decode (bs @ [1, 2]) = Inr pv_example)"
proof -
  have wf: "pv_wf pv_example"
    by (simp add: pv_example_def utf8_len_def byte_in_def utf8_tail_def utf8_second_def)
  from pv_encode_decode_roundtrip [OF wf, of "[1, 2]"] wf show ?thesis by blast
qed

text \<open>
  C21. on any byte string whatsoever \<open>PropertyValue::decode\<close> terminates without slicing out of
  range, and a value it accepts is well-formed, so it can be encoded again.
\<close>

theorem pv_decode_safe:
  "pv_decode bs \<noteq> Inl DecodePanic \<and>
   (\<forall>v n. pv_decode_rec bs = Inr (v, n) \<longrightarrow> 0 < n \<and> n \<le> length bs \<and> pv_wf v)"
  using pv_decode_ok(1) [of bs]
  by (auto simp: pv_decode_def rec_ok_def split: sum.splits)

theorem pv_decode_safe_witness:
  "pv_decode [7, 2, 0, 0, 0, 0] = Inl Empty \<and> pv_decode [7, 2, 0, 0, 0, 0] \<noteq> Inl DecodePanic \<and>
   pv_decode_rec [1, 1, 9] = Inr (PBool True, 2) \<and> 0 < (2 :: nat) \<and> 2 \<le> length [1, 1, 9 :: u8] \<and>
   pv_wf (PBool True)"
proof -
  have "pv_decode [7, 2, 0, 0, 0, 0] = Inl Empty" by code_simp
  moreover have "pv_decode_rec [1, 1, 9] = Inr (PBool True, 2)" by code_simp
  ultimately show ?thesis
    using pv_decode_safe [of "[7, 2, 0, 0, 0, 0]"] pv_decode_safe [of "[1, 1, 9]"] by blast
qed

end
