(* ===== verification/PageStore.thy ===== *)
theory PageStore
  imports Prelude
begin

text \<open>
  The contract between the pager and the structures that live in its pages (blob chains, CSR
  segments, the node table, B-trees): an abstract map from page numbers to page contents, and
  what allocating, freeing, reading and writing a page do to it. The clients' facts about
  sequences of these operations are proved here once.
\<close>

locale page_store =
  fixes inv :: "'s \<Rightarrow> bool"
    and pages :: "'s \<Rightarrow> u64 \<Rightarrow> bytes option"
    and size :: nat
    and alloc :: "'s \<Rightarrow> (u64 \<times> 's) result"
    and ensure :: "u64 \<Rightarrow> 's \<Rightarrow> 's result"
    and free :: "u64 \<Rightarrow> 's \<Rightarrow> 's result"
    and rd :: "'s \<Rightarrow> u64 \<Rightarrow> bytes result"
    and wr :: "u64 \<Rightarrow> bytes \<Rightarrow> 's \<Rightarrow> 's result"
  assumes no_page_zero: "pages s 0 = None"
    and page_length: "inv s \<Longrightarrow> pages s i = Some b \<Longrightarrow> length b = size"
    and alloc_law: "inv s \<Longrightarrow> alloc s = Inr (i, s') \<Longrightarrow>
      inv s' \<and> pages s i = None \<and> (\<exists>b. length b = size \<and> pages s' = (pages s)(i \<mapsto> b))"
    and ensure_law: "inv s \<Longrightarrow> ensure i s = Inr s' \<Longrightarrow>
      inv s' \<and> (\<exists>b. length b = size \<and> (\<forall>c. pages s i = Some c \<longrightarrow> c = b) \<and> pages s' = (pages s)(i \<mapsto> b))"
    and free_law: "inv s \<Longrightarrow> pages s i = Some b \<Longrightarrow>
      \<exists>s'. free i s = Inr s' \<and> inv s' \<and> pages s' = (pages s)(i := None)"
    and read_law: "inv s \<Longrightarrow> pages s i = Some b \<Longrightarrow> rd s i = Inr b"
    and read_none: "inv s \<Longrightarrow> pages s i = None \<Longrightarrow> \<exists>e. rd s i = Inl e"
    and write_law: "inv s \<Longrightarrow> pages s i = Some c \<Longrightarrow> length b = size \<Longrightarrow>
      \<exists>s'. wr i b s = Inr s' \<and> inv s' \<and> pages s' = (pages s)(i \<mapsto> b)"
begin

lemma read_iff: "inv s \<Longrightarrow> rd s i = Inr b \<longleftrightarrow> pages s i = Some b"
  by (cases "pages s i") (auto dest: read_law read_none)

lemma alloc_nonzero: "inv s \<Longrightarrow> alloc s = Inr (i, s') \<Longrightarrow> i \<noteq> 0"
  using alloc_law no_page_zero by (metis fun_upd_same option.distinct(1))

text \<open>Allocating a page and writing it adds exactly that page.\<close>

lemma alloc_write:
  assumes "inv s" "alloc s = Inr (i, s1)" "length b = size"
  obtains s2 where "wr i b s1 = Inr s2" "inv s2" "pages s2 = (pages s)(i \<mapsto> b)"
    "pages s i = None" "i \<noteq> 0"
proof -
  from alloc_law [OF assms(1,2)] obtain c where
    c: "inv s1" "pages s i = None" "pages s1 = (pages s)(i \<mapsto> c)" by blast
  from write_law [OF c(1), of i c b] assms(3) obtain s2 where
    "wr i b s1 = Inr s2" "inv s2" "pages s2 = (pages s1)(i \<mapsto> b)" by (auto simp: c)
  with c alloc_nonzero [OF assms(1,2)] that show thesis by simp
qed

text \<open>Read, change and write back one page.\<close>

lemma ensure_update:
  assumes "inv s" "ensure i s = Inr s1" "\<And>b. length b = size \<Longrightarrow> length (g b) = size"
  obtains b s2 where "rd s1 i = Inr b" "length b = size" "wr i (g b) s1 = Inr s2" "inv s2"
    "pages s2 = (pages s)(i \<mapsto> g b)" "\<And>c. pages s i = Some c \<Longrightarrow> c = b"
proof -
  from ensure_law [OF assms(1,2)] obtain b where
    b: "inv s1" "length b = size" "\<forall>c. pages s i = Some c \<longrightarrow> c = b" "pages s1 = (pages s)(i \<mapsto> b)"
    by blast
  from write_law [OF b(1), of i b "g b"] assms(3) [OF b(2)] obtain s2 where
    "wr i (g b) s1 = Inr s2" "inv s2" "pages s2 = (pages s1)(i \<mapsto> g b)" by (auto simp: b)
  with b that read_law [OF b(1), of i b] show thesis by simp
qed

lemma write_read_same:
  "inv s \<Longrightarrow> pages s i = Some c \<Longrightarrow> length b = size \<Longrightarrow> wr i b s = Inr s' \<Longrightarrow> rd s' i = Inr b"
  using write_law read_law by (metis fun_upd_same sum.inject(2))

lemma write_read_other:
  "inv s \<Longrightarrow> pages s i = Some c \<Longrightarrow> length b = size \<Longrightarrow> wr i b s = Inr s' \<Longrightarrow> j \<noteq> i \<Longrightarrow>
   rd s j = Inr d \<Longrightarrow> rd s' j = Inr d"
  using write_law read_iff by (metis fun_upd_other sum.inject(2))

end

end
