(* ===== verification/Pager.thy ===== *)
theory Pager
  imports Bytes PageStore
begin

unbundle bit_operations_syntax

text \<open>
  The page store of nervusdb-storage/src/pager.rs: a file of 8 KiB pages with a metadata page, an
  allocation bitmap page and data pages. The file is its byte list; writing past the end
  extends it with zeros, reading past the end is the end-of-file error. Failures of the disk
  itself are not modelled, and neither is the path. \<open>usize\<close> offsets are natural numbers, page
  numbers are \<open>u64\<close>.
\<close>

section \<open>Definitions\<close>

definition PAGE_SIZE :: nat where "PAGE_SIZE = 8192"

definition BITMAP_BITS :: u64 where "BITMAP_BITS = 65536"

definition META_PAGE_ID :: u64 where "META_PAGE_ID = 0"
definition BITMAP_PAGE_ID :: u64 where "BITMAP_PAGE_ID = 1"
definition FIRST_DATA_PAGE_ID :: u64 where "FIRST_DATA_PAGE_ID = 2"

definition FILE_MAGIC :: bytes where
  "FILE_MAGIC =
     [0x4E, 0x45, 0x52, 0x56, 0x55, 0x53, 0x44, 0x42, 0x76, 0x32, 0, 0, 0, 0, 0, 0]"

definition VERSION_MAJOR :: u32 where "VERSION_MAJOR = 2"
definition VERSION_MINOR :: u32 where "VERSION_MINOR = 0"
definition STORAGE_FORMAT_EPOCH :: u64 where "STORAGE_FORMAT_EPOCH = 1"

definition zero_page :: bytes where "zero_page = replicate PAGE_SIZE 0"

subsection \<open>The file\<close>

definition set_len :: "nat \<Rightarrow> bytes \<Rightarrow> bytes" where
  "set_len n f = take n f @ replicate (n - length f) 0"

definition write_all_at :: "bytes \<Rightarrow> nat \<Rightarrow> bytes \<Rightarrow> bytes" where
  "write_all_at f off buf = overwrite off buf (f @ replicate (off + length buf - length f) 0)"

definition read_exact_at :: "bytes \<Rightarrow> nat \<Rightarrow> nat \<Rightarrow> bytes result" where
  "read_exact_at f off n = (if off + n \<le> length f then Inr (subslice off n f) else Inl Io)"

definition read_page_raw :: "bytes \<Rightarrow> u64 \<Rightarrow> bytes result" where
  "read_page_raw f page_id = read_exact_at f (unat (page_id * of_nat PAGE_SIZE)) PAGE_SIZE"

definition write_page_raw :: "bytes \<Rightarrow> u64 \<Rightarrow> bytes \<Rightarrow> bytes" where
  "write_page_raw f page_id buf = write_all_at f (unat (page_id * of_nat PAGE_SIZE)) buf"

subsection \<open>The metadata page\<close>

record meta =
  mt_version_major :: u32
  mt_version_minor :: u32
  mt_page_size :: u64
  mt_bitmap_page_id :: u64
  mt_next_page_id :: u64
  mt_i2e_start_page_id :: u64
  mt_i2e_len :: u64
  mt_next_internal_id :: u64
  mt_index_catalog_root :: u64
  mt_next_index_id :: u32
  mt_storage_format_epoch :: u64

definition meta_new :: meta where
  "meta_new = \<lparr> mt_version_major = VERSION_MAJOR, mt_version_minor = VERSION_MINOR,
     mt_page_size = of_nat PAGE_SIZE, mt_bitmap_page_id = BITMAP_PAGE_ID,
     mt_next_page_id = FIRST_DATA_PAGE_ID, mt_i2e_start_page_id = 0, mt_i2e_len = 0,
     mt_next_internal_id = 0, mt_index_catalog_root = 0, mt_next_index_id = 0,
     mt_storage_format_epoch = STORAGE_FORMAT_EPOCH \<rparr>"

definition meta_encode_page :: "meta \<Rightarrow> bytes" where
  "meta_encode_page m =
    (let page = zero_page;
         page = overwrite 0 FILE_MAGIC page;
         page = overwrite 16 (to_le (mt_version_major m)) page;
         page = overwrite 20 (to_le (mt_version_minor m)) page;
         page = overwrite 24 (to_le (mt_page_size m)) page;
         page = overwrite 32 (to_le (mt_bitmap_page_id m)) page;
         page = overwrite 40 (to_le (mt_next_page_id m)) page;
         page = overwrite 48 (to_le (mt_i2e_start_page_id m)) page;
         page = overwrite 56 (to_le (mt_i2e_len m)) page;
         page = overwrite 64 (to_le (mt_next_internal_id m)) page;
         page = overwrite 72 (to_le (mt_index_catalog_root m)) page;
         page = overwrite 80 (to_le (mt_next_index_id m)) page;
         page = overwrite 84 (to_le (mt_storage_format_epoch m)) page
     in page)"

definition meta_decode_page :: "bytes \<Rightarrow> meta result" where
  "meta_decode_page page =
    (if subslice 0 16 page \<noteq> FILE_MAGIC then Inl InvalidMagic
     else let
       version_major = from_le (subslice 16 4 page);
       version_minor = from_le (subslice 20 4 page);
       page_size = from_le (subslice 24 8 page);
       bitmap_page_id = from_le (subslice 32 8 page);
       next_page_id = from_le (subslice 40 8 page);
       i2e_start_page_id = from_le (subslice 48 8 page);
       i2e_len = from_le (subslice 56 8 page);
       next_internal_id = from_le (subslice 64 8 page);
       index_catalog_root = from_le (subslice 72 8 page);
       next_index_id = from_le (subslice 80 4 page);
       storage_format_epoch = from_le (subslice 84 8 page)
     in if page_size \<noteq> of_nat PAGE_SIZE then Inl (UnsupportedPageSize page_size)
     else if storage_format_epoch \<noteq> STORAGE_FORMAT_EPOCH
       then Inl (StorageFormatMismatch STORAGE_FORMAT_EPOCH storage_format_epoch)
     else let
       next_internal_id = (if next_internal_id = 0 \<and> 0 < i2e_len then i2e_len else next_internal_id)
     in Inr \<lparr> mt_version_major = version_major, mt_version_minor = version_minor,
          mt_page_size = page_size, mt_bitmap_page_id = bitmap_page_id,
          mt_next_page_id = next_page_id, mt_i2e_start_page_id = i2e_start_page_id,
          mt_i2e_len = i2e_len, mt_next_internal_id = next_internal_id,
          mt_index_catalog_root = index_catalog_root, mt_next_index_id = next_index_id,
          mt_storage_format_epoch = storage_format_epoch \<rparr>)"

subsection \<open>The allocation bitmap\<close>

definition get_bit :: "bytes \<Rightarrow> nat \<Rightarrow> bool result" where
  "get_bit data b =
    (let byte_index = b div 8; mask = push_bit (b mod 8) (1 :: u8)
     in if byte_index < length data then Inr (data ! byte_index AND mask \<noteq> 0)
        else Inl (Panic ''index out of bounds''))"

definition set_bit_at :: "bytes \<Rightarrow> nat \<Rightarrow> bool \<Rightarrow> bytes result" where
  "set_bit_at data b v =
    (let byte_index = b div 8; mask = push_bit (b mod 8) (1 :: u8)
     in if byte_index < length data
        then Inr (data[byte_index :=
               if v then data ! byte_index OR mask else data ! byte_index AND NOT mask])
        else Inl (Panic ''index out of bounds''))"

definition is_allocated :: "bytes \<Rightarrow> u64 \<Rightarrow> bool result" where
  "is_allocated bm page_id = get_bit bm (unat page_id)"

definition set_allocated :: "bytes \<Rightarrow> u64 \<Rightarrow> bool \<Rightarrow> bytes result" where
  "set_allocated bm page_id allocated = set_bit_at bm (unat page_id) allocated"

definition bitmap_new :: "bytes result" where
  "bitmap_new =
     rbind (set_allocated zero_page META_PAGE_ID True) (\<lambda>bm.
     set_allocated bm BITMAP_PAGE_ID True)"

fun find_clear :: "bytes \<Rightarrow> nat list \<Rightarrow> nat option result" where
  "find_clear data [] = Inr None"
| "find_clear data (i # is) =
     rbind (get_bit data i) (\<lambda>b. if \<not> b then Inr (Some i) else find_clear data is)"

definition find_free_in_range :: "bytes \<Rightarrow> u64 \<Rightarrow> u64 \<Rightarrow> u64 option result" where
  "find_free_in_range bm start fin =
     (if fin \<le> start then Inr None
      else rbind (find_clear bm [unat start..<unat fin]) (\<lambda>r. Inr (map_option of_nat r)))"

subsection \<open>The pager\<close>

record pager =
  pg_file :: bytes
  pg_meta :: meta
  pg_bitmap :: bytes

definition flush_meta_and_bitmap :: "pager \<Rightarrow> pager" where
  "flush_meta_and_bitmap p =
    (let meta_page = meta_encode_page (pg_meta p);
         f = write_page_raw (pg_file p) META_PAGE_ID meta_page;
         f = write_page_raw f BITMAP_PAGE_ID (pg_bitmap p)
     in p\<lparr>pg_file := f\<rparr>)"

text \<open>\<open>None\<close> is a path at which there is no file.\<close>

definition pager_open :: "bytes option \<Rightarrow> pager result" where
  "pager_open existing =
    (let f = (case existing of None \<Rightarrow> [] | Some f \<Rightarrow> f)
     in if existing = None \<or> length f = 0 then
          rbind bitmap_new (\<lambda>bm.
            let f = set_len (PAGE_SIZE * 2) f
            in Inr (flush_meta_and_bitmap \<lparr>pg_file = f, pg_meta = meta_new, pg_bitmap = bm\<rparr>))
        else if length f < PAGE_SIZE * 2 then Inl (WalProtocol ''ndb file too small'')
        else
          rbind (read_page_raw f META_PAGE_ID) (\<lambda>meta_page.
          rbind (meta_decode_page meta_page) (\<lambda>meta.
          rbind (read_page_raw f BITMAP_PAGE_ID) (\<lambda>bitmap_page.
            Inr \<lparr>pg_file = f, pg_meta = meta, pg_bitmap = bitmap_page\<rparr>))))"

definition i2e_start_page :: "pager \<Rightarrow> u64 option" where
  "i2e_start_page p =
     (if mt_i2e_start_page_id (pg_meta p) = 0 then None else Some (mt_i2e_start_page_id (pg_meta p)))"

definition pager_i2e_len :: "pager \<Rightarrow> u64" where
  "pager_i2e_len p = mt_i2e_len (pg_meta p)"

text \<open>\<open>u32::try_from(x).unwrap_or(u32::MAX)\<close>\<close>

definition u32_saturate :: "u64 \<Rightarrow> u32" where
  "u32_saturate x = (if unat x < 2 ^ 32 then ucast x else - 1)"

definition pager_next_internal_id :: "pager \<Rightarrow> u32" where
  "pager_next_internal_id p = u32_saturate (mt_next_internal_id (pg_meta p))"

definition index_catalog_root :: "pager \<Rightarrow> u64 option" where
  "index_catalog_root p =
     (if mt_index_catalog_root (pg_meta p) = 0 then None else Some (mt_index_catalog_root (pg_meta p)))"

definition next_index_id :: "pager \<Rightarrow> u32" where
  "next_index_id p = (if mt_next_index_id (pg_meta p) = 0 then 1 else mt_next_index_id (pg_meta p))"

definition opt_page :: "u64 option \<Rightarrow> u64" where
  "opt_page r = (case r of None \<Rightarrow> 0 | Some p \<Rightarrow> p)"

definition set_i2e_start_page :: "u64 option \<Rightarrow> pager \<Rightarrow> pager" where
  "set_i2e_start_page start p =
     flush_meta_and_bitmap (p\<lparr>pg_meta := (pg_meta p)\<lparr>mt_i2e_start_page_id := opt_page start\<rparr>\<rparr>)"

definition set_i2e_len :: "u64 \<Rightarrow> pager \<Rightarrow> pager" where
  "set_i2e_len n p = flush_meta_and_bitmap (p\<lparr>pg_meta := (pg_meta p)\<lparr>mt_i2e_len := n\<rparr>\<rparr>)"

definition set_next_internal_id :: "u32 \<Rightarrow> pager \<Rightarrow> pager" where
  "set_next_internal_id n p =
     flush_meta_and_bitmap (p\<lparr>pg_meta := (pg_meta p)\<lparr>mt_next_internal_id := ucast n\<rparr>\<rparr>)"

definition set_index_catalog_root :: "u64 option \<Rightarrow> pager \<Rightarrow> pager" where
  "set_index_catalog_root root p =
     flush_meta_and_bitmap (p\<lparr>pg_meta := (pg_meta p)\<lparr>mt_index_catalog_root := opt_page root\<rparr>\<rparr>)"

definition saturating_inc :: "u32 \<Rightarrow> u32" where
  "saturating_inc n = (if n = - 1 then n else n + 1)"

definition allocate_index_id :: "pager \<Rightarrow> u32 \<times> pager" where
  "allocate_index_id p =
    (let i = next_index_id p
     in (i, flush_meta_and_bitmap (p\<lparr>pg_meta := (pg_meta p)\<lparr>mt_next_index_id := saturating_inc i\<rparr>\<rparr>)))"

definition validate_data_page_id :: "u64 \<Rightarrow> unit result" where
  "validate_data_page_id page_id =
     (if page_id < FIRST_DATA_PAGE_ID \<or> BITMAP_BITS \<le> page_id
      then Inl (PageIdOutOfRange page_id) else Inr ())"

definition ensure_allocated :: "u64 \<Rightarrow> pager \<Rightarrow> pager result" where
  "ensure_allocated page_id p =
    rbind (validate_data_page_id page_id) (\<lambda>_.
    let p = (if mt_next_page_id (pg_meta p) \<le> page_id
             then p\<lparr>pg_meta := (pg_meta p)\<lparr>mt_next_page_id := page_id + 1\<rparr>\<rparr> else p)
    in rbind (is_allocated (pg_bitmap p) page_id) (\<lambda>a.
       rbind (if \<not> a then set_allocated (pg_bitmap p) page_id True else Inr (pg_bitmap p)) (\<lambda>bm.
       let p = p\<lparr>pg_bitmap := bm\<rparr>;
           required_bytes = unat ((page_id + 1) * of_nat PAGE_SIZE);
           p = (if length (pg_file p) < required_bytes
                then p\<lparr>pg_file := set_len required_bytes (pg_file p)\<rparr> else p)
       in Inr (flush_meta_and_bitmap p))))"

definition allocate_page :: "pager \<Rightarrow> (u64 \<times> pager) result" where
  "allocate_page p =
    rbind (find_free_in_range (pg_bitmap p) FIRST_DATA_PAGE_ID (mt_next_page_id (pg_meta p))) (\<lambda>r.
    let candidate = (case r of None \<Rightarrow> mt_next_page_id (pg_meta p) | Some c \<Rightarrow> c)
    in if BITMAP_BITS \<le> candidate then Inl (PageIdOutOfRange candidate)
       else
         let p = (if candidate = mt_next_page_id (pg_meta p)
                  then p\<lparr>pg_meta := (pg_meta p)\<lparr>mt_next_page_id := candidate + 1\<rparr>\<rparr> else p)
         in rbind (ensure_allocated candidate p) (\<lambda>p. Inr (candidate, p)))"

definition free_page :: "u64 \<Rightarrow> pager \<Rightarrow> pager result" where
  "free_page page_id p =
    rbind (validate_data_page_id page_id) (\<lambda>_.
    rbind (is_allocated (pg_bitmap p) page_id) (\<lambda>a.
    if \<not> a then Inl (PageNotAllocated page_id)
    else rbind (set_allocated (pg_bitmap p) page_id False) (\<lambda>bm.
      Inr (flush_meta_and_bitmap (p\<lparr>pg_bitmap := bm\<rparr>)))))"

definition read_page :: "pager \<Rightarrow> u64 \<Rightarrow> bytes result" where
  "read_page p page_id =
    rbind (validate_data_page_id page_id) (\<lambda>_.
    rbind (is_allocated (pg_bitmap p) page_id) (\<lambda>a.
    if \<not> a then Inl (PageNotAllocated page_id) else read_page_raw (pg_file p) page_id))"

definition write_page :: "u64 \<Rightarrow> bytes \<Rightarrow> pager \<Rightarrow> pager result" where
  "write_page page_id page p =
    rbind (validate_data_page_id page_id) (\<lambda>_.
    rbind (is_allocated (pg_bitmap p) page_id) (\<lambda>a.
    if \<not> a then Inl (PageNotAllocated page_id)
    else Inr (p\<lparr>pg_file := write_page_raw (pg_file p) page_id page\<rparr>)))"

text \<open>
  The copy that vacuum writes: the reachable pages at their old numbers, everything else
  dropped. \<open>reachable\<close> is a \<open>BTreeSet\<close>, a sorted list here; the result is the file at
  \<open>target_path\<close>, at which \<open>create_new\<close> requires that there is none.
\<close>

record vacuum_copy_stats =
  vc_old_next_page_id :: u64
  vc_new_next_page_id :: u64
  vc_copied_data_pages :: u64
  vc_old_file_pages :: u64
  vc_new_file_pages :: u64

definition saturating_inc64 :: "u64 \<Rightarrow> u64" where
  "saturating_inc64 n = (if n = - 1 then n else n + 1)"

fun vacuum_scan :: "u64 list \<Rightarrow> u64 \<Rightarrow> u64 \<Rightarrow> (u64 \<times> u64) result" where
  "vacuum_scan [] max_page_id copied = Inr (max_page_id, copied)"
| "vacuum_scan (i # is) max_page_id copied =
     (if BITMAP_BITS \<le> i then Inl (PageIdOutOfRange i)
      else vacuum_scan is (max max_page_id i)
             (if FIRST_DATA_PAGE_ID \<le> i then saturating_inc64 copied else copied))"

fun vacuum_mark :: "u64 list \<Rightarrow> bytes \<Rightarrow> bytes result" where
  "vacuum_mark [] bm = Inr bm"
| "vacuum_mark (i # is) bm =
     (if FIRST_DATA_PAGE_ID \<le> i then rbind (set_allocated bm i True) (vacuum_mark is)
      else vacuum_mark is bm)"

fun vacuum_copy_pages :: "pager \<Rightarrow> u64 list \<Rightarrow> bytes \<Rightarrow> bytes result" where
  "vacuum_copy_pages p [] out = Inr out"
| "vacuum_copy_pages p (i # is) out =
     (if i < FIRST_DATA_PAGE_ID then vacuum_copy_pages p is out
      else rbind (read_page p i) (\<lambda>page. vacuum_copy_pages p is (write_page_raw out i page)))"

definition write_vacuum_copy ::
  "pager \<Rightarrow> bytes option \<Rightarrow> u64 list \<Rightarrow> (vacuum_copy_stats \<times> bytes) result" where
  "write_vacuum_copy p target reachable =
    (let old_file_pages = length (pg_file p) div PAGE_SIZE;
         old_next_page_id = mt_next_page_id (pg_meta p)
     in rbind (vacuum_scan reachable BITMAP_PAGE_ID 0) (\<lambda>(max_page_id, copied_data_pages).
     let new_next_page_id = max (saturating_inc64 max_page_id) FIRST_DATA_PAGE_ID;
         meta = (pg_meta p)\<lparr>mt_next_page_id := new_next_page_id\<rparr>
     in rbind bitmap_new (\<lambda>bm.
        rbind (vacuum_mark reachable bm) (\<lambda>bm.
        if target \<noteq> None then Inl Io
        else
          let out = set_len (unat new_next_page_id * PAGE_SIZE) [];
              out = write_page_raw out META_PAGE_ID (meta_encode_page meta);
              out = write_page_raw out BITMAP_PAGE_ID bm
          in rbind (vacuum_copy_pages p reachable out) (\<lambda>out.
             Inr (\<lparr>vc_old_next_page_id = old_next_page_id, vc_new_next_page_id = new_next_page_id,
                   vc_copied_data_pages = copied_data_pages,
                   vc_old_file_pages = of_nat old_file_pages,
                   vc_new_file_pages = new_next_page_id\<rparr>, out))))))"

section \<open>Pages of a file\<close>

definition page_at :: "bytes \<Rightarrow> nat \<Rightarrow> bytes" where
  "page_at f n = subslice (n * PAGE_SIZE) PAGE_SIZE f"

lemma PAGE_SIZE_pos [simp]: "0 < PAGE_SIZE" by (simp add: PAGE_SIZE_def)

lemma length_zero_page [simp]: "length zero_page = PAGE_SIZE" by (simp add: zero_page_def)

lemma page_offset:
  assumes "unat (p :: u64) \<le> 65536"
  shows "unat (p * of_nat PAGE_SIZE) = unat p * PAGE_SIZE"
proof -
  have "unat p * 8192 < 2 ^ 64" using assms by simp
  then show ?thesis by (simp add: PAGE_SIZE_def unat_word_ariths)
qed

lemma page_fits:
  "n < m \<Longrightarrow> m * PAGE_SIZE \<le> l \<Longrightarrow> n * PAGE_SIZE + PAGE_SIZE \<le> l"
  by (metis Suc_leI add.commute le_trans mult_Suc mult_le_mono1)

lemma page_disjoint:
  "n \<noteq> m \<Longrightarrow> n * PAGE_SIZE + PAGE_SIZE \<le> m * PAGE_SIZE \<or> m * PAGE_SIZE + PAGE_SIZE \<le> n * PAGE_SIZE"
  by (metis linorder_neq_iff page_fits order_refl)

lemma length_page_at: "n < m \<Longrightarrow> m * PAGE_SIZE \<le> length f \<Longrightarrow> length (page_at f n) = PAGE_SIZE"
  unfolding page_at_def by (rule length_subslice) (rule page_fits)

lemma write_page_raw_inside:
  assumes "unat p < n" "n \<le> 65536" "n * PAGE_SIZE \<le> length f" "length buf = PAGE_SIZE"
  shows "write_page_raw f p buf = overwrite (unat p * PAGE_SIZE) buf f"
  using page_fits [OF assms(1,3)] assms
  by (simp add: write_page_raw_def write_all_at_def page_offset)

lemma length_write_page_raw [simp]:
  assumes "unat p < n" "n \<le> 65536" "n * PAGE_SIZE \<le> length f" "length buf = PAGE_SIZE"
  shows "length (write_page_raw f p buf) = length f"
  using page_fits [OF assms(1,3)] assms(4)
  by (simp add: write_page_raw_inside [OF assms])

lemma page_at_write_page_raw:
  assumes "unat p < n" "n \<le> 65536" "n * PAGE_SIZE \<le> length f" "length buf = PAGE_SIZE"
  shows "page_at (write_page_raw f p buf) k = (if k = unat p then buf else page_at f k)"
  using page_fits [OF assms(1,3)] page_disjoint [of k "unat p"] assms(4)
  by (auto simp: write_page_raw_inside [OF assms] page_at_def subslice_overwrite_same
      intro!: subslice_overwrite_other)

lemma read_page_raw_inside:
  assumes "unat p < n" "n \<le> 65536" "n * PAGE_SIZE \<le> length f"
  shows "read_page_raw f p = Inr (page_at f (unat p))"
  using page_fits [OF assms(1,3)] assms
  by (simp add: read_page_raw_def read_exact_at_def page_offset page_at_def)

lemma page_at_set_len:
  assumes "n < k" "k * PAGE_SIZE \<le> length f" "length f \<le> m"
  shows "page_at (set_len m f) n = page_at f n"
  using page_fits [OF assms(1,2)] assms(3)
  by (simp add: set_len_def page_at_def subslice_append_left)

lemma length_set_len [simp]: "length (set_len m f) = m"
  by (simp add: set_len_def)

section \<open>The metadata page\<close>

definition meta_normal :: "meta \<Rightarrow> meta" where
  "meta_normal m =
     (if mt_next_internal_id m = 0 \<and> 0 < mt_i2e_len m
      then m\<lparr>mt_next_internal_id := mt_i2e_len m\<rparr> else m)"

definition meta_ok :: "meta \<Rightarrow> bool" where
  "meta_ok m \<longleftrightarrow> mt_page_size m = of_nat PAGE_SIZE \<and> mt_storage_format_epoch m = STORAGE_FORMAT_EPOCH"

lemma overwrite_pad:
  "length xs = i \<Longrightarrow> length src \<le> n \<Longrightarrow>
   overwrite i src (xs @ replicate n z) = (xs @ src) @ replicate (n - length src) z"
  by (simp add: overwrite_def drop_replicate)

lemma length_FILE_MAGIC [simp]: "length FILE_MAGIC = 16" by (simp add: FILE_MAGIC_def)

definition meta_bytes :: "meta \<Rightarrow> bytes" where
  "meta_bytes m =
     FILE_MAGIC @ to_le (mt_version_major m) @ to_le (mt_version_minor m) @
     to_le (mt_page_size m) @ to_le (mt_bitmap_page_id m) @ to_le (mt_next_page_id m) @
     to_le (mt_i2e_start_page_id m) @ to_le (mt_i2e_len m) @ to_le (mt_next_internal_id m) @
     to_le (mt_index_catalog_root m) @ to_le (mt_next_index_id m) @ to_le (mt_storage_format_epoch m)"

lemma meta_encode_page_bytes: "meta_encode_page m = meta_bytes m @ replicate (PAGE_SIZE - 92) 0"
proof -
  have "overwrite 0 FILE_MAGIC zero_page = FILE_MAGIC @ replicate 8176 0"
    using overwrite_pad [of "[]" 0 FILE_MAGIC 8192 0]
    by (simp add: zero_page_def PAGE_SIZE_def)
  then show ?thesis
    unfolding meta_encode_page_def Let_def meta_bytes_def PAGE_SIZE_def
    by (simp add: overwrite_pad del: replicate.simps append_assoc)
qed

lemma length_meta_encode_page [simp]: "length (meta_encode_page m) = PAGE_SIZE"
  by (simp add: meta_encode_page_bytes meta_bytes_def PAGE_SIZE_def)

lemma meta_decode_encode:
  assumes "meta_ok m"
  shows "meta_decode_page (meta_encode_page m) = Inr (meta_normal m)"
  using assms
  unfolding meta_decode_page_def meta_encode_page_bytes meta_bytes_def meta_ok_def
  by (simp add: Let_def subslice_append_right meta_normal_def)

section \<open>The bitmap\<close>

definition bm_test :: "bytes \<Rightarrow> nat \<Rightarrow> bool" where
  "bm_test data i = bit (data ! (i div 8)) (i mod 8)"

lemma get_bit_inside: "i div 8 < length data \<Longrightarrow> get_bit data i = Inr (bm_test data i)"
  by (simp add: get_bit_def bm_test_def push_bit_of_1 and_exp_eq_0_iff_not_bit)

lemma set_bit_at_inside:
  assumes "i div 8 < length data"
  shows "\<exists>data'. set_bit_at data i v = Inr data' \<and> length data' = length data \<and>
    (\<forall>j. bm_test data' j = (if j = i then v else bm_test data j))"
proof -
  define mask :: u8 where "mask = push_bit (i mod 8) 1"
  define w where "w = (if v then data ! (i div 8) OR mask else data ! (i div 8) AND NOT mask)"
  have bits: "bit w k = (if k = i mod 8 then v else bit (data ! (i div 8)) k)" if "k < 8" for k
    using that by (auto simp: w_def mask_def bit_simps)
  have "bm_test (data[i div 8 := w]) j = (if j = i then v else bm_test data j)" for j
  proof (cases "j div 8 = i div 8")
    case True
    then have "j = i \<longleftrightarrow> j mod 8 = i mod 8" by (metis div_mult_mod_eq)
    with True assms show ?thesis by (simp add: bm_test_def bits)
  next
    case False
    then show ?thesis by (auto simp: bm_test_def)
  qed
  moreover have "set_bit_at data i v = Inr (data[i div 8 := w])"
    using assms by (simp add: set_bit_at_def w_def mask_def Let_def)
  ultimately show ?thesis by simp
qed

lemma find_clear_inside:
  "\<forall>i \<in> set is. i div 8 < length data \<Longrightarrow> find_clear data is = Inr (List.find (\<lambda>i. \<not> bm_test data i) is)"
  by (induction "is") (simp_all add: get_bit_inside)

lemma bm_test_zero_page: "i div 8 < PAGE_SIZE \<Longrightarrow> \<not> bm_test zero_page i"
  by (simp add: bm_test_def zero_page_def)

lemma bitmap_bits: "i < 65536 \<Longrightarrow> length bm = PAGE_SIZE \<Longrightarrow> i div 8 < length bm"
  by (simp add: PAGE_SIZE_def)

lemma is_allocated_inside:
  "length bm = PAGE_SIZE \<Longrightarrow> unat i < 65536 \<Longrightarrow> is_allocated bm i = Inr (bm_test bm (unat i))"
  unfolding is_allocated_def by (rule get_bit_inside) (rule bitmap_bits)

lemma set_allocated_inside:
  assumes "length bm = PAGE_SIZE" "unat i < 65536"
  obtains bm' where "set_allocated bm i v = Inr bm'" "length bm' = PAGE_SIZE"
    "\<And>j. bm_test bm' j = (if j = unat i then v else bm_test bm j)"
  using set_bit_at_inside [OF bitmap_bits [OF assms(2,1)], of v] assms(1)
  unfolding set_allocated_def by metis

lemma bitmap_new_ok:
  obtains bm where "bitmap_new = Inr bm" "length bm = PAGE_SIZE"
    "\<And>j. j < 65536 \<Longrightarrow> bm_test bm j \<longleftrightarrow> j < 2"
proof -
  obtain b0 where b0: "set_allocated zero_page META_PAGE_ID True = Inr b0" "length b0 = PAGE_SIZE"
    "\<And>j. bm_test b0 j = (if j = unat META_PAGE_ID then True else bm_test zero_page j)"
    using set_allocated_inside [of zero_page META_PAGE_ID True] by (auto simp: META_PAGE_ID_def)
  obtain b1 where b1: "set_allocated b0 BITMAP_PAGE_ID True = Inr b1" "length b1 = PAGE_SIZE"
    "\<And>j. bm_test b1 j = (if j = unat BITMAP_PAGE_ID then True else bm_test b0 j)"
    using set_allocated_inside [of b0 BITMAP_PAGE_ID True] b0 by (auto simp: BITMAP_PAGE_ID_def)
  have "bm_test b1 j \<longleftrightarrow> j < 2" if "j < 65536" for j
    using bm_test_zero_page [of j] that
    by (auto simp: b1 b0 META_PAGE_ID_def BITMAP_PAGE_ID_def PAGE_SIZE_def)
  with b0 b1 that show thesis by (simp add: bitmap_new_def)
qed

section \<open>The invariant and the pages it exposes\<close>

definition next_page :: "pager \<Rightarrow> nat" where
  "next_page p = unat (mt_next_page_id (pg_meta p))"

definition pager_core :: "pager \<Rightarrow> bool" where
  "pager_core p \<longleftrightarrow>
     length (pg_bitmap p) = PAGE_SIZE \<and> meta_ok (pg_meta p) \<and>
     2 \<le> next_page p \<and> next_page p \<le> 65536 \<and> next_page p * PAGE_SIZE \<le> length (pg_file p) \<and>
     bm_test (pg_bitmap p) 0 \<and> bm_test (pg_bitmap p) 1 \<and>
     (\<forall>i < 65536. next_page p \<le> i \<longrightarrow> \<not> bm_test (pg_bitmap p) i)"

definition pager_synced :: "pager \<Rightarrow> bool" where
  "pager_synced p \<longleftrightarrow>
     meta_decode_page (page_at (pg_file p) 0) = Inr (meta_normal (pg_meta p)) \<and>
     page_at (pg_file p) 1 = pg_bitmap p"

definition pager_inv :: "pager \<Rightarrow> bool" where
  "pager_inv p \<longleftrightarrow> pager_core p \<and> pager_synced p"

definition data_page :: "u64 \<Rightarrow> bool" where
  "data_page i \<longleftrightarrow> 2 \<le> unat i \<and> unat i < 65536"

definition pg_pages :: "pager \<Rightarrow> u64 \<Rightarrow> bytes option" where
  "pg_pages p i =
     (if data_page i \<and> bm_test (pg_bitmap p) (unat i) then Some (page_at (pg_file p) (unat i)) else None)"

lemma validate_data_page_id_iff:
  "validate_data_page_id i = (if data_page i then Inr () else Inl (PageIdOutOfRange i))"
  by (auto simp: validate_data_page_id_def data_page_def FIRST_DATA_PAGE_ID_def BITMAP_BITS_def
      word_less_nat_alt word_le_nat_alt)

lemma flush_ok:
  assumes "pager_core p"
  shows "pager_inv (flush_meta_and_bitmap p)"
    and "pg_pages (flush_meta_and_bitmap p) = pg_pages p"
    and "pg_meta (flush_meta_and_bitmap p) = pg_meta p"
    and "pg_bitmap (flush_meta_and_bitmap p) = pg_bitmap p"
    and "length (pg_file (flush_meta_and_bitmap p)) = length (pg_file p)"
    and "2 \<le> k \<Longrightarrow> page_at (pg_file (flush_meta_and_bitmap p)) k = page_at (pg_file p) k"
proof -
  let ?n = "next_page p"
  let ?f1 = "write_page_raw (pg_file p) META_PAGE_ID (meta_encode_page (pg_meta p))"
  have b: "?n \<le> 65536" "?n * PAGE_SIZE \<le> length (pg_file p)" "2 \<le> ?n"
      "length (pg_bitmap p) = PAGE_SIZE"
    using assms by (simp_all add: pager_core_def)
  have l1: "length ?f1 = length (pg_file p)"
    and p1: "\<And>k. page_at ?f1 k = (if k = 0 then meta_encode_page (pg_meta p) else page_at (pg_file p) k)"
    using b length_write_page_raw [of META_PAGE_ID ?n "pg_file p"]
      page_at_write_page_raw [of META_PAGE_ID ?n "pg_file p"] by (simp_all add: META_PAGE_ID_def)
  let ?f2 = "write_page_raw ?f1 BITMAP_PAGE_ID (pg_bitmap p)"
  have l2: "length ?f2 = length (pg_file p)"
    and p2: "\<And>k. page_at ?f2 k = (if k = 1 then pg_bitmap p else page_at ?f1 k)"
    using b l1 length_write_page_raw [of BITMAP_PAGE_ID ?n ?f1]
      page_at_write_page_raw [of BITMAP_PAGE_ID ?n ?f1] by (simp_all add: BITMAP_PAGE_ID_def)
  have e: "flush_meta_and_bitmap p = p\<lparr>pg_file := ?f2\<rparr>"
    by (simp add: flush_meta_and_bitmap_def Let_def)
  show "pager_inv (flush_meta_and_bitmap p)"
    using assms
    by (simp add: e pager_inv_def pager_synced_def pager_core_def next_page_def l2 p1 p2 meta_decode_encode)
  show "2 \<le> k \<Longrightarrow> page_at (pg_file (flush_meta_and_bitmap p)) k = page_at (pg_file p) k"
    by (simp add: e p1 p2)
  show "pg_pages (flush_meta_and_bitmap p) = pg_pages p"
    by (rule ext) (simp add: e pg_pages_def data_page_def p1 p2)
  show "pg_meta (flush_meta_and_bitmap p) = pg_meta p"
    "pg_bitmap (flush_meta_and_bitmap p) = pg_bitmap p"
    "length (pg_file (flush_meta_and_bitmap p)) = length (pg_file p)"
    by (simp_all add: e l2)
qed

section \<open>The operations keep the invariant\<close>

lemma pager_invD: "pager_inv p \<Longrightarrow> pager_core p" by (simp add: pager_inv_def)

lemma data_page_Suc: "data_page i \<Longrightarrow> unat (i + 1) = Suc (unat i)"
  by (simp add: data_page_def unat_word_ariths)

lemma allocated_below: "pager_core p \<Longrightarrow> pg_pages p i \<noteq> None \<Longrightarrow> unat i < next_page p"
  by (auto simp: pager_core_def pg_pages_def data_page_def not_less [symmetric] split: if_splits)

text \<open>The state that \<open>ensure_allocated\<close> flushes.\<close>

definition grow :: "u64 \<Rightarrow> bytes \<Rightarrow> pager \<Rightarrow> pager" where
  "grow i bm p =
     p\<lparr>pg_meta := (pg_meta p)\<lparr>mt_next_page_id := max (mt_next_page_id (pg_meta p)) (i + 1)\<rparr>,
       pg_bitmap := bm,
       pg_file := (if length (pg_file p) < Suc (unat i) * PAGE_SIZE
                   then set_len (Suc (unat i) * PAGE_SIZE) (pg_file p) else pg_file p)\<rparr>"

lemma ensure_allocated_grow:
  assumes core: "pager_core p" and d: "data_page i"
  obtains bm where "ensure_allocated i p = Inr (flush_meta_and_bitmap (grow i bm p))"
    "length bm = PAGE_SIZE" "\<And>j. bm_test bm j \<longleftrightarrow> j = unat i \<or> bm_test (pg_bitmap p) j"
proof -
  let ?n = "mt_next_page_id (pg_meta p)" and ?bm = "pg_bitmap p"
  have lbm: "length ?bm = PAGE_SIZE" and i: "unat i < 65536"
    using core d by (simp_all add: pager_core_def data_page_def)
  have nx: "(if ?n \<le> i then i + 1 else ?n) = max ?n (i + 1)"
    using data_page_Suc [OF d] by (auto simp: max_def word_le_nat_alt word_unat_eq_iff)
  have req: "unat ((i + 1) * of_nat PAGE_SIZE) = Suc (unat i) * PAGE_SIZE"
    using i by (subst page_offset) (simp_all add: data_page_Suc [OF d])
  obtain bs where bs: "set_allocated ?bm i True = Inr bs" "length bs = PAGE_SIZE"
    "\<And>j. bm_test bs j = (if j = unat i then True else bm_test ?bm j)"
    using set_allocated_inside [OF lbm i, of True] by blast
  define bm where "bm = (if bm_test ?bm (unat i) then ?bm else bs)"
  have bm: "bm_test ?bm (unat i) \<Longrightarrow> bm = ?bm" "\<not> bm_test ?bm (unat i) \<Longrightarrow> bs = bm"
    "length bm = PAGE_SIZE" "\<And>j. bm_test bm j \<longleftrightarrow> j = unat i \<or> bm_test ?bm j"
    by (auto simp: bm_def bs lbm)
  have "(if ?n \<le> i then p\<lparr>pg_meta := (pg_meta p)\<lparr>mt_next_page_id := i + 1\<rparr>\<rparr> else p)
      = p\<lparr>pg_meta := (pg_meta p)\<lparr>mt_next_page_id := max ?n (i + 1)\<rparr>\<rparr>"
    using nx by (auto split: if_splits)
  then have "ensure_allocated i p = Inr (flush_meta_and_bitmap (grow i bm p))"
    unfolding ensure_allocated_def validate_data_page_id_iff req
    by (cases "bm_test ?bm (unat i)")
      (simp_all add: d Let_def is_allocated_inside [OF lbm i] grow_def bs(1) bm(1,2))
  with bm(3,4) that show thesis by blast
qed

lemma grow_core:
  assumes core: "pager_core p" and d: "data_page i"
    and bm: "length bm = PAGE_SIZE" "\<And>j. bm_test bm j \<longleftrightarrow> j = unat i \<or> bm_test (pg_bitmap p) j"
  shows "pager_core (grow i bm p)" "j \<noteq> i \<Longrightarrow> pg_pages (grow i bm p) j = pg_pages p j"
    "pg_pages (grow i bm p) i = Some (page_at (pg_file (grow i bm p)) (unat i))"
    "pg_pages p i = Some b \<Longrightarrow> page_at (pg_file (grow i bm p)) (unat i) = b"
proof -
  let ?q = "grow i bm p"
  have nx: "next_page ?q = max (next_page p) (Suc (unat i))"
    using data_page_Suc [OF d] by (auto simp: grow_def next_page_def max_def word_le_nat_alt)
  have c: "next_page p * PAGE_SIZE \<le> length (pg_file p)" "next_page p \<le> 65536" "2 \<le> next_page p"
    using core by (simp_all add: pager_core_def)
  have lf: "length (pg_file ?q) = max (length (pg_file p)) (Suc (unat i) * PAGE_SIZE)"
    by (simp add: grow_def max_def)
  have len: "next_page ?q * PAGE_SIZE \<le> length (pg_file ?q)"
    unfolding nx lf using c(1) by (auto simp: max_def)
  have same: "page_at (pg_file ?q) k = page_at (pg_file p) k" if "k < next_page p" for k
    using page_at_set_len [OF that c(1)] by (simp add: grow_def)
  show "pager_core ?q"
    using core d len bm nx unfolding pager_core_def by (auto simp: grow_def data_page_def meta_ok_def)
  have bt: "pg_bitmap ?q = bm" by (simp add: grow_def)
  have ne: "j \<noteq> i \<longleftrightarrow> unat j \<noteq> unat i" for j by (simp add: word_unat_eq_iff)
  show "j \<noteq> i \<Longrightarrow> pg_pages ?q j = pg_pages p j"
    using allocated_below [OF core, of j] same [of "unat j"]
    by (auto simp: pg_pages_def bt bm(2) ne split: if_splits)
  show "pg_pages ?q i = Some (page_at (pg_file ?q) (unat i))"
    using d by (simp add: pg_pages_def bt bm(2))
  show "pg_pages p i = Some b \<Longrightarrow> page_at (pg_file ?q) (unat i) = b"
    using allocated_below [OF core, of i] same [of "unat i"]
    by (auto simp: pg_pages_def split: if_splits)
qed

lemma ensure_allocated_ok:
  assumes core: "pager_core p" and d: "data_page i"
  obtains p' where "ensure_allocated i p = Inr p'" "pager_inv p'"
    "pg_meta p' = (pg_meta p)\<lparr>mt_next_page_id := max (mt_next_page_id (pg_meta p)) (i + 1)\<rparr>"
    "\<And>j. j \<noteq> i \<Longrightarrow> pg_pages p' j = pg_pages p j"
    "\<exists>b. length b = PAGE_SIZE \<and> pg_pages p' i = Some b \<and> (\<forall>c. pg_pages p i = Some c \<longrightarrow> c = b)"
proof -
  obtain bm where e: "ensure_allocated i p = Inr (flush_meta_and_bitmap (grow i bm p))"
    and bm: "length bm = PAGE_SIZE" "\<And>j. bm_test bm j \<longleftrightarrow> j = unat i \<or> bm_test (pg_bitmap p) j"
    using ensure_allocated_grow [OF core d] by blast
  note g = grow_core [OF core d bm]
  note fl = flush_ok [OF g(1)]
  have "length (page_at (pg_file (grow i bm p)) (unat i)) = PAGE_SIZE"
    using g(1) allocated_below [OF g(1), of i] g(3)
    by (intro length_page_at [of _ "next_page (grow i bm p)"]) (simp_all add: pager_core_def)
  then have "\<exists>b. length b = PAGE_SIZE \<and> pg_pages (grow i bm p) i = Some b \<and>
      (\<forall>c. pg_pages p i = Some c \<longrightarrow> c = b)"
    using g(3,4) by blast
  with that [OF e fl(1)] fl g(2) show thesis by (simp add: grow_def)
qed

text \<open>The page that \<open>allocate_page\<close> chooses: the least free data page.\<close>

definition least_free :: "pager \<Rightarrow> u64" where
  "least_free p = (case List.find (\<lambda>i. \<not> bm_test (pg_bitmap p) i) [2..<next_page p] of
     None \<Rightarrow> mt_next_page_id (pg_meta p) | Some i \<Rightarrow> of_nat i)"

lemma find_least:
  "List.find P [a..<b] = Some i \<Longrightarrow> a \<le> i \<and> i < b \<and> P i \<and> (\<forall>j. a \<le> j \<and> j < i \<longrightarrow> \<not> P j)"
proof -
  assume "List.find P [a..<b] = Some i"
  then obtain k where k: "k < length [a..<b]" "P ([a..<b] ! k)" "i = [a..<b] ! k"
      "\<forall>j < k. \<not> P ([a..<b] ! j)"
    by (auto simp: find_Some_iff)
  then have "i = a + k" by simp
  moreover have "\<not> P j" if "a \<le> j" "j < i" for j
    using k(4) [rule_format, of "j - a"] k(1) that \<open>i = a + k\<close> by simp
  ultimately show "a \<le> i \<and> i < b \<and> P i \<and> (\<forall>j. a \<le> j \<and> j < i \<longrightarrow> \<not> P j)"
    using k by auto
qed

lemma least_free_props:
  assumes core: "pager_core p"
  shows "2 \<le> unat (least_free p)" "unat (least_free p) \<le> next_page p"
    "unat (least_free p) < 65536 \<Longrightarrow> \<not> bm_test (pg_bitmap p) (unat (least_free p))"
    "2 \<le> j \<Longrightarrow> j < unat (least_free p) \<Longrightarrow> bm_test (pg_bitmap p) j"
proof -
  let ?P = "\<lambda>i. \<not> bm_test (pg_bitmap p) i"
  have n: "2 \<le> next_page p" "next_page p \<le> 65536" using core by (simp_all add: pager_core_def)
  have all: "2 \<le> unat (least_free p) \<and> unat (least_free p) \<le> next_page p \<and>
    (unat (least_free p) < 65536 \<longrightarrow> ?P (unat (least_free p))) \<and>
    (\<forall>j. 2 \<le> j \<and> j < unat (least_free p) \<longrightarrow> \<not> ?P j)"
  proof (cases "List.find ?P [2..<next_page p]")
    case None
    then have "least_free p = mt_next_page_id (pg_meta p)" by (simp add: least_free_def)
    then have "unat (least_free p) = next_page p" by (simp add: next_page_def)
    with None n core show ?thesis by (auto simp: find_None_iff pager_core_def)
  next
    case (Some i)
    note f = find_least [OF Some]
    then have "i < 65536" using n by simp
    then have "unat (of_nat i :: u64) = i" by (intro unat_word_of_nat_less) simp
    then have "unat (least_free p) = i" using Some by (simp add: least_free_def)
    with f show ?thesis by auto
  qed
  then show "2 \<le> unat (least_free p)" "unat (least_free p) \<le> next_page p"
    "unat (least_free p) < 65536 \<Longrightarrow> ?P (unat (least_free p))"
    "2 \<le> j \<Longrightarrow> j < unat (least_free p) \<Longrightarrow> bm_test (pg_bitmap p) j"
    by blast+
qed

lemma find_free_least:
  assumes core: "pager_core p"
  shows "\<exists>r. find_free_in_range (pg_bitmap p) FIRST_DATA_PAGE_ID (mt_next_page_id (pg_meta p)) = Inr r \<and>
    (case r of None \<Rightarrow> mt_next_page_id (pg_meta p) | Some c \<Rightarrow> c) = least_free p"
proof -
  have n: "2 \<le> next_page p" "next_page p \<le> 65536" "length (pg_bitmap p) = PAGE_SIZE"
    using core by (simp_all add: pager_core_def)
  then have "find_clear (pg_bitmap p) [2..<next_page p] =
      Inr (List.find (\<lambda>i. \<not> bm_test (pg_bitmap p) i) [2..<next_page p])"
    by (intro find_clear_inside) (auto simp: PAGE_SIZE_def)
  moreover have "mt_next_page_id (pg_meta p) \<le> FIRST_DATA_PAGE_ID \<longleftrightarrow> next_page p \<le> 2"
    by (simp add: FIRST_DATA_PAGE_ID_def word_le_nat_alt next_page_def)
  ultimately show ?thesis
    by (auto simp: find_free_in_range_def least_free_def FIRST_DATA_PAGE_ID_def next_page_def
        split: option.splits)
qed

lemma allocate_page_least:
  assumes core: "pager_core p"
  shows "allocate_page p =
    (if unat (least_free p) < 65536
     then rbind (ensure_allocated (least_free p) p) (\<lambda>p'. Inr (least_free p, p'))
     else Inl (PageIdOutOfRange 65536))"
proof -
  let ?c = "least_free p" and ?n = "mt_next_page_id (pg_meta p)"
  obtain r where r: "find_free_in_range (pg_bitmap p) FIRST_DATA_PAGE_ID ?n = Inr r"
    "(case r of None \<Rightarrow> ?n | Some c \<Rightarrow> c) = ?c"
    using find_free_least [OF core] by blast
  have le: "unat ?c \<le> 65536"
    using least_free_props(2) [OF core] core by (simp add: pager_core_def)
  show ?thesis
  proof (cases "unat ?c < 65536")
    case True
    have d: "data_page ?c" using True least_free_props(1) [OF core] by (simp add: data_page_def)
    let ?p = "p\<lparr>pg_meta := (pg_meta p)\<lparr>mt_next_page_id := ?c + 1\<rparr>\<rparr>"
    have "ensure_allocated ?c ?p = ensure_allocated ?c p" if "?c = ?n"
      using data_page_Suc [OF d] that
      by (simp add: ensure_allocated_def Let_def word_le_nat_alt)
    with True show ?thesis
      unfolding allocate_page_def r(1) rbind_simps Let_def r(2)
      by (auto simp: BITMAP_BITS_def word_le_nat_alt)
  next
    case False
    with le have "?c = 65536" by (simp add: word_unat_eq_iff)
    with r show ?thesis by (simp add: allocate_page_def Let_def BITMAP_BITS_def)
  qed
qed

lemma free_page_ok:
  assumes inv: "pager_inv p" and pg: "pg_pages p i = Some b"
  shows "\<exists>p'. free_page i p = Inr p' \<and> pager_inv p' \<and> pg_meta p' = pg_meta p \<and>
    pg_pages p' = (pg_pages p)(i := None)"
proof -
  note core = pager_invD [OF inv]
  have d: "data_page i" and t: "bm_test (pg_bitmap p) (unat i)"
    using pg by (auto simp: pg_pages_def split: if_splits)
  have lbm: "length (pg_bitmap p) = PAGE_SIZE" and i: "unat i < 65536"
    using core d by (simp_all add: pager_core_def data_page_def)
  obtain bm where bm: "set_allocated (pg_bitmap p) i False = Inr bm" "length bm = PAGE_SIZE"
    "\<And>j. bm_test bm j = (if j = unat i then False else bm_test (pg_bitmap p) j)"
    using set_allocated_inside [OF lbm i, of False] by blast
  let ?q = "p\<lparr>pg_bitmap := bm\<rparr>"
  have c: "pager_core ?q"
    using core d bm by (auto simp: pager_core_def next_page_def data_page_def)
  have "pg_pages ?q = (pg_pages p)(i := None)"
    by (rule ext) (auto simp: pg_pages_def bm word_unat_eq_iff)
  moreover have "free_page i p = Inr (flush_meta_and_bitmap ?q)"
    by (simp add: free_page_def validate_data_page_id_iff d is_allocated_inside [OF lbm i] t bm(1))
  ultimately show ?thesis using flush_ok(1,2,3) [OF c] by simp
qed

lemma page_access:
  assumes inv: "pager_inv p"
  shows "rbind (validate_data_page_id i) (\<lambda>_. rbind (is_allocated (pg_bitmap p) i) f) =
    (if data_page i then f (pg_pages p i \<noteq> None) else Inl (PageIdOutOfRange i))"
  using pager_invD [OF inv]
  by (auto simp: validate_data_page_id_iff data_page_def pager_core_def is_allocated_inside pg_pages_def)

lemma read_page_iff:
  assumes inv: "pager_inv p"
  shows "read_page p i =
    (case pg_pages p i of Some b \<Rightarrow> Inr b
     | None \<Rightarrow> Inl (if data_page i then PageNotAllocated i else PageIdOutOfRange i))"
proof -
  have "pg_pages p i = Some b \<Longrightarrow> read_page_raw (pg_file p) i = Inr b" for b
    using allocated_below [OF pager_invD [OF inv], of i] pager_invD [OF inv]
    by (auto simp: pager_core_def pg_pages_def split: if_splits intro!: read_page_raw_inside)
  then show ?thesis
    unfolding read_page_def page_access [OF inv]
    by (auto simp: pg_pages_def split: option.splits if_splits)
qed

lemma write_page_ok:
  assumes inv: "pager_inv p" and pg: "pg_pages p i = Some c" and len: "length b = PAGE_SIZE"
  shows "\<exists>p'. write_page i b p = Inr p' \<and> pager_inv p' \<and> pg_meta p' = pg_meta p \<and>
    pg_pages p' = (pg_pages p)(i \<mapsto> b)"
proof -
  note core = pager_invD [OF inv]
  have d: "data_page i" and i: "unat i < next_page p"
    using pg allocated_below [OF core, of i] by (auto simp: pg_pages_def split: if_splits)
  have n: "next_page p \<le> 65536" "next_page p * PAGE_SIZE \<le> length (pg_file p)"
    using core by (simp_all add: pager_core_def)
  note w = page_at_write_page_raw [OF i n len] length_write_page_raw [OF i n len]
  let ?q = "p\<lparr>pg_file := write_page_raw (pg_file p) i b\<rparr>"
  have "pager_inv ?q"
    using inv d unfolding pager_inv_def pager_core_def pager_synced_def next_page_def data_page_def
    by (auto simp: w)
  moreover have "pg_pages ?q = (pg_pages p)(i \<mapsto> b)"
    using d pg by (intro ext) (auto simp: pg_pages_def w simp flip: word_unat_eq_iff split: if_splits)
  moreover have "write_page i b p = Inr ?q"
    unfolding write_page_def page_access [OF inv] using d pg by simp
  ultimately show ?thesis by simp
qed

lemma ensure_allocated_law:
  assumes "pager_inv p" "ensure_allocated i p = Inr p'"
  shows "pager_inv p' \<and> (\<exists>b. length b = PAGE_SIZE \<and> (\<forall>c. pg_pages p i = Some c \<longrightarrow> c = b) \<and>
    pg_pages p' = (pg_pages p)(i \<mapsto> b))"
proof -
  have d: "data_page i"
    using assms(2) by (auto simp: ensure_allocated_def validate_data_page_id_iff split: if_splits)
  obtain b where "pager_inv p'" "\<And>j. j \<noteq> i \<Longrightarrow> pg_pages p' j = pg_pages p j"
    "length b = PAGE_SIZE" "pg_pages p' i = Some b" "\<forall>c. pg_pages p i = Some c \<longrightarrow> c = b"
    using ensure_allocated_ok [OF pager_invD [OF assms(1)] d] assms(2) by (metis sum.inject(2))
  moreover from this have "pg_pages p' = (pg_pages p)(i \<mapsto> b)" by (auto simp: fun_eq_iff)
  ultimately show ?thesis by blast
qed

lemma allocate_page_law:
  assumes inv: "pager_inv p" and a: "allocate_page p = Inr (i, p')"
  shows "pager_inv p' \<and> pg_pages p i = None \<and>
    (\<exists>b. length b = PAGE_SIZE \<and> pg_pages p' = (pg_pages p)(i \<mapsto> b))"
proof -
  from a have i: "i = least_free p" and lt: "unat (least_free p) < 65536"
    and e: "ensure_allocated i p = Inr p'"
    by (auto simp: allocate_page_least [OF pager_invD [OF inv]] rbind_Inr_iff split: if_splits)
  have "pg_pages p i = None"
    using least_free_props(3) [OF pager_invD [OF inv] lt] by (simp add: pg_pages_def i)
  with ensure_allocated_law [OF inv e] show ?thesis by blast
qed

lemma pg_pages_zero: "pg_pages p 0 = None"
  by (simp add: pg_pages_def data_page_def)

lemma pg_pages_length:
  assumes "pager_inv p" "pg_pages p i = Some b"
  shows "length b = PAGE_SIZE"
  using assms allocated_below [OF pager_invD [OF assms(1)], of i]
    length_page_at [of "unat i" "next_page p" "pg_file p"]
  by (auto simp: pager_inv_def pager_core_def pg_pages_def split: if_splits)

interpretation pgs: page_store pager_inv pg_pages PAGE_SIZE allocate_page ensure_allocated
  free_page read_page write_page
proof
  fix s i b c
  show "pg_pages s 0 = None" by (rule pg_pages_zero)
  assume inv: "pager_inv s"
  show "pg_pages s i = Some b \<Longrightarrow> length b = PAGE_SIZE" by (rule pg_pages_length [OF inv])
  show "pg_pages s i = Some b \<Longrightarrow> read_page s i = Inr b"
    "pg_pages s i = None \<Longrightarrow> \<exists>e. read_page s i = Inl e"
    by (simp_all add: read_page_iff [OF inv])
  show "pg_pages s i = Some b \<Longrightarrow>
      \<exists>s'. free_page i s = Inr s' \<and> pager_inv s' \<and> pg_pages s' = (pg_pages s)(i := None)"
    using free_page_ok [OF inv] by blast
  show "pg_pages s i = Some c \<Longrightarrow> length b = PAGE_SIZE \<Longrightarrow>
      \<exists>s'. write_page i b s = Inr s' \<and> pager_inv s' \<and> pg_pages s' = (pg_pages s)(i \<mapsto> b)"
    using write_page_ok [OF inv] by blast
qed (rule allocate_page_law ensure_allocated_law; assumption)+

lemma set_meta_ok:
  assumes core: "pager_core p" and m: "mt_next_page_id m = mt_next_page_id (pg_meta p)" "meta_ok m"
  shows "pager_inv (flush_meta_and_bitmap (p\<lparr>pg_meta := m\<rparr>))"
    "pg_pages (flush_meta_and_bitmap (p\<lparr>pg_meta := m\<rparr>)) = pg_pages p"
    "pg_meta (flush_meta_and_bitmap (p\<lparr>pg_meta := m\<rparr>)) = m"
proof -
  have c: "pager_core (p\<lparr>pg_meta := m\<rparr>)" using core m by (simp add: pager_core_def next_page_def)
  have "pg_pages (p\<lparr>pg_meta := m\<rparr>) = pg_pages p" by (rule ext) (simp add: pg_pages_def)
  with flush_ok(1,2,3) [OF c] show "pager_inv (flush_meta_and_bitmap (p\<lparr>pg_meta := m\<rparr>))"
    "pg_pages (flush_meta_and_bitmap (p\<lparr>pg_meta := m\<rparr>)) = pg_pages p"
    "pg_meta (flush_meta_and_bitmap (p\<lparr>pg_meta := m\<rparr>)) = m"
    by simp_all
qed

lemma core_meta_ok: "pager_core p \<Longrightarrow> meta_ok (pg_meta p)"
  by (simp add: pager_core_def)

lemma setters_inv:
  assumes "pager_inv p"
  shows "pager_inv (set_i2e_start_page s p)" "pager_inv (set_i2e_len n p)"
    "pager_inv (set_next_internal_id k p)" "pager_inv (set_index_catalog_root s p)"
    "pager_inv (snd (allocate_index_id p))"
  using pager_invD [OF assms] core_meta_ok [OF pager_invD [OF assms]]
  unfolding set_i2e_start_page_def set_i2e_len_def set_next_internal_id_def
    set_index_catalog_root_def allocate_index_id_def Let_def snd_conv
  by (auto intro!: set_meta_ok(1) simp: meta_ok_def)

lemma setters_pages:
  assumes "pager_inv p"
  shows "pg_pages (set_i2e_start_page s p) = pg_pages p" "pg_pages (set_i2e_len n p) = pg_pages p"
    "pg_pages (set_next_internal_id k p) = pg_pages p"
    "pg_pages (set_index_catalog_root s p) = pg_pages p"
    "pg_pages (snd (allocate_index_id p)) = pg_pages p"
  using pager_invD [OF assms] core_meta_ok [OF pager_invD [OF assms]]
  unfolding set_i2e_start_page_def set_i2e_len_def set_next_internal_id_def
    set_index_catalog_root_def allocate_index_id_def Let_def snd_conv
  by (auto intro!: set_meta_ok(2) simp: meta_ok_def)

lemma setters_meta:
  assumes "pager_inv p"
  shows "pg_meta (set_i2e_start_page s p) = (pg_meta p)\<lparr>mt_i2e_start_page_id := opt_page s\<rparr>"
    "pg_meta (set_i2e_len n p) = (pg_meta p)\<lparr>mt_i2e_len := n\<rparr>"
    "pg_meta (set_next_internal_id k p) = (pg_meta p)\<lparr>mt_next_internal_id := ucast k\<rparr>"
    "pg_meta (set_index_catalog_root s p) = (pg_meta p)\<lparr>mt_index_catalog_root := opt_page s\<rparr>"
  using pager_invD [OF assms] core_meta_ok [OF pager_invD [OF assms]]
  unfolding set_i2e_start_page_def set_i2e_len_def set_next_internal_id_def
    set_index_catalog_root_def
  by (auto intro!: set_meta_ok(3) simp: meta_ok_def)

lemma pager_create:
  obtains p where "pager_open None = Inr p" "pager_inv p" "pg_pages p = (\<lambda>_. None)"
    "pg_meta p = meta_new" "pager_open (Some []) = Inr p"
proof -
  obtain bm where bm: "bitmap_new = Inr bm" "length bm = PAGE_SIZE"
    "\<And>j. j < 65536 \<Longrightarrow> bm_test bm j \<longleftrightarrow> j < 2"
    using bitmap_new_ok by blast
  let ?p = "\<lparr>pg_file = set_len (PAGE_SIZE * 2) [], pg_meta = meta_new, pg_bitmap = bm\<rparr>"
  have c: "pager_core ?p"
    by (simp add: pager_core_def next_page_def meta_new_def meta_ok_def bm FIRST_DATA_PAGE_ID_def)
  have pgs: "pg_pages ?p = (\<lambda>_. None)"
    by (rule ext) (auto simp: pg_pages_def data_page_def bm)
  from flush_ok(1,2,3) [OF c] pgs that show thesis
    by (simp add: pager_open_def bm(1) Let_def)
qed

lemma pager_reopen:
  assumes inv: "pager_inv p"
  shows "pager_open (Some (pg_file p)) = Inr (p\<lparr>pg_meta := meta_normal (pg_meta p)\<rparr>)"
proof -
  have n: "2 \<le> next_page p" "next_page p \<le> 65536" "next_page p * PAGE_SIZE \<le> length (pg_file p)"
    "meta_ok (pg_meta p)"
    using inv by (simp_all add: pager_inv_def pager_core_def)
  have two: "PAGE_SIZE * 2 \<le> length (pg_file p)"
    using n by (metis le_trans mult.commute mult_le_mono1)
  then have "pg_file p \<noteq> []" by (auto simp: PAGE_SIZE_def)
  moreover have "read_page_raw (pg_file p) META_PAGE_ID = Inr (page_at (pg_file p) 0)"
    "meta_decode_page (page_at (pg_file p) 0) = Inr (meta_normal (pg_meta p))"
    "read_page_raw (pg_file p) BITMAP_PAGE_ID = Inr (pg_bitmap p)"
    using n inv read_page_raw_inside [of META_PAGE_ID "next_page p" "pg_file p"]
      read_page_raw_inside [of BITMAP_PAGE_ID "next_page p" "pg_file p"]
    by (simp_all add: META_PAGE_ID_def BITMAP_PAGE_ID_def pager_inv_def pager_synced_def)
  ultimately show ?thesis
    using two by (simp add: pager_open_def Let_def)
qed

section \<open>The vacuum copy\<close>

lemma vacuum_scan_ok:
  "\<forall>i \<in> set R. unat i < 65536 \<Longrightarrow> unat m < 65536 \<Longrightarrow>
   \<exists>mx c'. vacuum_scan R m c = Inr (mx, c') \<and> unat mx < 65536 \<and> unat m \<le> unat mx \<and>
     (\<forall>i \<in> set R. unat i \<le> unat mx)"
proof (induction R arbitrary: m c)
  case (Cons i R)
  let ?m = "max m i"
  have m: "unat ?m = max (unat m) (unat i)" by (simp add: max_def word_le_nat_alt)
  with Cons.prems have "unat ?m < 65536" by simp
  from Cons.IH [OF _ this] Cons.prems show ?case
    by (fastforce simp: BITMAP_BITS_def word_le_nat_alt m)
qed simp

lemma vacuum_mark_ok:
  "\<forall>i \<in> set R. unat i < 65536 \<Longrightarrow> length bm = PAGE_SIZE \<Longrightarrow>
   \<exists>bm'. vacuum_mark R bm = Inr bm' \<and> length bm' = PAGE_SIZE \<and>
     (\<forall>i. bm_test bm' (unat i) \<longleftrightarrow> bm_test bm (unat i) \<or> i \<in> set R \<and> 2 \<le> unat i)"
proof (induction R arbitrary: bm)
  case (Cons i R)
  obtain b where b: "set_allocated bm i True = Inr b" "length b = PAGE_SIZE"
    "\<And>j. bm_test b j = (if j = unat i then True else bm_test bm j)"
    using set_allocated_inside [of bm i True] Cons.prems by auto
  have two: "FIRST_DATA_PAGE_ID \<le> i \<longleftrightarrow> 2 \<le> unat i"
    by (simp add: FIRST_DATA_PAGE_ID_def word_le_nat_alt)
  have R: "\<forall>i \<in> set R. unat i < 65536" using Cons.prems by simp
  from Cons.IH [OF R b(2)] Cons.IH [OF R Cons.prems(2)] show ?case
    by (auto simp: two b word_unat_eq_iff)
qed simp

lemma vacuum_copy_pages_ok:
  assumes inv: "pager_inv p" and n: "n \<le> 65536"
  shows "\<forall>i \<in> set R. unat i < n \<and> (2 \<le> unat i \<longrightarrow> pg_pages p i \<noteq> None) \<Longrightarrow> n * PAGE_SIZE \<le> length out \<Longrightarrow>
   \<exists>out'. vacuum_copy_pages p R out = Inr out' \<and> length out' = length out \<and>
     (\<forall>i. page_at out' (unat i) =
       (if 2 \<le> unat i \<and> i \<in> set R then the (pg_pages p i) else page_at out (unat i)))"
proof (induction R arbitrary: out)
  case (Cons i R)
  have R: "\<forall>i \<in> set R. unat i < n \<and> (2 \<le> unat i \<longrightarrow> pg_pages p i \<noteq> None)" using Cons.prems by simp
  have two: "i < FIRST_DATA_PAGE_ID \<longleftrightarrow> unat i < 2"
    by (simp add: FIRST_DATA_PAGE_ID_def word_less_nat_alt)
  show ?case
  proof (cases "unat i < 2")
    case True
    with Cons.IH [OF R Cons.prems(2)] show ?thesis by (auto simp: two)
  next
    case False
    then obtain b where b: "pg_pages p i = Some b" using Cons.prems by auto
    have i: "unat i < n" using Cons.prems by simp
    note w = page_at_write_page_raw [OF i n Cons.prems(2) pg_pages_length [OF inv b]]
      length_write_page_raw [OF i n Cons.prems(2) pg_pages_length [OF inv b]]
    have "n * PAGE_SIZE \<le> length (write_page_raw out i b)" using Cons.prems(2) by (simp add: w)
    from Cons.IH [OF R this] False b show ?thesis
      by (auto simp: two read_page_iff [OF inv] w simp flip: word_unat_eq_iff)
  qed
qed simp

text \<open>The header that the copy starts with: new bounds and the bitmap of the reachable pages.\<close>

definition vacuum_header :: "pager \<Rightarrow> u64 \<Rightarrow> bytes \<Rightarrow> pager" where
  "vacuum_header p nx bm =
     flush_meta_and_bitmap \<lparr>pg_file = set_len (unat nx * PAGE_SIZE) [],
       pg_meta = (pg_meta p)\<lparr>mt_next_page_id := nx\<rparr>, pg_bitmap = bm\<rparr>"

lemma vacuum_next_page:
  assumes "unat mx < 65536" "1 \<le> unat mx"
  shows "unat (max (saturating_inc64 mx) FIRST_DATA_PAGE_ID) = Suc (unat mx)"
proof -
  have "unat (- 1 :: u64) = 2 ^ 64 - 1" by (simp add: unsigned_minus_1_eq_mask mask_eq_exp_minus_1)
  then have "mx \<noteq> - 1" using assms(1) by auto
  then have "unat (saturating_inc64 mx) = Suc (unat mx)"
    using assms(1) by (simp add: saturating_inc64_def unat_word_ariths)
  with assms(2) show ?thesis by (auto simp: max_def FIRST_DATA_PAGE_ID_def word_le_nat_alt)
qed

lemma vacuum_header_ok:
  assumes inv: "pager_inv p" and R': "\<forall>i \<in> set R. unat i < 65536"
  obtains mx c nx b0 bm where "vacuum_scan R BITMAP_PAGE_ID 0 = Inr (mx, c)"
    "nx = max (saturating_inc64 mx) FIRST_DATA_PAGE_ID"
    "bitmap_new = Inr b0" "vacuum_mark R b0 = Inr bm"
    "pager_inv (vacuum_header p nx bm)" "unat nx \<le> 65536" "\<forall>i \<in> set R. unat i < unat nx"
    "length (pg_file (vacuum_header p nx bm)) = unat nx * PAGE_SIZE"
    "pg_meta (vacuum_header p nx bm) = (pg_meta p)\<lparr>mt_next_page_id := nx\<rparr>"
    "pg_bitmap (vacuum_header p nx bm) = bm"
    "\<And>i. unat i < 65536 \<Longrightarrow> bm_test bm (unat i) \<longleftrightarrow> unat i < 2 \<or> i \<in> set R"
proof -
  obtain mx c where mx: "vacuum_scan R BITMAP_PAGE_ID 0 = Inr (mx, c)" "unat mx < 65536"
    "1 \<le> unat mx" "\<forall>i \<in> set R. unat i \<le> unat mx"
    using vacuum_scan_ok [OF R', of BITMAP_PAGE_ID 0] by (auto simp: BITMAP_PAGE_ID_def)
  define nx where "nx = max (saturating_inc64 mx) FIRST_DATA_PAGE_ID"
  have nx: "unat nx = Suc (unat mx)" using vacuum_next_page [OF mx(2,3)] by (simp add: nx_def)
  obtain b0 where b0: "bitmap_new = Inr b0" "length b0 = PAGE_SIZE"
    "\<And>j. j < 65536 \<Longrightarrow> bm_test b0 j \<longleftrightarrow> j < 2" using bitmap_new_ok by blast
  obtain bm where bm: "vacuum_mark R b0 = Inr bm" "length bm = PAGE_SIZE"
    "\<And>i. bm_test bm (unat i) \<longleftrightarrow> bm_test b0 (unat i) \<or> i \<in> set R \<and> 2 \<le> unat i"
    using vacuum_mark_ok [OF R' b0(2)] by blast
  have bt: "bm_test bm j \<longleftrightarrow> j < 2 \<or> of_nat j \<in> set R" if "j < 65536" for j
    using bm(3) [of "of_nat j"] b0(3) [OF that] that by (auto simp: unat_word_of_nat_less)
  let ?q = "\<lparr>pg_file = set_len (unat nx * PAGE_SIZE) [],
    pg_meta = (pg_meta p)\<lparr>mt_next_page_id := nx\<rparr>, pg_bitmap = bm\<rparr>"
  have "pager_core ?q"
    using pager_invD [OF inv] mx(2,3,4) bm(2) R'
    by (auto simp: pager_core_def next_page_def nx meta_ok_def bt unat_word_of_nat_less)
  note q = flush_ok [OF this, folded vacuum_header_def]
  have "\<forall>i \<in> set R. unat i < unat nx" using mx(4) by (auto simp: nx less_Suc_eq_le)
  moreover have "bm_test bm (unat i) \<longleftrightarrow> unat i < 2 \<or> i \<in> set R" if "unat i < 65536" for i
    using bt [OF that] by simp
  ultimately show thesis
    using that [OF mx(1) nx_def b0(1) bm(1) q(1)] mx(2) nx q(3,4,5) by simp
qed

lemma write_vacuum_copy_ok:
  assumes inv: "pager_inv p"
    and R: "\<forall>i \<in> set R. unat i < 2 \<or> pg_pages p i \<noteq> None"
  obtains st q where "write_vacuum_copy p None R = Inr (st, pg_file q)" "pager_inv q"
    "pg_pages q = (\<lambda>i. if i \<in> set R then pg_pages p i else None)"
    "pg_meta q = (pg_meta p)\<lparr>mt_next_page_id := vc_new_next_page_id st\<rparr>"
proof -
  have R': "\<forall>i \<in> set R. unat i < 65536"
    using R by (force simp: pg_pages_def data_page_def split: if_splits)
  obtain mx c nx b0 bm where h: "vacuum_scan R BITMAP_PAGE_ID 0 = Inr (mx, c)"
    "nx = max (saturating_inc64 mx) FIRST_DATA_PAGE_ID" "bitmap_new = Inr b0" "vacuum_mark R b0 = Inr bm"
    and q1: "pager_inv (vacuum_header p nx bm)" "unat nx \<le> 65536" "\<forall>i \<in> set R. unat i < unat nx"
    "length (pg_file (vacuum_header p nx bm)) = unat nx * PAGE_SIZE"
    "pg_meta (vacuum_header p nx bm) = (pg_meta p)\<lparr>mt_next_page_id := nx\<rparr>"
    "pg_bitmap (vacuum_header p nx bm) = bm"
    and bt: "\<And>i. unat i < 65536 \<Longrightarrow> bm_test bm (unat i) \<longleftrightarrow> unat i < 2 \<or> i \<in> set R"
    using vacuum_header_ok [OF inv R'] by blast
  let ?q1 = "vacuum_header p nx bm"
  have "\<forall>i \<in> set R. unat i < unat nx \<and> (2 \<le> unat i \<longrightarrow> pg_pages p i \<noteq> None)"
    using R q1(3) by fastforce
  from vacuum_copy_pages_ok [OF inv q1(2) this, of "pg_file ?q1"]
  obtain out where out: "vacuum_copy_pages p R (pg_file ?q1) = Inr out"
    "length out = length (pg_file ?q1)"
    "\<And>i. page_at out (unat i) =
       (if 2 \<le> unat i \<and> i \<in> set R then the (pg_pages p i) else page_at (pg_file ?q1) (unat i))"
    using eq_refl [OF q1(4) [symmetric]] by blast
  let ?q = "?q1\<lparr>pg_file := out\<rparr>"
  have "page_at out 0 = page_at (pg_file ?q1) 0" "page_at out 1 = page_at (pg_file ?q1) 1"
    using out(3) [of 0] out(3) [of 1] by simp_all
  then have inv': "pager_inv ?q"
    using q1(1) out(2) by (simp add: pager_inv_def pager_core_def pager_synced_def next_page_def)
  have "pg_pages ?q i = (if i \<in> set R then pg_pages p i else None)" for i
    using R bt [of i] by (auto simp: pg_pages_def q1(6) out(3) data_page_def split: if_splits)
  moreover have "write_vacuum_copy p None R = Inr (\<lparr>vc_old_next_page_id = mt_next_page_id (pg_meta p),
      vc_new_next_page_id = nx, vc_copied_data_pages = c,
      vc_old_file_pages = of_nat (length (pg_file p) div PAGE_SIZE), vc_new_file_pages = nx\<rparr>, out)"
    using out(1) unfolding write_vacuum_copy_def h(1,3) rbind_simps prod.case Let_def h(2) [symmetric] h(4)
    by (simp add: vacuum_header_def flush_meta_and_bitmap_def Let_def)
  ultimately show thesis using that [of _ ?q] inv' q1(5) by (simp add: fun_eq_iff)
qed

section \<open>Runs of the pager\<close>

text \<open>
  One step is any public operation that succeeds, or closing and reopening the file; a failed
  operation leaves the state as it was.
\<close>

inductive pager_step :: "pager \<Rightarrow> pager \<Rightarrow> bool" where
  step_alloc: "allocate_page p = Inr (i, p') \<Longrightarrow> pager_step p p'"
| step_ensure: "ensure_allocated i p = Inr p' \<Longrightarrow> pager_step p p'"
| step_free: "free_page i p = Inr p' \<Longrightarrow> pager_step p p'"
| step_write: "write_page i b p = Inr p' \<Longrightarrow> length b = PAGE_SIZE \<Longrightarrow> pager_step p p'"
| step_i2e_start: "pager_step p (set_i2e_start_page s p)"
| step_i2e_len: "pager_step p (set_i2e_len n p)"
| step_next_internal: "pager_step p (set_next_internal_id k p)"
| step_catalog_root: "pager_step p (set_index_catalog_root s p)"
| step_index_id: "pager_step p (snd (allocate_index_id p))"
| step_reopen: "pager_open (Some (pg_file p)) = Inr p' \<Longrightarrow> pager_step p p'"

inductive pager_reachable :: "pager \<Rightarrow> bool" where
  reach_create: "pager_open None = Inr p \<Longrightarrow> pager_reachable p"
| reach_step: "pager_reachable p \<Longrightarrow> pager_step p p' \<Longrightarrow> pager_reachable p'"

lemma meta_normal_idem [simp]: "meta_normal (meta_normal m) = meta_normal m"
  by (simp add: meta_normal_def)

lemma reopen_inv:
  assumes "pager_inv p"
  shows "pager_inv (p\<lparr>pg_meta := meta_normal (pg_meta p)\<rparr>)"
proof -
  have "mt_next_page_id (meta_normal m) = mt_next_page_id m" "meta_ok (meta_normal m) = meta_ok m" for m
    by (simp_all add: meta_normal_def meta_ok_def)
  with assms show ?thesis
    by (simp add: pager_inv_def pager_core_def pager_synced_def next_page_def)
qed

lemma unallocated_access:
  assumes inv: "pager_inv p" and none: "pg_pages p i = None"
  shows "free_page i p = Inl (if data_page i then PageNotAllocated i else PageIdOutOfRange i)"
    "write_page i b p = Inl (if data_page i then PageNotAllocated i else PageIdOutOfRange i)"
    "read_page p i = Inl (if data_page i then PageNotAllocated i else PageIdOutOfRange i)"
  unfolding free_page_def write_page_def read_page_def page_access [OF inv] by (simp_all add: none)

lemma free_page_inv: "pager_inv p \<Longrightarrow> free_page i p = Inr p' \<Longrightarrow> pager_inv p'"
  using free_page_ok [of p i] unallocated_access(1) [of p i] by (cases "pg_pages p i") auto

lemma write_page_inv:
  "pager_inv p \<Longrightarrow> write_page i b p = Inr p' \<Longrightarrow> length b = PAGE_SIZE \<Longrightarrow> pager_inv p'"
  using write_page_ok [of p i _ b] unallocated_access(2) [of p i b] by (cases "pg_pages p i") auto

lemma pager_step_inv: "pager_step p p' \<Longrightarrow> pager_inv p \<Longrightarrow> pager_inv p'"
  by (induction rule: pager_step.induct)
    (auto simp: setters_inv pager_reopen reopen_inv dest: allocate_page_law ensure_allocated_law
      free_page_inv write_page_inv)

lemma reachable_inv: "pager_reachable p \<Longrightarrow> pager_inv p"
proof (induction rule: pager_reachable.induct)
  case (reach_create p)
  then show ?case using pager_create by (metis sum.inject(2))
qed (rule pager_step_inv)

lemma ensure_allocated_out: "\<not> data_page i \<Longrightarrow> ensure_allocated i p = Inl (PageIdOutOfRange i)"
  by (simp add: ensure_allocated_def validate_data_page_id_iff)

lemma ensure_allocated_no_panic:
  assumes "pager_inv p" shows "\<not> is_panic (ensure_allocated i p)"
proof (cases "data_page i")
  case True
  then obtain p' where "ensure_allocated i p = Inr p'"
    using ensure_allocated_ok [OF pager_invD [OF assms]] by blast
  then show ?thesis by simp
qed (simp add: ensure_allocated_out)

lemma allocate_page_no_panic:
  "pager_inv p \<Longrightarrow> \<not> is_panic (allocate_page p)"
  using ensure_allocated_no_panic [of p "least_free p"]
  by (simp add: allocate_page_least [OF pager_invD])

lemma allocate_page_succeeds:
  assumes inv: "pager_inv p" and j: "data_page j" "pg_pages p j = None"
  obtains i p' where "allocate_page p = Inr (i, p')"
proof -
  note core = pager_invD [OF inv]
  have "\<not> unat j < unat (least_free p)"
    using least_free_props(4) [OF core, of "unat j"] j by (auto simp: pg_pages_def data_page_def)
  then have lt: "unat (least_free p) < 65536" using j(1) by (simp add: data_page_def)
  then have "data_page (least_free p)" using least_free_props(1) [OF core] by (simp add: data_page_def)
  then obtain p' where "ensure_allocated (least_free p) p = Inr p'"
    using ensure_allocated_ok [OF core] by blast
  with lt that show thesis by (simp add: allocate_page_least [OF core])
qed

section \<open>Free pages\<close>

definition free_pages :: "pager \<Rightarrow> nat" where
  "free_pages p = card {i. data_page i \<and> pg_pages p i = None}"

lemma finite_data_pages: "finite {i. data_page i \<and> P i}"
proof (rule finite_imageD [of unat])
  have "unat ` {i. data_page i \<and> P i} \<subseteq> {..<65536}" by (auto simp: data_page_def)
  then show "finite (unat ` {i. data_page i \<and> P i})" by (rule finite_subset) simp
  show "inj_on unat {i :: u64. data_page i \<and> P i}" by (simp add: inj_on_def word_unat_eq_iff)
qed

lemma free_pages_fresh:
  assumes "pg_pages p i = None" "data_page i" "pg_pages q = (pg_pages p)(i \<mapsto> b)"
  shows "free_pages q = free_pages p - 1"
proof -
  have "{j. data_page j \<and> pg_pages q j = None} = {j. data_page j \<and> pg_pages p j = None} - {i}"
    using assms by auto
  then show ?thesis using assms finite_data_pages by (simp add: free_pages_def)
qed

lemma free_pages_write:
  "pg_pages p i \<noteq> None \<Longrightarrow> pg_pages q = (pg_pages p)(i \<mapsto> b) \<Longrightarrow> free_pages q = free_pages p"
  unfolding free_pages_def by (rule arg_cong [where f = card]) auto

lemma alloc_free:
  assumes inv: "pager_inv p" and free: "0 < free_pages p"
  obtains i p1 b where "allocate_page p = Inr (i, p1)" "pager_inv p1" "length b = PAGE_SIZE"
    "pg_pages p1 = (pg_pages p)(i \<mapsto> b)" "pg_pages p i = None" "i \<noteq> 0" "free_pages p1 = free_pages p - 1"
proof -
  have "{i. data_page i \<and> pg_pages p i = None} \<noteq> {}"
  proof
    assume "{i. data_page i \<and> pg_pages p i = None} = {}"
    then have "free_pages p = 0" by (simp only: free_pages_def card.empty)
    with free show False by simp
  qed
  then obtain j where j: "data_page j" "pg_pages p j = None" by blast
  obtain i p1 where a: "allocate_page p = Inr (i, p1)" by (rule allocate_page_succeeds [OF inv j])
  from pgs.alloc_law [OF inv a] obtain b where b: "pager_inv p1" "pg_pages p i = None"
    "length b = PAGE_SIZE" "pg_pages p1 = (pg_pages p)(i \<mapsto> b)" by blast
  have "pg_pages p1 i \<noteq> None" by (simp add: b(4))
  then have "data_page i" by (simp add: pg_pages_def split: if_splits)
  from free_pages_fresh [OF b(2) this b(4)] pgs.alloc_nonzero [OF inv a] show thesis
    by (intro that [OF a b(1,3,4,2)])
qed

lemma alloc_none:
  assumes inv: "pager_inv p" and free: "free_pages p = 0"
  shows "\<exists>e. allocate_page p = Inl e"
proof (rule ccontr)
  assume "\<nexists>e. allocate_page p = Inl e"
  then obtain i p1 where a: "allocate_page p = Inr (i, p1)" by (cases "allocate_page p") auto
  from pgs.alloc_law [OF inv a] obtain b where b: "pg_pages p i = None" "pg_pages p1 = (pg_pages p)(i \<mapsto> b)"
    by blast
  have "pg_pages p1 i \<noteq> None" by (simp add: b(2))
  then have "data_page i" by (simp add: pg_pages_def split: if_splits)
  then have "i \<in> {i. data_page i \<and> pg_pages p i = None}" using b(1) by simp
  then show False using free finite_data_pages by (auto simp: free_pages_def)
qed

lemma alloc_write_free:
  assumes inv: "pager_inv p" and free: "0 < free_pages p" and b: "length b = PAGE_SIZE"
  obtains i p1 p2 where "allocate_page p = Inr (i, p1)" "write_page i b p1 = Inr p2" "pager_inv p2"
    "pg_pages p2 = (pg_pages p)(i \<mapsto> b)" "pg_pages p i = None" "free_pages p2 = free_pages p - 1"
proof (rule alloc_free [OF inv free])
  fix i p1 c
  assume a: "allocate_page p = Inr (i, p1)" "pager_inv p1" "pg_pages p1 = (pg_pages p)(i \<mapsto> c)"
    "pg_pages p i = None" "free_pages p1 = free_pages p - 1"
  from pgs.write_law [OF a(2), of i c b] b obtain p2 where
    w: "write_page i b p1 = Inr p2" "pager_inv p2" "pg_pages p2 = (pg_pages p1)(i \<mapsto> b)"
    by (auto simp: a(3))
  have "free_pages p2 = free_pages p1" by (rule free_pages_write [OF _ w(3)]) (simp add: a(3))
  with a w show thesis by (intro that [OF a(1) w(1,2)]) simp_all
qed

lemma free_pages_new:
  assumes "pg_pages p = (\<lambda>_. None)"
  shows "free_pages p = 65534"
proof -
  have "unat ` {i :: u64. data_page i} = {2..<65536}"
  proof
    show "{2..<65536} \<subseteq> unat ` {i :: u64. data_page i}"
    proof
      fix n assume "n \<in> {2..<65536::nat}"
      then have "unat (of_nat n :: u64) = n" "data_page (of_nat n)"
        by (simp_all add: data_page_def unat_word_of_nat_less)
      then show "n \<in> unat ` {i :: u64. data_page i}" by force
    qed
  qed (auto simp: data_page_def)
  moreover have "inj_on unat {i :: u64. data_page i}" by (simp add: inj_on_def word_unat_eq_iff)
  ultimately have "card {i :: u64. data_page i} = card {2..<65536::nat}" by (metis card_image)
  then show ?thesis by (simp add: free_pages_def assms)
qed

section \<open>Properties\<close>

text \<open>
  C8. In every state that the public operations reach from a new file, the in-memory metadata
  and bitmap are consistent and equal to what the first two pages of the file hold, every
  allocated page lies inside the file, and no operation can panic.
\<close>

theorem pager_reachable_ok:
  assumes "pager_reachable p"
  shows "pager_inv p \<and> \<not> is_panic (allocate_page p) \<and> \<not> is_panic (ensure_allocated i p) \<and>
    \<not> is_panic (free_page i p) \<and> \<not> is_panic (read_page p i) \<and> \<not> is_panic (write_page i b p)"
proof -
  note inv = reachable_inv [OF assms]
  have "\<not> is_panic (free_page i p)"
    using free_page_ok [OF inv, of i] unallocated_access(1) [OF inv, of i]
    by (cases "pg_pages p i") auto
  moreover have "\<not> is_panic (read_page p i)"
    by (cases "pg_pages p i") (simp_all add: read_page_iff [OF inv])
  moreover have "\<not> is_panic (write_page i b p)"
    unfolding write_page_def page_access [OF inv] by simp
  ultimately show ?thesis
    using inv allocate_page_no_panic [OF inv] ensure_allocated_no_panic [OF inv] by blast
qed

theorem pager_reachable_ok_witness:
  "\<exists>p. pager_open None = Inr p \<and> pager_reachable p \<and> pager_inv p \<and> \<not> is_panic (read_page p 7)"
proof -
  obtain p where p: "pager_open None = Inr p" using pager_create by blast
  then have "pager_reachable p" by (rule reach_create)
  with pager_reachable_ok [OF this, of 7] p show ?thesis by blast
qed

text \<open>
  C22. \<open>allocate_page\<close> returns the least data page that is not allocated and changes nothing
  else; it fails only when all 65534 data pages are allocated, and then with
  \<open>PageIdOutOfRange(65536)\<close>.
\<close>

theorem allocate_page_spec:
  assumes inv: "pager_inv p"
  shows "case allocate_page p of
      Inr (i, p') \<Rightarrow> data_page i \<and> pg_pages p i = None \<and>
        (\<forall>j. data_page j \<and> j < i \<longrightarrow> pg_pages p j \<noteq> None) \<and> pager_inv p' \<and>
        (\<exists>b. length b = PAGE_SIZE \<and> pg_pages p' = (pg_pages p)(i \<mapsto> b))
    | Inl e \<Rightarrow> e = PageIdOutOfRange 65536 \<and> (\<forall>j. data_page j \<longrightarrow> pg_pages p j \<noteq> None)"
proof (cases "unat (least_free p) < 65536")
  case True
  note core = pager_invD [OF inv]
  have d: "data_page (least_free p)" using True least_free_props(1) [OF core] by (simp add: data_page_def)
  obtain p' where "ensure_allocated (least_free p) p = Inr p'" using ensure_allocated_ok [OF core d] by blast
  with True have a: "allocate_page p = Inr (least_free p, p')" by (simp add: allocate_page_least [OF core])
  have "\<forall>j. data_page j \<and> j < least_free p \<longrightarrow> pg_pages p j \<noteq> None"
    using least_free_props(4) [OF core] by (auto simp: pg_pages_def data_page_def word_less_nat_alt)
  with allocate_page_law [OF inv a] d show ?thesis by (simp add: a)
next
  case False
  note core = pager_invD [OF inv]
  have "\<forall>j. data_page j \<longrightarrow> pg_pages p j \<noteq> None"
    using least_free_props(4) [OF core] False by (auto simp: pg_pages_def data_page_def)
  with False show ?thesis by (simp add: allocate_page_least [OF core])
qed

theorem allocate_page_spec_witness:
  "\<exists>p. pager_open None = Inr p \<and> pager_inv p \<and>
     (\<exists>i p'. allocate_page p = Inr (i, p') \<and> i = 2 \<and> pager_inv p')"
proof -
  obtain p where p: "pager_open None = Inr p" "pager_inv p" "pg_pages p = (\<lambda>_. None)"
    using pager_create by blast
  have two: "data_page 2" by (simp add: data_page_def)
  note spec = allocate_page_spec [OF p(2)]
  with p(3) two obtain i p' where a: "allocate_page p = Inr (i, p')"
    by (cases "allocate_page p") auto
  with spec p(3) two have "\<not> 2 < i" "data_page i" "pager_inv p'" by auto
  moreover from this have "i = 2" by (auto simp: data_page_def word_less_nat_alt word_unat_eq_iff)
  ultimately show ?thesis using p a by blast
qed

text \<open>
  A page reads back what was last written to it, and a write, an allocation or a release
  of one page leaves every other page as it was.
\<close>

lemma page_write_read:
  assumes inv: "pager_inv p" and pg: "pg_pages p i = Some old" and len: "length b = PAGE_SIZE"
  shows "\<exists>p' p''. write_page i b p = Inr p' \<and> read_page p' i = Inr b \<and>
    (\<forall>j. j \<noteq> i \<longrightarrow> read_page p' j = read_page p j) \<and>
    free_page i p' = Inr p'' \<and> read_page p'' i = Inl (PageNotAllocated i) \<and>
    (\<forall>j. j \<noteq> i \<longrightarrow> read_page p'' j = read_page p j)"
proof -
  obtain p' where p': "write_page i b p = Inr p'" "pager_inv p'" "pg_pages p' = (pg_pages p)(i \<mapsto> b)"
    using write_page_ok [OF inv pg len] by blast
  obtain p'' where p'': "free_page i p' = Inr p''" "pager_inv p''" "pg_pages p'' = (pg_pages p')(i := None)"
    using free_page_ok [OF p'(2), of i b] p'(3) by auto
  have "data_page i" using pg by (simp add: pg_pages_def split: if_splits)
  with p' p'' show ?thesis by (simp add: read_page_iff [OF inv] read_page_iff)
qed

text \<open>
  C23. Closing and reopening loses nothing. In every state that the public operations reach from a
  new file, opening what they left in the file succeeds and gives a pager with the same file,
  bitmap and pages, and the same metadata except that a node counter of zero is repaired from the
  length of the node table.
\<close>

theorem pager_reopen_same:
  assumes "pager_reachable p"
  shows "\<exists>q. pager_open (Some (pg_file p)) = Inr q \<and> pg_file q = pg_file p \<and> pg_bitmap q = pg_bitmap p \<and>
    pg_meta q = meta_normal (pg_meta p) \<and> (\<forall>i. read_page q i = read_page p i)"
proof -
  note inv = reachable_inv [OF assms]
  let ?q = "p\<lparr>pg_meta := meta_normal (pg_meta p)\<rparr>"
  have "pg_pages ?q = pg_pages p" by (simp add: fun_eq_iff pg_pages_def)
  then have "\<forall>i. read_page ?q i = read_page p i" by (simp add: read_page_iff [OF inv] read_page_iff [OF reopen_inv [OF inv]])
  with pager_reopen [OF inv] show ?thesis by simp
qed

theorem pager_reopen_same_witness:
  "\<exists>p p' q. pager_open None = Inr p \<and> p' = set_i2e_len 3 p \<and> mt_next_internal_id (pg_meta p') = 0 \<and>
     pager_open (Some (pg_file p')) = Inr q \<and> mt_next_internal_id (pg_meta q) = 3 \<and> pg_bitmap q = pg_bitmap p'"
proof -
  obtain p0 where p0: "pager_open None = Inr p0" "pager_inv p0" "pg_meta p0 = meta_new" using pager_create by blast
  let ?p = "set_i2e_len 3 p0"
  have m: "pg_meta ?p = meta_new\<lparr>mt_i2e_len := 3\<rparr>" by (simp add: setters_meta(2) [OF p0(2)] p0(3))
  have "pager_reachable ?p" by (rule reach_step [OF reach_create [OF p0(1)] step_i2e_len])
  from pager_reopen_same [OF this] p0(1) m show ?thesis by (auto simp: meta_normal_def meta_new_def)
qed

text \<open>
  C24. The vacuum copy of a set of allocated pages is a well-formed database file whose pages
  are exactly those pages, at their old numbers and with their old contents.
\<close>

theorem vacuum_copy_spec:
  assumes inv: "pager_inv p" and R: "\<forall>i \<in> set R. unat i < 2 \<or> pg_pages p i \<noteq> None"
  shows "\<exists>st out q. write_vacuum_copy p None R = Inr (st, out) \<and> pager_open (Some out) = Inr q \<and>
    pager_inv q \<and> (\<forall>i. read_page q i = (if i \<in> set R then read_page p i else
       Inl (if data_page i then PageNotAllocated i else PageIdOutOfRange i)))"
proof -
  obtain st q where q: "write_vacuum_copy p None R = Inr (st, pg_file q)" "pager_inv q"
    "pg_pages q = (\<lambda>i. if i \<in> set R then pg_pages p i else None)"
    using write_vacuum_copy_ok [OF inv R] by blast
  let ?q = "q\<lparr>pg_meta := meta_normal (pg_meta q)\<rparr>"
  have "pg_pages ?q = pg_pages q" by (simp add: fun_eq_iff pg_pages_def)
  with q(3) have "read_page ?q i = (if i \<in> set R then read_page p i else
       Inl (if data_page i then PageNotAllocated i else PageIdOutOfRange i))" for i
    by (simp add: read_page_iff [OF reopen_inv [OF q(2)]] read_page_iff [OF inv])
  with q(1) pager_reopen [OF q(2)] reopen_inv [OF q(2)] show ?thesis by blast
qed

theorem vacuum_copy_spec_witness:
  "\<exists>p. pager_inv p \<and> (\<forall>i \<in> set [2]. unat i < 2 \<or> pg_pages p i \<noteq> None) \<and>
     (\<exists>st out q. write_vacuum_copy p None [2] = Inr (st, out) \<and> pager_open (Some out) = Inr q \<and>
        read_page q 2 = read_page p 2 \<and> read_page q 3 = Inl (PageNotAllocated 3))"
proof -
  obtain p0 where "pager_inv p0" using pager_create by blast
  moreover have "data_page 2" "data_page 3" by (simp_all add: data_page_def)
  ultimately obtain p old where p: "pager_inv p" "pg_pages p 2 = Some old" "data_page 3"
    using ensure_allocated_ok [of p0 2] pager_invD by metis
  then have R: "\<forall>i \<in> set [2]. unat i < 2 \<or> pg_pages p i \<noteq> None" by simp
  from vacuum_copy_spec [OF p(1) R] R p(1,3) show ?thesis by fastforce
qed

end
