(* ===== verification/WalRecord.thy ===== *)
theory WalRecord
  imports PropertyValue Pager
begin

text \<open>
  The records of the write-ahead log and their body format (nervusdb-storage/src/wal.rs): one type
  byte and a payload of little-endian fields, lengths and UTF-8 strings.
\<close>

section \<open>Definitions\<close>

record segment_pointer =
  sp_id :: u64
  sp_meta_page_id :: u64

datatype wal_record =
    BeginTx u64
  | CommitTx u64
  | PageWrite u64 bytes
  | PageFree u64
  | CreateLabel rstring u32
  | CreateNode u64 u32 u32
  | AddNodeLabel u32 u32
  | RemoveNodeLabel u32 u32
  | CreateEdge u32 u32 u32
  | TombstoneNode u32
  | TombstoneEdge u32 u32 u32
  | ManifestSwitch u64 "segment_pointer list" u64 u64
  | Checkpoint u64 u64 u64 u64
  | SetNodeProperty u32 rstring property_value
  | SetEdgeProperty u32 u32 u32 rstring property_value
  | RemoveNodeProperty u32 rstring
  | RemoveEdgeProperty u32 u32 u32 rstring

fun record_type :: "wal_record \<Rightarrow> u8" where
  "record_type (BeginTx _) = 1"
| "record_type (CommitTx _) = 2"
| "record_type (PageWrite _ _) = 3"
| "record_type (PageFree _) = 4"
| "record_type (CreateLabel _ _) = 15"
| "record_type (CreateNode _ _ _) = 5"
| "record_type (AddNodeLabel _ _) = 16"
| "record_type (RemoveNodeLabel _ _) = 17"
| "record_type (CreateEdge _ _ _) = 6"
| "record_type (TombstoneNode _) = 7"
| "record_type (TombstoneEdge _ _ _) = 8"
| "record_type (ManifestSwitch _ _ _ _) = 9"
| "record_type (Checkpoint _ _ _ _) = 10"
| "record_type (SetNodeProperty _ _ _) = 11"
| "record_type (SetEdgeProperty _ _ _ _ _) = 12"
| "record_type (RemoveNodeProperty _ _) = 13"
| "record_type (RemoveEdgeProperty _ _ _ _) = 14"

text \<open>\<open>u32::try_from(len).map_err(e)\<close>\<close>

definition try_u32 :: "error \<Rightarrow> nat \<Rightarrow> u32 result" where
  "try_u32 e n = (if n < 2 ^ 32 then Inr (of_nat n) else Inl e)"

definition encode_segment :: "segment_pointer \<Rightarrow> bytes" where
  "encode_segment s = to_le (sp_id s) @ to_le (sp_meta_page_id s)"

definition encode_key :: "rstring \<Rightarrow> bytes result" where
  "encode_key key = rbind (try_u32 (WalRecordTooLarge (- 1)) (length key)) (\<lambda>key_len.
     Inr (to_le key_len @ key))"

fun encode_payload :: "wal_record \<Rightarrow> bytes result" where
  "encode_payload (BeginTx txid) = Inr (to_le txid)"
| "encode_payload (CommitTx txid) = Inr (to_le txid)"
| "encode_payload (PageWrite page_id page) = Inr (to_le page_id @ page)"
| "encode_payload (PageFree page_id) = Inr (to_le page_id)"
| "encode_payload (CreateLabel name label_id) =
     rbind (encode_key name) (\<lambda>k. Inr (to_le label_id @ k))"
| "encode_payload (CreateNode external_id label_id internal_id) =
     Inr (to_le external_id @ to_le label_id @ to_le internal_id)"
| "encode_payload (AddNodeLabel node label_id) = Inr (to_le node @ to_le label_id)"
| "encode_payload (RemoveNodeLabel node label_id) = Inr (to_le node @ to_le label_id)"
| "encode_payload (CreateEdge src rel dst) = Inr (to_le src @ to_le rel @ to_le dst)"
| "encode_payload (TombstoneEdge src rel dst) = Inr (to_le src @ to_le rel @ to_le dst)"
| "encode_payload (TombstoneNode node) = Inr (to_le node)"
| "encode_payload (ManifestSwitch epoch segments properties_root stats_root) =
     rbind (try_u32 (WalProtocol ''too many segments'') (length segments)) (\<lambda>count.
     Inr (to_le epoch @ to_le count @ concat (map encode_segment segments) @
          to_le properties_root @ to_le stats_root))"
| "encode_payload (Checkpoint up_to_txid epoch properties_root stats_root) =
     Inr (to_le up_to_txid @ to_le epoch @ to_le properties_root @ to_le stats_root)"
| "encode_payload (SetNodeProperty node key v) =
     rbind (encode_key key) (\<lambda>k. rbind (pv_encode v) (\<lambda>value_bytes.
     Inr (to_le node @ k @ value_bytes)))"
| "encode_payload (SetEdgeProperty src rel dst key v) =
     rbind (encode_key key) (\<lambda>k. rbind (pv_encode v) (\<lambda>value_bytes.
     Inr (to_le src @ to_le rel @ to_le dst @ k @ value_bytes)))"
| "encode_payload (RemoveNodeProperty node key) =
     rbind (encode_key key) (\<lambda>k. Inr (to_le node @ k))"
| "encode_payload (RemoveEdgeProperty src rel dst key) =
     rbind (encode_key key) (\<lambda>k. Inr (to_le src @ to_le rel @ to_le dst @ k))"

definition encode_body :: "wal_record \<Rightarrow> bytes result" where
  "encode_body r = rbind (encode_payload r) (\<lambda>payload. Inr (record_type r # payload))"

definition read_u64 :: "bytes \<Rightarrow> u64 result" where
  "read_u64 payload = (if length payload \<noteq> 8 then Inl (WalProtocol ''invalid u64 payload length'')
     else Inr (from_le payload))"

text \<open>The segment list of a \<open>ManifestSwitch\<close>: every read of a slice is checked by Rust.\<close>

fun read_segments :: "bytes \<Rightarrow> nat \<Rightarrow> nat \<Rightarrow> segment_pointer list result" where
  "read_segments payload 0 offset = Inr []"
| "read_segments payload (Suc n) offset =
     rbind (subslice_checked offset 8 payload) (\<lambda>id_bytes.
     rbind (subslice_checked (offset + 8) 8 payload) (\<lambda>meta_bytes.
     rbind (read_segments payload n (offset + 16)) (\<lambda>rest.
     Inr (\<lparr>sp_id = from_le id_bytes, sp_meta_page_id = from_le meta_bytes\<rparr> # rest))))"

definition decode_manifest_switch :: "bytes \<Rightarrow> wal_record result" where
  "decode_manifest_switch payload =
    (if length payload < 8 + 4 + 8 + 8 then Inl (WalProtocol ''invalid ManifestSwitch payload length'')
     else
       let epoch = from_le (subslice 0 8 payload);
           count = unat (from_le (subslice 8 4 payload) :: u32);
           segments_end = 12 + count * 16
       in if length payload < segments_end + 8
          then Inl (WalProtocol ''invalid ManifestSwitch payload length'')
          else
            rbind (read_segments payload count 12) (\<lambda>segments.
            rbind (subslice_checked segments_end 8 payload) (\<lambda>props.
            rbind (subslice_checked (segments_end + 8) 8 payload) (\<lambda>stats.
            Inr (ManifestSwitch epoch segments (from_le props) (from_le stats))))))"

text \<open>The string after \<open>at\<close> bytes: its length at \<open>at - 4\<close>, and how the total length must relate.\<close>

definition decode_key ::
  "(nat \<Rightarrow> nat \<Rightarrow> bool) \<Rightarrow> string \<Rightarrow> string \<Rightarrow> nat \<Rightarrow> bytes \<Rightarrow> (rstring \<times> bytes) result" where
  "decode_key fits len_msg utf8_msg at payload =
    (if length payload < at then Inl (WalProtocol len_msg)
     else
       let key_len = unat (from_le (subslice (at - 4) 4 payload) :: u32)
       in if \<not> fits (at + key_len) (length payload) then Inl (WalProtocol len_msg)
          else rbind (from_utf8 (WalProtocol utf8_msg) (subslice at key_len payload)) (\<lambda>key.
               Inr (key, drop (at + key_len) payload)))"

definition decode_value :: "bytes \<Rightarrow> property_value result" where
  "decode_value bs =
     map_err (\<lambda>e. case e of DecodePanic \<Rightarrow> Panic ''slice index out of range''
       | _ \<Rightarrow> WalProtocol ''property decode error'') (pv_decode bs)"

definition decode_payload :: "u8 \<Rightarrow> bytes \<Rightarrow> wal_record result" where
  "decode_payload ty payload =
    (let u32_at = (\<lambda>i. from_le (subslice i 4 payload) :: u32);
         u64_at = (\<lambda>i. from_le (subslice i 8 payload) :: u64);
         n = length payload
     in if ty = 1 then rbind (read_u64 payload) (\<lambda>txid. Inr (BeginTx txid))
     else if ty = 2 then rbind (read_u64 payload) (\<lambda>txid. Inr (CommitTx txid))
     else if ty = 3 then
       if n \<noteq> 8 + PAGE_SIZE then Inl (WalProtocol ''invalid PageWrite payload length'')
       else Inr (PageWrite (u64_at 0) (drop 8 payload))
     else if ty = 4 then rbind (read_u64 payload) (\<lambda>page_id. Inr (PageFree page_id))
     else if ty = 15 then
       rbind (decode_key (\<le>) ''invalid CreateLabel payload length'' ''invalid UTF-8 in label name'' 8 payload)
         (\<lambda>(name, _). Inr (CreateLabel name (u32_at 0)))
     else if ty = 5 then
       if n \<noteq> 8 + 4 + 4 then Inl (WalProtocol ''invalid CreateNode payload length'')
       else Inr (CreateNode (u64_at 0) (u32_at 8) (u32_at 12))
     else if ty = 16 then
       if n \<noteq> 8 then Inl (WalProtocol ''invalid AddNodeLabel payload length'')
       else Inr (AddNodeLabel (u32_at 0) (u32_at 4))
     else if ty = 17 then
       if n \<noteq> 8 then Inl (WalProtocol ''invalid RemoveNodeLabel payload length'')
       else Inr (RemoveNodeLabel (u32_at 0) (u32_at 4))
     else if ty = 6 then
       if n \<noteq> 12 then Inl (WalProtocol ''invalid CreateEdge payload length'')
       else Inr (CreateEdge (u32_at 0) (u32_at 4) (u32_at 8))
     else if ty = 7 then
       if n \<noteq> 4 then Inl (WalProtocol ''invalid TombstoneNode payload length'')
       else Inr (TombstoneNode (u32_at 0))
     else if ty = 8 then
       if n \<noteq> 12 then Inl (WalProtocol ''invalid TombstoneEdge payload length'')
       else Inr (TombstoneEdge (u32_at 0) (u32_at 4) (u32_at 8))
     else if ty = 9 then decode_manifest_switch payload
     else if ty = 10 then
       if n \<noteq> 32 then Inl (WalProtocol ''invalid Checkpoint payload length'')
       else Inr (Checkpoint (u64_at 0) (u64_at 8) (u64_at 16) (u64_at 24))
     else if ty = 11 then
       rbind (decode_key (\<le>) ''invalid SetNodeProperty payload length'' ''invalid UTF-8 in key'' 8 payload)
         (\<lambda>(key, rest). rbind (decode_value rest) (\<lambda>v. Inr (SetNodeProperty (u32_at 0) key v)))
     else if ty = 12 then
       rbind (decode_key (\<le>) ''invalid SetEdgeProperty payload length'' ''invalid UTF-8 in key'' 16 payload)
         (\<lambda>(key, rest). rbind (decode_value rest) (\<lambda>v.
           Inr (SetEdgeProperty (u32_at 0) (u32_at 4) (u32_at 8) key v)))
     else if ty = 13 then
       rbind (decode_key (=) ''invalid RemoveNodeProperty payload length'' ''invalid UTF-8 in key'' 8 payload)
         (\<lambda>(key, _). Inr (RemoveNodeProperty (u32_at 0) key))
     else if ty = 14 then
       rbind (decode_key (=) ''invalid RemoveEdgeProperty payload length'' ''invalid UTF-8 in key'' 16 payload)
         (\<lambda>(key, _). Inr (RemoveEdgeProperty (u32_at 0) (u32_at 4) (u32_at 8) key))
     else Inl (WalProtocol ''unknown record type''))"

fun decode_body :: "bytes \<Rightarrow> wal_record result" where
  "decode_body [] = Inl (WalProtocol ''empty record body'')"
| "decode_body (ty # payload) = decode_payload ty payload"

section \<open>Round trip\<close>

text \<open>
  What the Rust types guarantee of a record: pages are whole pages, strings are UTF-8 and maps
  sorted; and what the length fields can hold.
\<close>

definition key_wf :: "rstring \<Rightarrow> bool" where
  "key_wf k \<longleftrightarrow> utf8_valid k \<and> length k < 2 ^ 32"

fun record_wf :: "wal_record \<Rightarrow> bool" where
  "record_wf (PageWrite _ page) \<longleftrightarrow> length page = PAGE_SIZE"
| "record_wf (CreateLabel name _) \<longleftrightarrow> key_wf name"
| "record_wf (ManifestSwitch _ segments _ _) \<longleftrightarrow> length segments < 2 ^ 32"
| "record_wf (SetNodeProperty _ key v) \<longleftrightarrow> key_wf key \<and> pv_wf v"
| "record_wf (SetEdgeProperty _ _ _ key v) \<longleftrightarrow> key_wf key \<and> pv_wf v"
| "record_wf (RemoveNodeProperty _ key) \<longleftrightarrow> key_wf key"
| "record_wf (RemoveEdgeProperty _ _ _ key) \<longleftrightarrow> key_wf key"
| "record_wf _ \<longleftrightarrow> True"

lemma encode_key_ok: "key_wf k \<Longrightarrow> encode_key k = Inr (to_le (of_nat (length k) :: u32) @ k)"
  by (simp add: encode_key_def try_u32_def key_wf_def)

lemma decode_key_ok:
  assumes k: "key_wf k" and h: "length h + 4 = at"
    and fits: "fits (at + length k) (at + length k + length rest)"
  shows "decode_key fits m u at (h @ to_le (of_nat (length k) :: u32) @ k @ rest) = Inr (k, rest)"
proof -
  let ?n = "to_le (of_nat (length k) :: u32)"
  have len: "subslice (at - 4) 4 (h @ ?n @ k @ rest) = ?n"
    using h by (simp add: subslice_append_right)
  have key: "subslice at (length k) (h @ ?n @ k @ rest) = k"
    using h by (simp add: subslice_append_right)
  have tot: "length (h @ ?n @ k @ rest) = at + length k + length rest" using h by simp
  show ?thesis
    unfolding decode_key_def len Let_def tot using k h fits key by (simp add: key_wf_def)
qed

interpretation segp: fixed_codec encode_segment
  "\<lambda>bs. \<lparr>sp_id = from_le (subslice 0 8 bs), sp_meta_page_id = from_le (subslice 8 8 bs)\<rparr>" 16
  by unfold_locales (simp_all add: encode_segment_def subslice_append_right)

lemma read_segments_ok:
  "length h = offset \<Longrightarrow>
   read_segments (h @ concat (map encode_segment segs) @ rest) (length segs) offset = Inr segs"
proof (induction segs arbitrary: h offset)
  case (Cons g segs)
  let ?r = "concat (map encode_segment segs) @ rest"
  have "read_segments ((h @ encode_segment g) @ ?r) (length segs) (offset + 16) = Inr segs"
    using Cons.prems by (intro Cons.IH) (simp add: segp.length_enc)
  moreover have "subslice offset 8 (h @ encode_segment g @ ?r) = to_le (sp_id g)"
    "subslice (offset + 8) 8 (h @ encode_segment g @ ?r) = to_le (sp_meta_page_id g)"
    using Cons.prems by (simp_all add: encode_segment_def subslice_append_right)
  ultimately show ?case
    using Cons.prems by (simp add: subslice_checked_def segp.length_enc)
qed simp

lemma decode_manifest_switch_ok:
  assumes "length segs < 2 ^ 32"
  shows "decode_manifest_switch (to_le ep @ to_le (of_nat (length segs) :: u32) @
     concat (map encode_segment segs) @ to_le pr @ to_le st) = Inr (ManifestSwitch ep segs pr st)"
proof -
  let ?c = "to_le (of_nat (length segs) :: u32)" and ?s = "concat (map encode_segment segs)"
  let ?p = "to_le ep @ ?c @ ?s @ to_le pr @ to_le st"
  have l: "length ?s = 16 * length segs" by (rule segp.length_concat_enc)
  have "read_segments ((to_le ep @ ?c) @ ?s @ (to_le pr @ to_le st)) (length segs) 12 = Inr segs"
    by (rule read_segments_ok) simp
  then have r: "read_segments ?p (length segs) 12 = Inr segs" by simp
  have f: "subslice 0 8 ?p = to_le ep" "subslice 8 4 ?p = ?c"
    "subslice (12 + length segs * 16) 8 ?p = to_le pr"
    "subslice (20 + length segs * 16) 8 ?p = to_le st"
    using l by (simp_all add: subslice_append_right)
  show ?thesis
    using assms l unfolding decode_manifest_switch_def f Let_def
    by (simp add: r f subslice_checked_def)
qed

lemma decode_value_ok:
  assumes "pv_wf v"
  obtains bs where "pv_encode v = Inr bs" "decode_value bs = Inr v"
  using pv_encode_parses(1) [OF assms] that
  by (auto simp: pv_parses_def pv_decode_def decode_value_def) (metis append_Nil2 rbind_simps(2) case_prod_conv)

lemma decode_encode_body:
  assumes "record_wf r"
  shows "\<exists>body. encode_body r = Inr body \<and> decode_body body = Inr r"
proof -
  have key: "decode_key fits m u at (h @ to_le (of_nat (length k) :: u32) @ k) = Inr (k, [])"
    if "key_wf k" "length h + 4 = at" "fits (at + length k) (at + length k)" for fits m u at h k
    using decode_key_ok [of k h at fits "[]" m u] that by simp
  show ?thesis
  proof (cases r)
    case (CreateLabel name l)
    then show ?thesis
      using assms key [of name "to_le l" 8 "(\<le>)"]
      by (simp add: encode_body_def encode_key_ok decode_payload_def)
  next
    case (SetNodeProperty n k v)
    with assms have wf: "key_wf k" "pv_wf v" by simp_all
    obtain bs where v: "pv_encode v = Inr bs" "decode_value bs = Inr v" using decode_value_ok [OF wf(2)] .
    show ?thesis
      using SetNodeProperty v decode_key_ok [OF wf(1), of "to_le n" 8 "(\<le>)" bs]
      by (simp add: encode_body_def encode_key_ok [OF wf(1)] decode_payload_def)
  next
    case (SetEdgeProperty s r' d k v)
    with assms have wf: "key_wf k" "pv_wf v" by simp_all
    obtain bs where v: "pv_encode v = Inr bs" "decode_value bs = Inr v" using decode_value_ok [OF wf(2)] .
    show ?thesis
      using SetEdgeProperty v decode_key_ok [OF wf(1), of "to_le s @ to_le r' @ to_le d" 16 "(\<le>)" bs]
      by (simp add: encode_body_def encode_key_ok [OF wf(1)] decode_payload_def subslice_append_right)
  next
    case (RemoveNodeProperty n k)
    then show ?thesis
      using assms key [of k "to_le n" 8 "(=)"]
      by (simp add: encode_body_def encode_key_ok decode_payload_def)
  next
    case (RemoveEdgeProperty s r' d k)
    then show ?thesis
      using assms key [of k "to_le s @ to_le r' @ to_le d" 16 "(=)"]
      by (simp add: encode_body_def encode_key_ok decode_payload_def subslice_append_right)
  next
    case (ManifestSwitch ep segs pr st)
    then show ?thesis
      using assms decode_manifest_switch_ok [of segs ep pr st]
      by (simp add: encode_body_def try_u32_def decode_payload_def)
  qed (use assms in \<open>simp_all add: encode_body_def decode_payload_def read_u64_def
        subslice_append_right\<close>)
qed

section \<open>Malformed bodies\<close>

lemma is_panic_rbind:
  "is_panic (rbind m f) \<longleftrightarrow> is_panic m \<or> (\<exists>a. m = Inr a \<and> is_panic (f a))"
  by (cases m) (auto simp: is_panic_Inl)

lemma read_segments_no_panic:
  "offset + 16 * n \<le> length payload \<Longrightarrow> \<exists>segs. read_segments payload n offset = Inr segs"
proof (induction n arbitrary: offset)
  case (Suc n)
  then have "offset + 16 + 16 * n \<le> length payload" by simp
  from Suc.IH [OF this] obtain segs where "read_segments payload n (offset + 16) = Inr segs" by blast
  with Suc.prems show ?case by (simp add: subslice_checked_def)
qed simp

definition manifest_end :: "bytes \<Rightarrow> nat" where
  "manifest_end payload = 12 + unat (from_le (subslice 8 4 payload) :: u32) * 16"

lemma decode_manifest_panic:
  "is_panic (decode_manifest_switch payload) \<longleftrightarrow>
     28 \<le> length payload \<and> manifest_end payload + 8 \<le> length payload \<and>
     length payload < manifest_end payload + 16"
proof (cases "28 \<le> length payload \<and> manifest_end payload + 8 \<le> length payload")
  case True
  let ?e = "manifest_end payload"
  let ?n = "unat (from_le (subslice 8 4 payload) :: u32)"
  obtain segs where "read_segments payload ?n 12 = Inr segs"
    using read_segments_no_panic [of 12 ?n payload] True by (auto simp: manifest_end_def)
  moreover have "\<not> length payload < 12 + ?n * 16 + 8" "12 + ?n * 16 = ?e" using True by (auto simp: manifest_end_def)
  ultimately show ?thesis
    using True unfolding decode_manifest_switch_def Let_def
    by (simp add: subslice_checked_def)
next
  case False
  then show ?thesis by (auto simp: decode_manifest_switch_def Let_def manifest_end_def)
qed

lemma decode_key_no_panic: "\<not> is_panic (decode_key fits m u at payload)"
proof -
  have "\<not> is_panic (from_utf8 (WalProtocol x) bs)" for x bs by (simp add: from_utf8_def)
  then show ?thesis by (simp add: decode_key_def Let_def)
qed

lemma decode_value_no_panic: "\<not> is_panic (decode_value bs)"
  using pv_decode_ok(1) [of bs]
  by (auto simp: decode_value_def map_err_def pv_decode_def rec_ok_def rbind_def is_panic_Inl
      split: sum.splits decode_error.splits)

lemma read_u64_no_panic: "\<not> is_panic (read_u64 payload)"
  by (simp add: read_u64_def)

lemma decode_payload_panic:
  "is_panic (decode_payload ty payload) \<longleftrightarrow> ty = 9 \<and> is_panic (decode_manifest_switch payload)"
proof (cases "ty = 9")
  case True
  then show ?thesis by (simp add: decode_payload_def Let_def)
next
  case False
  then show ?thesis
    unfolding decode_payload_def Let_def
    by (simp add: is_panic_rbind decode_key_no_panic decode_value_no_panic read_u64_no_panic
        split_beta if_distrib [of is_panic] cong: if_cong split del: if_split)
qed

section \<open>Properties\<close>

text \<open>
  C29. Every well-formed log record can be encoded, and decoding its body gives the record back.
\<close>

theorem wal_record_roundtrip:
  assumes "record_wf r"
  shows "\<exists>body. encode_body r = Inr body \<and> decode_body body = Inr r"
  using assms by (rule decode_encode_body)

theorem wal_record_roundtrip_witness:
  "record_wf (SetEdgeProperty 1 2 3 [0x6B] (PList [PInt 7, PNull])) \<and>
   (\<exists>body. encode_body (SetEdgeProperty 1 2 3 [0x6B] (PList [PInt 7, PNull])) = Inr body \<and>
      decode_body body = Inr (SetEdgeProperty 1 2 3 [0x6B] (PList [PInt 7, PNull])))"
proof -
  have wf: "record_wf (SetEdgeProperty 1 2 3 [0x6B] (PList [PInt 7, PNull]))"
    by (simp add: key_wf_def utf8_len_def byte_in_def utf8_tail_def)
  from wal_record_roundtrip [OF wf] wf show ?thesis by blast
qed

text \<open>
  C30. Decoding a body of any content never reads out of range, except in one case: a
  \<open>ManifestSwitch\<close> whose payload ends within the last eight bytes of the record. The length
  check asks for one root after the segments, the code then reads two, and the slice panics.
\<close>

theorem decode_body_panics_iff:
  "is_panic (decode_body body) \<longleftrightarrow>
     (\<exists>payload. body = 9 # payload \<and> 28 \<le> length payload \<and>
        manifest_end payload + 8 \<le> length payload \<and> length payload < manifest_end payload + 16)"
  by (cases body) (auto simp: decode_payload_panic decode_manifest_panic)

end
