(* ===== verification/FramedLog.thy ===== *)
theory FramedLog
  imports Prelude
begin

text \<open>
  An append-only log of framed records and the loop that reads it: what a reader finds in
  a log that was cut off at an arbitrary byte. \<open>frame\<close> is the bytes of a record, \<open>next\<close> the
  reader's step, \<open>loop\<close> a \<open>while let Some(..) = reader.next()?\<close> loop over a client's step.
\<close>

fun run_records ::
  "('r \<Rightarrow> nat) \<Rightarrow> (u64 \<Rightarrow> 'r \<Rightarrow> 's \<Rightarrow> 's result) \<Rightarrow> u64 \<Rightarrow> 'r list \<Rightarrow> 's \<Rightarrow> 's result" where
  "run_records width step off [] st = Inr st"
| "run_records width step off (r # rs) st =
     rbind (step off r st) (run_records width step (off + of_nat (width r)) rs)"

lemma run_records_append:
  "run_records width step off (rs @ rs') st =
     rbind (run_records width step off rs st)
       (run_records width step (off + of_nat (sum_list (map width rs))) rs')"
proof (induction rs arbitrary: off st)
  case (Cons r rs)
  then show ?case by (cases "step off r st") (simp_all add: add.assoc)
qed simp

text \<open>A prefix of a concatenation: some whole pieces and a proper part of the next one.\<close>

lemma take_concat_map:
  obtains k t where "k \<le> length xs" "take n (concat (map f xs)) = concat (map f (take k xs)) @ t"
    "t = [] \<or> (k < length xs \<and> (\<exists>u. u \<noteq> [] \<and> f (xs ! k) = t @ u))"
    "length (concat (map f (take k xs))) \<le> n"
    "k < length xs \<Longrightarrow> n < length (concat (map f (take (Suc k) xs)))"
proof -
  have "\<exists>k t. k \<le> length xs \<and> take n (concat (map f xs)) = concat (map f (take k xs)) @ t \<and>
    (t = [] \<or> (k < length xs \<and> (\<exists>u. u \<noteq> [] \<and> f (xs ! k) = t @ u))) \<and>
    length (concat (map f (take k xs))) \<le> n \<and>
    (k < length xs \<longrightarrow> n < length (concat (map f (take (Suc k) xs))))"
  proof (induction xs arbitrary: n)
    case (Cons x xs)
    show ?case
    proof (cases "length (f x) \<le> n")
      case True
      from Cons.IH [of "n - length (f x)"] obtain k t where
        "k \<le> length xs" "take (n - length (f x)) (concat (map f xs)) = concat (map f (take k xs)) @ t"
        "t = [] \<or> (k < length xs \<and> (\<exists>u. u \<noteq> [] \<and> f (xs ! k) = t @ u))"
        "length (concat (map f (take k xs))) \<le> n - length (f x)"
        "k < length xs \<longrightarrow> n - length (f x) < length (concat (map f (take (Suc k) xs)))"
        by blast
      with True show ?thesis by (intro exI [of _ "Suc k"] exI [of _ t]) auto
    next
      case False
      then have u: "\<exists>u. u \<noteq> [] \<and> f x = take n (f x) @ u" by (intro exI [of _ "drop n (f x)"]) simp
      with False show ?thesis by (intro exI [of _ 0] exI [of _ "take n (f x)"]) simp
    qed
  qed simp
  with that show thesis by blast
qed

locale framed_log =
  fixes frame :: "'r \<Rightarrow> bytes"
    and ok :: "'r \<Rightarrow> bool"
    and next_rec :: "bytes \<Rightarrow> u64 \<Rightarrow> (u64 \<times> 'r \<times> bytes \<times> u64) option result"
    and loop :: "(u64 \<Rightarrow> 'r \<Rightarrow> 's \<Rightarrow> 's result) \<Rightarrow> bytes \<Rightarrow> u64 \<Rightarrow> 's \<Rightarrow> 's result"
  assumes next_nil: "next_rec [] off = Inr None"
    and next_frame: "ok r \<Longrightarrow>
      next_rec (frame r @ rest) off = Inr (Some (off, r, rest, off + of_nat (length (frame r))))"
    and next_torn: "ok r \<Longrightarrow> frame r = t @ u \<Longrightarrow> u \<noteq> [] \<Longrightarrow> next_rec t off = Inr None"
    and loop_unfold: "loop step rest off st =
      (case next_rec rest off of
         Inl e \<Rightarrow> Inl e
       | Inr None \<Rightarrow> Inr st
       | Inr (Some (at, r, rest', off')) \<Rightarrow> rbind (step at r st) (loop step rest' off'))"
begin

lemma loop_stops: "next_rec rest off = Inr None \<Longrightarrow> loop step rest off st = Inr st"
  by (subst loop_unfold) simp

lemma loop_frames:
  "\<forall>r \<in> set rs. ok r \<Longrightarrow>
   loop step (concat (map frame rs) @ rest) off st =
     rbind (run_records (length \<circ> frame) step off rs st)
       (loop step rest (off + of_nat (length (concat (map frame rs)))))"
proof (induction rs arbitrary: off st)
  case (Cons r rs)
  then have "loop step (concat (map frame (r # rs)) @ rest) off st =
      rbind (step off r st) (loop step (concat (map frame rs) @ rest) (off + of_nat (length (frame r))))"
    by (subst loop_unfold) (simp add: next_frame)
  with Cons show ?case by (cases "step off r st") (simp_all add: add.assoc)
qed simp

lemma loop_all:
  "\<forall>r \<in> set rs. ok r \<Longrightarrow>
   loop step (concat (map frame rs)) off st = run_records (length \<circ> frame) step off rs st"
  using loop_frames [of rs step "[]" off st] loop_stops [OF next_nil]
  by (cases "run_records (length \<circ> frame) step off rs st") simp_all

text \<open>Cut off after any number of bytes, the log reads as its whole records before the cut.\<close>

lemma loop_prefix:
  assumes ok: "\<forall>r \<in> set rs. ok r"
  obtains k where "k \<le> length rs"
    "loop step (take n (concat (map frame rs))) off st = run_records (length \<circ> frame) step off (take k rs) st"
    "length (concat (map frame (take k rs))) \<le> n"
    "k < length rs \<Longrightarrow> n < length (concat (map frame (take (Suc k) rs)))"
proof (rule take_concat_map [where n = n and f = frame and xs = rs])
  fix k t assume k: "k \<le> length rs" "take n (concat (map frame rs)) = concat (map frame (take k rs)) @ t"
    "t = [] \<or> (k < length rs \<and> (\<exists>u. u \<noteq> [] \<and> frame (rs ! k) = t @ u))"
    and b: "length (concat (map frame (take k rs))) \<le> n"
    "k < length rs \<Longrightarrow> n < length (concat (map frame (take (Suc k) rs)))"
  have stop: "next_rec t off' = Inr None" for off'
    using k(3) next_nil next_torn [of "rs ! k"] ok nth_mem by blast
  have "\<forall>r \<in> set (take k rs). ok r" using ok by (meson in_set_takeD)
  from loop_frames [OF this, of step t off st] loop_stops [OF stop]
  have "loop step (take n (concat (map frame rs))) off st = run_records (length \<circ> frame) step off (take k rs) st"
    unfolding k(2) by (cases "run_records (length \<circ> frame) step off (take k rs) st") simp_all
  with that k(1) b show thesis by blast
qed

end

end
