(* ===== verification/Wal.thy ===== *)
theory Wal
  imports WalRecord FramedLog
begin

text \<open>
  The write-ahead log of nervusdb-storage/src/wal.rs: framing with length and checksum, appending,
  rewriting, and the three loops that read a log. The checksum (crate crc32fast) is a
  parameter \<open>crc\<close> of every operation, about which nothing is assumed. The log file is its
  byte list; the reader's position is the part of it that is left.
\<close>

section \<open>Definitions\<close>

definition MAX_WAL_RECORD_LEN :: u32 where "MAX_WAL_RECORD_LEN = 1024 * 1024"

record wal =
  wl_data :: bytes
  wl_open :: bool

definition wal_open :: "bytes option \<Rightarrow> wal" where
  "wal_open existing = \<lparr>wl_data = (case existing of None \<Rightarrow> [] | Some d \<Rightarrow> d), wl_open = True\<rparr>"

definition append_to :: "(bytes \<Rightarrow> u32) \<Rightarrow> wal_record \<Rightarrow> bytes \<Rightarrow> bytes result" where
  "append_to crc r file =
    rbind (encode_body r) (\<lambda>body.
    rbind (try_u32 (WalRecordTooLarge (- 1)) (length body)) (\<lambda>len.
    Inr (file @ to_le len @ to_le (crc body) @ body)))"

definition wal_append :: "(bytes \<Rightarrow> u32) \<Rightarrow> wal_record \<Rightarrow> wal \<Rightarrow> (u64 \<times> wal) result" where
  "wal_append crc r w =
    (if \<not> wl_open w then Inl (WalProtocol ''wal file is closed'')
     else rbind (append_to crc r (wl_data w)) (\<lambda>d.
       Inr (of_nat (length (wl_data w)), w\<lparr>wl_data := d\<rparr>)))"

definition wal_fsync :: "wal \<Rightarrow> unit result" where
  "wal_fsync w = (if \<not> wl_open w then Inl (WalProtocol ''wal file is closed'') else Inr ())"

fun append_all :: "(bytes \<Rightarrow> u32) \<Rightarrow> wal_record list \<Rightarrow> bytes \<Rightarrow> bytes result" where
  "append_all crc [] file = Inr file"
| "append_all crc (r # rs) file = rbind (append_to crc r file) (append_all crc rs)"

text \<open>
  The old handle is dropped first, so an error leaves the log on disk as it was but closed.
  \<open>tmp_exists\<close>: there is already a file of the temporary's name.
\<close>

definition rewrite_as_snapshot ::
  "(bytes \<Rightarrow> u32) \<Rightarrow> bool \<Rightarrow> u64 \<Rightarrow> wal_record list \<Rightarrow> wal \<Rightarrow> unit result \<times> wal" where
  "rewrite_as_snapshot crc tmp_exists txid ops w =
    (let w = w\<lparr>wl_open := False\<rparr>
     in if tmp_exists then (Inl Io, w)
        else case append_all crc (BeginTx txid # ops @ [CommitTx txid]) [] of
               Inl e \<Rightarrow> (Inl e, w)
             | Inr tmp_file \<Rightarrow> (Inr (), \<lparr>wl_data = tmp_file, wl_open = True\<rparr>))"

subsection \<open>Reading\<close>

definition try_read_u32 :: "bytes \<Rightarrow> (u32 \<times> bytes) option" where
  "try_read_u32 rest = (if length rest < 4 then None else Some (from_le (take 4 rest), drop 4 rest))"

definition next_record ::
  "(bytes \<Rightarrow> u32) \<Rightarrow> bytes \<Rightarrow> u64 \<Rightarrow> (u64 \<times> wal_record \<times> bytes \<times> u64) option result" where
  "next_record crc rest offset =
    (case try_read_u32 rest of
       None \<Rightarrow> Inr None
     | Some (len, rest) \<Rightarrow>
         if MAX_WAL_RECORD_LEN < len then Inl (WalRecordTooLarge len)
         else case try_read_u32 rest of
           None \<Rightarrow> Inr None
         | Some (c, rest) \<Rightarrow>
             if length rest < unat len then Inr None
             else
               let body = take (unat len) rest
               in if crc body \<noteq> c then Inr None
                  else rbind (decode_body body) (\<lambda>r.
                    Inr (Some (offset, r, drop (unat len) rest, offset + (4 + 4 + ucast len)))))"

lemma next_record_shorter:
  "next_record crc rest off = Inr (Some (at, r, rest', off')) \<Longrightarrow> length rest' < length rest"
  by (auto simp: next_record_def try_read_u32_def Let_def rbind_Inr_iff split: if_splits option.splits)

text \<open>\<open>while let Some((offset, record)) = reader.next_record()? { step }\<close>\<close>

function wal_loop ::
  "(bytes \<Rightarrow> u32) \<Rightarrow> (u64 \<Rightarrow> wal_record \<Rightarrow> 's \<Rightarrow> 's result) \<Rightarrow> bytes \<Rightarrow> u64 \<Rightarrow> 's \<Rightarrow> 's result" where
  "wal_loop crc step rest off st =
    (case next_record crc rest off of
       Inl e \<Rightarrow> Inl e
     | Inr None \<Rightarrow> Inr st
     | Inr (Some (at, r, rest', off')) \<Rightarrow> rbind (step at r st) (wal_loop crc step rest' off'))"
  by pat_completeness auto
termination
  by (relation "measure (\<lambda>(_, _, rest, _, _). length rest)") (auto dest: next_record_shorter)

declare wal_loop.simps [simp del]

record committed_tx =
  ct_txid :: u64
  ct_ops :: "wal_record list"

type_synonym replay_state = "u64 option \<times> wal_record list \<times> committed_tx list"

fun replay_committed_step :: "u64 \<Rightarrow> wal_record \<Rightarrow> replay_state \<Rightarrow> replay_state result" where
  "replay_committed_step _ (BeginTx txid) (current_txid, pending, out) = Inr (Some txid, [], out)"
| "replay_committed_step _ (CommitTx txid) (current_txid, pending, out) =
     (if current_txid \<noteq> Some txid then Inl (WalProtocol ''CommitTx without matching BeginTx'')
      else Inr (None, [], out @ [\<lparr>ct_txid = txid, ct_ops = pending\<rparr>]))"
| "replay_committed_step _ other (current_txid, pending, out) =
     (if current_txid = None then Inl (WalProtocol ''op outside tx'')
      else Inr (current_txid, pending @ [other], out))"

definition replay_committed :: "(bytes \<Rightarrow> u32) \<Rightarrow> bytes \<Rightarrow> committed_tx list result" where
  "replay_committed crc file =
     rbind (wal_loop crc replay_committed_step file 0 (None, [], [])) (\<lambda>(_, _, out). Inr out)"

fun checkpoint_info_step ::
  "u64 \<Rightarrow> wal_record \<Rightarrow> (u64 \<times> u64) option \<Rightarrow> (u64 \<times> u64) option result" where
  "checkpoint_info_step _ (Checkpoint up_to_txid epoch _ _) last_info = Inr (Some (up_to_txid, epoch))"
| "checkpoint_info_step _ _ last_info = Inr last_info"

definition latest_checkpoint_info :: "(bytes \<Rightarrow> u32) \<Rightarrow> bytes \<Rightarrow> (u64 \<times> u64) option result" where
  "latest_checkpoint_info crc file = wal_loop crc checkpoint_info_step file 0 None"

record replay_stats =
  rs_records :: u64
  rs_committed_txs :: u64
  rs_last_offset :: u64

fun apply_op :: "wal_record \<Rightarrow> pager \<Rightarrow> pager result" where
  "apply_op (PageWrite page_id page) p =
     rbind (ensure_allocated page_id p) (write_page page_id page)"
| "apply_op (PageFree page_id) p = free_page page_id p"
| "apply_op (BeginTx _) p = Inl (WalProtocol ''unexpected tx marker inside apply_op'')"
| "apply_op (CommitTx _) p = Inl (WalProtocol ''unexpected tx marker inside apply_op'')"
| "apply_op _ p = Inl (WalProtocol ''unexpected wal record in apply_op'')"

fun apply_ops :: "wal_record list \<Rightarrow> pager \<Rightarrow> pager result" where
  "apply_ops [] p = Inr p"
| "apply_ops (r # rs) p = rbind (apply_op r p) (apply_ops rs)"

type_synonym page_replay_state = "replay_stats \<times> u64 option \<times> wal_record list \<times> pager"

fun replay_into_record :: "wal_record \<Rightarrow> page_replay_state \<Rightarrow> page_replay_state result" where
  "replay_into_record (BeginTx txid) (stats, current_txid, pending, p) = Inr (stats, Some txid, [], p)"
| "replay_into_record (CommitTx txid) (stats, current_txid, pending, p) =
     (if current_txid \<noteq> Some txid then Inl (WalProtocol ''CommitTx without matching BeginTx'')
      else rbind (apply_ops pending p) (\<lambda>p.
        Inr (stats\<lparr>rs_committed_txs := rs_committed_txs stats + 1\<rparr>, None, [], p)))"
| "replay_into_record (PageWrite page_id page) (stats, current_txid, pending, p) =
     (if current_txid = None then Inl (WalProtocol ''page op outside tx'')
      else Inr (stats, current_txid, pending @ [PageWrite page_id page], p))"
| "replay_into_record (PageFree page_id) (stats, current_txid, pending, p) =
     (if current_txid = None then Inl (WalProtocol ''page op outside tx'')
      else Inr (stats, current_txid, pending @ [PageFree page_id], p))"
| "replay_into_record _ _ = Inl (WalProtocol ''non-page wal record in replay_into'')"

fun replay_into_step :: "u64 \<Rightarrow> wal_record \<Rightarrow> page_replay_state \<Rightarrow> page_replay_state result" where
  "replay_into_step offset r (stats, st) =
     rbind (replay_into_record r (stats\<lparr>rs_records := rs_records stats + 1\<rparr>, st)) (\<lambda>(stats, st).
       Inr (stats\<lparr>rs_last_offset := offset\<rparr>, st))"

definition replay_into :: "(bytes \<Rightarrow> u32) \<Rightarrow> bytes \<Rightarrow> pager \<Rightarrow> (replay_stats \<times> pager) result" where
  "replay_into crc file p =
     rbind (wal_loop crc replay_into_step file 0
              (\<lparr>rs_records = 0, rs_committed_txs = 0, rs_last_offset = 0\<rparr>, None, [], p))
       (\<lambda>(stats, _, _, p). Inr (stats, p))"

section \<open>Frames\<close>

definition body_of :: "wal_record \<Rightarrow> bytes" where
  "body_of r = (case encode_body r of Inl _ \<Rightarrow> [] | Inr b \<Rightarrow> b)"

definition frame_of :: "(bytes \<Rightarrow> u32) \<Rightarrow> wal_record \<Rightarrow> bytes" where
  "frame_of crc r = to_le (of_nat (length (body_of r)) :: u32) @ to_le (crc (body_of r)) @ body_of r"

text \<open>A record the reader accepts again: well-formed, and its body at most 1 MiB.\<close>

definition loggable :: "wal_record \<Rightarrow> bool" where
  "loggable r \<longleftrightarrow> record_wf r \<and> length (body_of r) \<le> 1048576"

lemma body_of_ok: "record_wf r \<Longrightarrow> encode_body r = Inr (body_of r) \<and> decode_body (body_of r) = Inr r"
  using decode_encode_body [of r] by (auto simp: body_of_def)

lemma append_to_frame:
  assumes "record_wf r" "length (body_of r) < 2 ^ 32"
  shows "append_to crc r file = Inr (file @ frame_of crc r)"
  using assms body_of_ok [OF assms(1)] by (simp add: append_to_def try_u32_def frame_of_def)

lemma loggable_append: "loggable r \<Longrightarrow> append_to crc r file = Inr (file @ frame_of crc r)"
  by (rule append_to_frame) (simp_all add: loggable_def)

lemma append_all_frames:
  "\<forall>r \<in> set rs. loggable r \<Longrightarrow> append_all crc rs d = Inr (d @ concat (map (frame_of crc) rs))"
  by (induction rs arbitrary: d) (simp_all add: loggable_append)

lemma try_read_u32_to_le: "try_read_u32 (to_le (w :: u32) @ rest) = Some (w, rest)"
  by (simp add: try_read_u32_def)

lemma frame_len:
  assumes "length b \<le> 1048576"
  shows "unat (of_nat (length b) :: u32) = length b" "\<not> MAX_WAL_RECORD_LEN < of_nat (length b)"
proof -
  have u: "unat (of_nat (length b) :: u32) = length b"
    using assms by (intro unat_word_of_nat_less) simp
  show "unat (of_nat (length b) :: u32) = length b" by (rule u)
  show "\<not> MAX_WAL_RECORD_LEN < of_nat (length b)"
    using assms by (simp add: MAX_WAL_RECORD_LEN_def word_less_nat_alt u)
qed

lemma next_record_frame:
  assumes "loggable r"
  shows "next_record crc (frame_of crc r @ rest) off =
    Inr (Some (off, r, rest, off + of_nat (length (frame_of crc r))))"
proof -
  let ?b = "body_of r" and ?n = "of_nat (length (body_of r)) :: u32"
  have l: "length ?b \<le> 1048576" and d: "decode_body ?b = Inr r"
    using assms body_of_ok [of r] by (auto simp: loggable_def)
  have n: "unat ?n = length ?b" "\<not> MAX_WAL_RECORD_LEN < ?n" using frame_len [OF l] .
  have "(ucast ?n :: u64) = of_nat (unat ?n)" by (simp add: unsigned_of_nat ucast_eq)
  then have "(4 + 4 + ucast ?n :: u64) = of_nat (length (frame_of crc r))"
    by (simp add: n(1) frame_of_def)
  then show ?thesis
    by (simp add: next_record_def frame_of_def try_read_u32_to_le n d Let_def)
qed

lemma next_record_torn:
  assumes r: "loggable r" and t: "frame_of crc r = t @ u" "u \<noteq> []"
  shows "next_record crc t off = Inr None"
proof -
  let ?n = "of_nat (length (body_of r)) :: u32"
  have l: "length (body_of r) \<le> 1048576" using r by (simp add: loggable_def)
  have n: "unat ?n = length (body_of r)" "\<not> MAX_WAL_RECORD_LEN < ?n" using frame_len [OF l] .
  have len: "length t + length u = 8 + length (body_of r)"
    using arg_cong [OF t(1), of length] by (simp add: frame_of_def)
  show ?thesis
  proof (cases "length t < 4")
    case True
    then show ?thesis by (simp add: next_record_def try_read_u32_def)
  next
    case False
    then have "take 4 t = take 4 (frame_of crc r)" using t(1) by simp
    also have "\<dots> = to_le ?n" by (simp add: frame_of_def)
    finally have "try_read_u32 t = Some (?n, drop 4 t)" using False by (simp add: try_read_u32_def)
    moreover have "length t < 8 + length (body_of r)" using len t(2) by (cases u) auto
    ultimately show ?thesis
      using n by (auto simp: next_record_def try_read_u32_def)
  qed
qed

interpretation wl: framed_log "frame_of crc" loggable "next_record crc" "wal_loop crc"
  for crc :: "bytes \<Rightarrow> u32"
proof unfold_locales
  show "next_record crc [] off = Inr None" for off
    by (simp add: next_record_def try_read_u32_def)
  show "wal_loop crc step rest off st =
      (case next_record crc rest off of
         Inl e \<Rightarrow> Inl e
       | Inr None \<Rightarrow> Inr st
       | Inr (Some (at, r, rest', off')) \<Rightarrow> rbind (step at r st) (wal_loop crc step rest' off'))"
    for step :: "u64 \<Rightarrow> wal_record \<Rightarrow> 'a \<Rightarrow> 'a result" and rest off st
    by (rule wal_loop.simps)
qed (fact next_record_frame, fact next_record_torn)

section \<open>Transactions\<close>

fun is_marker :: "wal_record \<Rightarrow> bool" where
  "is_marker (BeginTx _) = True"
| "is_marker (CommitTx _) = True"
| "is_marker _ = False"

definition tx_records :: "committed_tx \<Rightarrow> wal_record list" where
  "tx_records t = BeginTx (ct_txid t) # ct_ops t @ [CommitTx (ct_txid t)]"

definition tx_ok :: "committed_tx \<Rightarrow> bool" where
  "tx_ok t \<longleftrightarrow> (\<forall>r \<in> set (ct_ops t). loggable r \<and> \<not> is_marker r)"

definition tx_bytes :: "(bytes \<Rightarrow> u32) \<Rightarrow> committed_tx \<Rightarrow> bytes" where
  "tx_bytes crc t = concat (map (frame_of crc) (tx_records t))"

definition log_of :: "(bytes \<Rightarrow> u32) \<Rightarrow> committed_tx list \<Rightarrow> bytes" where
  "log_of crc txs = concat (map (tx_bytes crc) txs)"

lemma log_of_records: "log_of crc txs = concat (map (frame_of crc) (concat (map tx_records txs)))"
  by (induction txs) (simp_all add: log_of_def tx_bytes_def)

lemma loggable_markers [simp]: "loggable (BeginTx t)" "loggable (CommitTx t)"
  by (simp_all add: loggable_def body_of_def encode_body_def)

lemma loggable_tx: "tx_ok t \<Longrightarrow> \<forall>r \<in> set (tx_records t). loggable r"
  by (auto simp: tx_ok_def tx_records_def)

lemma loggable_txs: "\<forall>t \<in> set txs. tx_ok t \<Longrightarrow> \<forall>r \<in> set (concat (map tx_records txs)). loggable r"
  using loggable_tx by auto

lemma replay_step_op:
  "\<not> is_marker r \<Longrightarrow> replay_committed_step at r (Some i, pending, out) = Inr (Some i, pending @ [r], out)"
  by (cases r) simp_all

lemma replay_run_ops:
  "\<forall>r \<in> set ops. \<not> is_marker r \<Longrightarrow>
   run_records w replay_committed_step off ops (Some i, pending, out) = Inr (Some i, pending @ ops, out)"
  by (induction ops arbitrary: off pending) (simp_all add: replay_step_op)

lemma replay_run_tx:
  "tx_ok t \<Longrightarrow>
   run_records w replay_committed_step off (tx_records t) (c, pending, out) = Inr (None, [], out @ [t])"
  by (simp add: tx_records_def tx_ok_def run_records_append replay_run_ops)

lemma replay_run_txs:
  "\<forall>t \<in> set txs. tx_ok t \<Longrightarrow>
   \<exists>c p. run_records w replay_committed_step off (concat (map tx_records txs)) (c0, p0, out) =
     Inr (c, p, out @ txs)"
proof (induction txs arbitrary: off c0 p0 out)
  case (Cons t txs)
  from Cons.IH [of _ None "[]" "out @ [t]"] Cons.prems show ?case
    by (simp add: run_records_append replay_run_tx)
qed simp

text \<open>Part of a transaction without its commit record adds nothing.\<close>

lemma replay_run_part:
  assumes "tx_ok t" "k < length (tx_records t)"
  shows "\<exists>c p. run_records w replay_committed_step off (take k (tx_records t)) (c0, p0, out) = Inr (c, p, out)"
proof (cases k)
  case (Suc j)
  then have "take k (tx_records t) = BeginTx (ct_txid t) # take j (ct_ops t)"
    using assms(2) by (simp add: tx_records_def)
  moreover have "\<forall>r \<in> set (take j (ct_ops t)). \<not> is_marker r"
    using assms(1) unfolding tx_ok_def by (meson in_set_takeD)
  ultimately show ?thesis by (simp add: replay_run_ops)
qed simp

lemma replay_loop_part:
  assumes t: "tx_ok t" and b: "tx_bytes crc t = bs @ u" "u \<noteq> []"
  shows "\<exists>c p. wal_loop crc replay_committed_step bs off (c0, p0, out) = Inr (c, p, out)"
proof (rule wl.loop_prefix [OF loggable_tx [OF t], where n = "length bs" and crc = crc
    and step = replay_committed_step and off = off and st = "(c0, p0, out)"])
  fix k assume k: "k \<le> length (tx_records t)"
    "wal_loop crc replay_committed_step (take (length bs) (concat (map (frame_of crc) (tx_records t)))) off
        (c0, p0, out) =
      run_records (length \<circ> frame_of crc) replay_committed_step off (take k (tx_records t)) (c0, p0, out)"
    "length (concat (map (frame_of crc) (take k (tx_records t)))) \<le> length bs"
  have bs: "take (length bs) (concat (map (frame_of crc) (tx_records t))) = bs"
    using b(1) by (simp add: tx_bytes_def)
  have "k \<noteq> length (tx_records t)"
    using k(3) b by (auto simp flip: tx_bytes_def)
  with k(1) have "k < length (tx_records t)" by simp
  from replay_run_part [OF t this] k(2) show ?thesis unfolding bs by simp
qed

text \<open>What replay finds in a log of whole transactions followed by a part of one more.\<close>

lemma replay_log_part:
  assumes txs: "\<forall>t \<in> set txs. tx_ok t"
    and rest: "rest = [] \<or> (\<exists>t u. tx_ok t \<and> u \<noteq> [] \<and> tx_bytes crc t = rest @ u)"
  shows "replay_committed crc (log_of crc txs @ rest) = Inr txs"
proof -
  have stop: "\<exists>c p. wal_loop crc replay_committed_step rest off (c0, p0, txs) = Inr (c, p, txs)" for off c0 p0
    using rest
  proof (elim disjE exE conjE)
    assume "rest = []" then show ?thesis by (simp add: wl.loop_stops [OF wl.next_nil])
  next
    fix t u assume "tx_ok t" "u \<noteq> []" "tx_bytes crc t = rest @ u"
    then show ?thesis using replay_loop_part by blast
  qed
  from replay_run_txs [OF txs, of "length \<circ> frame_of crc" 0 None "[]" "[]"] obtain c p where
    "run_records (length \<circ> frame_of crc) replay_committed_step 0 (concat (map tx_records txs)) (None, [], []) =
      Inr (c, p, txs)" by auto
  then have "wal_loop crc replay_committed_step (log_of crc txs @ rest) 0 (None, [], []) =
      wal_loop crc replay_committed_step rest
        (of_nat (length (concat (map (frame_of crc) (concat (map tx_records txs)))))) (c, p, txs)"
    using wl.loop_frames [OF loggable_txs [OF txs], of crc replay_committed_step rest 0 "(None, [], [])"]
    by (simp only: log_of_records rbind_simps add_0)
  with stop show ?thesis unfolding replay_committed_def by (metis (no_types, lifting) case_prod_conv rbind_simps(2))
qed

text \<open>The transactions that lie in the first \<open>n\<close> bytes of a log as a whole.\<close>

fun whole_txs :: "(bytes \<Rightarrow> u32) \<Rightarrow> nat \<Rightarrow> committed_tx list \<Rightarrow> committed_tx list" where
  "whole_txs crc n [] = []"
| "whole_txs crc n (t # txs) =
     (if length (tx_bytes crc t) \<le> n then t # whole_txs crc (n - length (tx_bytes crc t)) txs else [])"

lemma take_log:
  obtains rest where "take n (log_of crc txs) = log_of crc (whole_txs crc n txs) @ rest"
    "rest = [] \<or> (\<exists>t u. t \<in> set txs \<and> u \<noteq> [] \<and> tx_bytes crc t = rest @ u)"
proof -
  have "\<exists>rest. take n (log_of crc txs) = log_of crc (whole_txs crc n txs) @ rest \<and>
    (rest = [] \<or> (\<exists>t u. t \<in> set txs \<and> u \<noteq> [] \<and> tx_bytes crc t = rest @ u))"
  proof (induction txs arbitrary: n)
    case (Cons t txs)
    show ?case
    proof (cases "length (tx_bytes crc t) \<le> n")
      case True
      from Cons.IH [of "n - length (tx_bytes crc t)"] show ?thesis
        using True unfolding log_of_def by auto
    next
      case False
      then have "\<exists>t' u. t' \<in> set (t # txs) \<and> u \<noteq> [] \<and> tx_bytes crc t' = take n (tx_bytes crc t) @ u"
        by (intro exI [of _ t] exI [of _ "drop n (tx_bytes crc t)"]) simp
      with False show ?thesis by (intro exI [of _ "take n (tx_bytes crc t)"]) (simp add: log_of_def)
    qed
  qed (simp add: log_of_def)
  with that show thesis by blast
qed

lemma whole_txs_all: "length (log_of crc txs) \<le> n \<Longrightarrow> whole_txs crc n txs = txs"
  by (induction txs arbitrary: n) (simp_all add: log_of_def)

lemma replay_prefix:
  assumes txs: "\<forall>t \<in> set txs. tx_ok t"
  shows "replay_committed crc (take n (log_of crc txs)) = Inr (whole_txs crc n txs)"
proof (rule take_log [of n crc txs])
  fix rest assume l: "take n (log_of crc txs) = log_of crc (whole_txs crc n txs) @ rest"
    and r: "rest = [] \<or> (\<exists>t u. t \<in> set txs \<and> u \<noteq> [] \<and> tx_bytes crc t = rest @ u)"
  have "set (whole_txs crc n txs) \<subseteq> set txs" by (induction txs arbitrary: n) auto
  then show ?thesis unfolding l using txs r by (intro replay_log_part) blast+
qed

text \<open>
  C1. Crash recovery. However many bytes of a log of transactions, whose records have at most 1 MiB
  each, reached the disk, replay succeeds and returns exactly the transactions that reached it as a whole, in order, with
  their operations; a transaction cut off anywhere, even inside its commit record, leaves
  nothing behind. This holds for every checksum function.
\<close>

theorem replay_crash_prefix:
  assumes txs: "\<forall>t \<in> set txs. tx_ok t"
  shows "replay_committed crc (take n (log_of crc txs)) = Inr (whole_txs crc n txs)"
  by (rule replay_prefix [OF txs])

theorem replay_crash_prefix_witness:
  "replay_committed (\<lambda>b. from_le (take 4 b))
     (take 60 (log_of (\<lambda>b. from_le (take 4 b))
        [\<lparr>ct_txid = 1, ct_ops = [TombstoneNode 7]\<rparr>, \<lparr>ct_txid = 2, ct_ops = [CreateNode 9 1 0]\<rparr>])) =
   Inr [\<lparr>ct_txid = 1, ct_ops = [TombstoneNode 7]\<rparr>]"
proof -
  let ?crc = "\<lambda>b. from_le (take 4 b) :: u32"
  let ?txs = "[\<lparr>ct_txid = 1, ct_ops = [TombstoneNode 7]\<rparr>, \<lparr>ct_txid = 2, ct_ops = [CreateNode 9 1 0]\<rparr>]"
  have "\<forall>t \<in> set ?txs. tx_ok t" by (simp add: tx_ok_def loggable_def body_of_def encode_body_def)
  from replay_crash_prefix [OF this, of ?crc 60] show ?thesis
    by (simp add: tx_bytes_def tx_records_def frame_of_def body_of_def encode_body_def)
qed

text \<open>Rewriting the log as a snapshot replaces its contents, whatever they were, by the one transaction given.\<close>

lemma rewrite_replay:
  assumes "\<forall>r \<in> set ops. loggable r \<and> \<not> is_marker r"
  shows "\<exists>w'. rewrite_as_snapshot crc False txid ops w = (Inr (), w') \<and> wl_open w' \<and>
    wl_data w' = log_of crc [\<lparr>ct_txid = txid, ct_ops = ops\<rparr>] \<and>
    replay_committed crc (wl_data w') = Inr [\<lparr>ct_txid = txid, ct_ops = ops\<rparr>]"
proof -
  let ?t = "\<lparr>ct_txid = txid, ct_ops = ops\<rparr>"
  have t: "tx_ok ?t" using assms by (simp add: tx_ok_def)
  have "append_all crc (tx_records ?t) [] = Inr (log_of crc [?t])"
    using append_all_frames [OF loggable_tx [OF t], of crc "[]"] by (simp add: log_of_def tx_bytes_def)
  moreover have "replay_committed crc (log_of crc [?t]) = Inr [?t]"
    using replay_log_part [of "[?t]" "[]" crc] t by simp
  ultimately show ?thesis by (simp add: rewrite_as_snapshot_def tx_records_def)
qed

text \<open>
  C31. A record whose body is longer than 1 MiB (a large property value, say) is appended
  without an error, but the reader refuses it: once it is in the log, replay fails with
  \<open>WalRecordTooLarge\<close>, whatever was committed before or after it.
\<close>

theorem too_large_record_blocks_replay:
  assumes txs: "\<forall>t \<in> set txs. tx_ok t" and r: "record_wf r"
    and big: "1048576 < length (body_of r)" "length (body_of r) < 2 ^ 32"
  shows "\<exists>d. append_to crc r (log_of crc txs @ frame_of crc (BeginTx i)) = Inr d \<and>
    replay_committed crc (d @ rest) = Inl (WalRecordTooLarge (of_nat (length (body_of r))))"
proof -
  let ?n = "of_nat (length (body_of r)) :: u32"
  let ?rs = "concat (map tx_records txs) @ [BeginTx i]"
  let ?d = "log_of crc txs @ frame_of crc (BeginTx i) @ frame_of crc r"
  have "unat ?n = length (body_of r)" using big by (intro unat_word_of_nat_less) simp
  then have "MAX_WAL_RECORD_LEN < ?n" using big by (simp add: MAX_WAL_RECORD_LEN_def word_less_nat_alt)
  then have "next_record crc (frame_of crc r @ rest) off = Inl (WalRecordTooLarge ?n)" for off
    by (simp add: next_record_def frame_of_def try_read_u32_to_le)
  then have stop: "wal_loop crc replay_committed_step (frame_of crc r @ rest) off st =
      Inl (WalRecordTooLarge ?n)" for off st
    by (subst wal_loop.simps) simp
  obtain c p where run: "run_records (length \<circ> frame_of crc) replay_committed_step 0
      (concat (map tx_records txs)) (None, [], []) = Inr (c, p, txs)"
    using replay_run_txs [OF txs, of "length \<circ> frame_of crc" 0 None "[]" "[]"] by auto
  have "\<forall>r \<in> set ?rs. loggable r" using loggable_txs [OF txs] by auto
  from wl.loop_frames [OF this, of crc replay_committed_step "frame_of crc r @ rest" 0 "(None, [], [])"]
  have "wal_loop crc replay_committed_step (?d @ rest) 0 (None, [], []) = Inl (WalRecordTooLarge ?n)"
    by (simp add: log_of_records run_records_append run stop)
  then show ?thesis using append_to_frame [OF r big(2)] by (simp add: replay_committed_def)
qed

theorem too_large_record_blocks_replay_witness:
  "\<exists>d. append_to (\<lambda>_. 0) (CreateLabel (replicate 1048576 97) 0) (frame_of (\<lambda>_. 0) (BeginTx 1)) = Inr d \<and>
     replay_committed (\<lambda>_. 0) d = Inl (WalRecordTooLarge 1048585)"
proof -
  let ?r = "CreateLabel (replicate 1048576 97) 0"
  have k: "key_wf (replicate 1048576 97)"
    unfolding key_wf_def by (intro conjI utf8_valid_ascii) auto
  then have b: "length (body_of ?r) = 1048585"
    by (simp add: body_of_def encode_body_def encode_key_ok)
  show ?thesis
    using too_large_record_blocks_replay [of "[]" ?r "\<lambda>_. 0" 1 "[]"] k b by (simp add: log_of_def)
qed



section \<open>Replay into the page file\<close>

lemma apply_ops_append: "apply_ops (xs @ ys) p = rbind (apply_ops xs p) (apply_ops ys)"
proof (induction xs arbitrary: p)
  case (Cons x xs)
  then show ?case by (cases "apply_op x p") simp_all
qed simp

text \<open>
  The states of the two replay loops after the same records: the page file is what the
  transactions found so far make of the one replay started from.
\<close>

definition replay_rel :: "pager \<Rightarrow> page_replay_state \<Rightarrow> replay_state \<Rightarrow> bool" where
  "replay_rel p0 = (\<lambda>(stats, c, pending, p) (c', pending', out).
     c = c' \<and> pending = pending' \<and> rs_committed_txs stats = of_nat (length out) \<and>
     apply_ops (concat (map ct_ops out)) p0 = Inr p)"

lemma replay_rel_step:
  assumes rel: "replay_rel p0 s t" and step: "replay_into_step off r s = Inr s'"
  shows "\<exists>t'. replay_committed_step off r t = Inr t' \<and> replay_rel p0 s' t'"
proof -
  obtain stats c pending p where s: "s = (stats, c, pending, p)" by (cases s)
  obtain out where t: "t = (c, pending, out)" and out: "rs_committed_txs stats = of_nat (length out)"
    "apply_ops (concat (map ct_ops out)) p0 = Inr p"
    using rel by (cases t) (auto simp: replay_rel_def s)
  show ?thesis
    using step out unfolding s t
    by (cases r) (auto simp: replay_rel_def apply_ops_append rbind_Inr_iff split: if_splits)
qed

lemma replay_rel_loop:
  assumes "replay_rel p0 s t" "wal_loop crc replay_into_step rest off s = Inr s'"
  shows "\<exists>t'. wal_loop crc replay_committed_step rest off t = Inr t' \<and> replay_rel p0 s' t'"
  using assms
proof (induction crc "replay_into_step" rest off s arbitrary: t rule: wal_loop.induct)
  case (1 crc rest off s)
  show ?case
  proof (cases "next_record crc rest off")
    case (Inl e)
    with 1 show ?thesis by (simp add: wal_loop.simps)
  next
    case (Inr nx)
    show ?thesis
    proof (cases nx)
      case None
      with Inr 1 show ?thesis by (simp add: wal_loop.simps)
    next
      case (Some q)
      then obtain at r rest' off' where nx: "nx = Some (at, r, rest', off')" by (cases q) auto
      with Inr 1(3) obtain s1 where s1: "replay_into_step at r s = Inr s1"
        "wal_loop crc replay_into_step rest' off' s1 = Inr s'"
        by (subst (asm) wal_loop.simps) (auto simp: rbind_Inr_iff)
      from replay_rel_step [OF 1(2) s1(1)] obtain t1 where t1: "replay_committed_step at r t = Inr t1"
        "replay_rel p0 s1 t1" by blast
      from 1(1) [OF Inr nx refl refl refl s1(1) t1(2) s1(2)] Inr nx t1(1) show ?thesis
        by (subst wal_loop.simps) simp
    qed
  qed
qed

text \<open>
  C33. Replay into the page file is refined by replay of transactions: on any bytes whatever,
  when \<open>replay_into\<close> succeeds, \<open>replay_committed\<close> succeeds, the number of transactions is the
  one counted, and the page file is the result of applying their operations in order. No
  operation of an uncommitted transaction reaches a page.
\<close>

theorem replay_into_refines:
  assumes "replay_into crc d p0 = Inr (stats, p)"
  shows "\<exists>txs. replay_committed crc d = Inr txs \<and> rs_committed_txs stats = of_nat (length txs) \<and>
    apply_ops (concat (map ct_ops txs)) p0 = Inr p"
proof -
  let ?s0 = "(\<lparr>rs_records = 0, rs_committed_txs = 0, rs_last_offset = 0\<rparr>, None, [], p0)"
  obtain c pending where "wal_loop crc replay_into_step d 0 ?s0 = Inr (stats, c, pending, p)"
    using assms by (auto simp: replay_into_def rbind_Inr_iff)
  moreover have "replay_rel p0 ?s0 (None, [], [])" by (simp add: replay_rel_def)
  ultimately obtain t' where "wal_loop crc replay_committed_step d 0 (None, [], []) = Inr t'"
    "replay_rel p0 (stats, c, pending, p) t'"
    using replay_rel_loop by blast
  then show ?thesis by (cases t') (auto simp: replay_rel_def replay_committed_def)
qed

theorem replay_into_refines_witness:
  "\<exists>p0 stats p. pager_open None = Inr p0 \<and>
     replay_into (\<lambda>_. 0) (log_of (\<lambda>_. 0) [\<lparr>ct_txid = 1, ct_ops = [PageWrite 2 zero_page]\<rparr>]) p0 =
       Inr (stats, p) \<and>
     rs_committed_txs stats = 1 \<and> apply_ops [PageWrite 2 zero_page] p0 = Inr p"
proof -
  let ?t = "\<lparr>ct_txid = 1, ct_ops = [PageWrite 2 zero_page]\<rparr>"
  have "PAGE_SIZE \<le> 1048567" by (simp add: PAGE_SIZE_def)
  then have t: "tx_ok ?t" by (simp add: tx_ok_def loggable_def body_of_def encode_body_def)
  obtain p0 where p0: "pager_open None = Inr p0" "pager_inv p0" using pager_create by blast
  have "data_page 2" by (simp add: data_page_def)
  then obtain p1 b where p1: "ensure_allocated 2 p0 = Inr p1" "pager_inv p1" "pg_pages p1 2 = Some b"
    using ensure_allocated_ok [of p0 2] pager_invD [OF p0(2)] by metis
  obtain p2 where p2: "write_page 2 zero_page p1 = Inr p2"
    using pgs.write_law [OF p1(2,3), of zero_page] by auto
  have "\<exists>stats. replay_into (\<lambda>_. 0) (log_of (\<lambda>_. 0) [?t]) p0 = Inr (stats, p2)"
    using wl.loop_all [OF loggable_tx [OF t], of "\<lambda>_. 0" replay_into_step 0] p1(1) p2
    by (simp add: replay_into_def log_of_def tx_bytes_def tx_records_def)
  then obtain stats where r: "replay_into (\<lambda>_. 0) (log_of (\<lambda>_. 0) [?t]) p0 = Inr (stats, p2)" ..
  from replay_into_refines [OF r] replay_log_part [of "[?t]" "[]" "\<lambda>_. 0"] t r p0(1) show ?thesis
    by auto
qed

end
