(* ===== verification/MemTable.thy ===== *)
theory MemTable
  imports WalRecord
begin

text \<open>
  The write buffer of a transaction and the immutable run it is frozen into
  (nervusdb-storage/src/memtable.rs, \<open>L0Run\<close> of snapshot.rs and the read_path_run_*.rs files it
  delegates to). The abstract state \<open>delta\<close> is what a transaction says about the graph; the
  buffer refines it operation by operation, and freezing keeps it.
\<close>

section \<open>Edge keys\<close>

datatype edge_key = EdgeKey (ek_src: u32) (ek_rel: u32) (ek_dst: u32)

text \<open>The derived \<open>Ord\<close>: lexicographic on the fields in their order.\<close>

instantiation edge_key :: linorder
begin

definition less_eq_edge_key :: "edge_key \<Rightarrow> edge_key \<Rightarrow> bool" where
  "less_eq_edge_key a b \<longleftrightarrow>
     ek_src a < ek_src b \<or> ek_src a = ek_src b \<and>
     (ek_rel a < ek_rel b \<or> ek_rel a = ek_rel b \<and> ek_dst a \<le> ek_dst b)"

definition less_edge_key :: "edge_key \<Rightarrow> edge_key \<Rightarrow> bool" where
  "less_edge_key a b \<longleftrightarrow> a \<le> b \<and> \<not> b \<le> (a :: edge_key)"

instance
  by standard (auto simp: less_eq_edge_key_def less_edge_key_def intro: edge_key.expand)

end

section \<open>The write buffer\<close>

record memtable =
  mt_out :: "(u32, edge_key list) hmap"
  mt_in :: "(u32, edge_key list) hmap"
  mt_tombstoned_nodes :: "u32 list"
  mt_tombstoned_edges :: "edge_key list"
  mt_node_properties :: "(u32, (rstring, property_value) hmap) hmap"
  mt_edge_properties :: "(edge_key, (rstring, property_value) hmap) hmap"
  mt_removed_node_properties :: "(u32, rstring list) hmap"
  mt_removed_edge_properties :: "(edge_key, rstring list) hmap"

definition mt_default :: memtable where
  "mt_default = \<lparr>mt_out = [], mt_in = [], mt_tombstoned_nodes = [], mt_tombstoned_edges = [],
     mt_node_properties = [], mt_edge_properties = [],
     mt_removed_node_properties = [], mt_removed_edge_properties = []\<rparr>"

definition mt_create_edge :: "u32 \<Rightarrow> u32 \<Rightarrow> u32 \<Rightarrow> memtable \<Rightarrow> memtable" where
  "mt_create_edge src rel dst m =
    (let key = EdgeKey src rel dst
     in m\<lparr>mt_out := hm_entry src [] (\<lambda>es. es @ [key]) (mt_out m),
          mt_in := hm_entry dst [] (\<lambda>es. es @ [key]) (mt_in m)\<rparr>)"

definition mt_tombstone_node :: "u32 \<Rightarrow> memtable \<Rightarrow> memtable" where
  "mt_tombstone_node node m = m\<lparr>mt_tombstoned_nodes := bs_insert node (mt_tombstoned_nodes m)\<rparr>"

text \<open>\<open>if let Some(edges) = map.get_mut(k) { edges.retain(..); if edges.is_empty() { remove } }\<close>\<close>

definition retain_edges :: "u32 \<Rightarrow> edge_key \<Rightarrow> (u32, edge_key list) hmap \<Rightarrow> (u32, edge_key list) hmap" where
  "retain_edges k key m =
    (case hm_get m k of
       None \<Rightarrow> m
     | Some edges \<Rightarrow>
         let edges = filter (\<lambda>e. e \<noteq> key) edges
         in if edges = [] then hm_remove k m else hm_insert k edges m)"

definition mt_tombstone_edge :: "u32 \<Rightarrow> u32 \<Rightarrow> u32 \<Rightarrow> memtable \<Rightarrow> memtable" where
  "mt_tombstone_edge src rel dst m =
    (let key = EdgeKey src rel dst
     in m\<lparr>mt_out := retain_edges src key (mt_out m),
          mt_in := retain_edges dst key (mt_in m),
          mt_tombstoned_edges := bs_insert key (mt_tombstoned_edges m)\<rparr>)"

text \<open>Setting and removing a property; nodes and edges have the same code over their two maps.\<close>

definition set_prop :: "'o \<Rightarrow> rstring \<Rightarrow> property_value \<Rightarrow>
    ('o, (rstring, property_value) hmap) hmap \<Rightarrow> ('o, (rstring, property_value) hmap) hmap" where
  "set_prop x key v props = hm_entry x [] (hm_insert key v) props"

definition unmark_removed :: "'o \<Rightarrow> rstring \<Rightarrow> ('o, rstring list) hmap \<Rightarrow> ('o, rstring list) hmap" where
  "unmark_removed x key removed =
    (case hm_get removed x of None \<Rightarrow> removed | Some ks \<Rightarrow> hm_insert x (bs_remove key ks) removed)"

definition unset_prop :: "'o \<Rightarrow> rstring \<Rightarrow>
    ('o, (rstring, property_value) hmap) hmap \<Rightarrow> ('o, (rstring, property_value) hmap) hmap" where
  "unset_prop x key props =
    (case hm_get props x of
       None \<Rightarrow> props
     | Some ps \<Rightarrow>
         let ps = hm_remove key ps in if ps = [] then hm_remove x props else hm_insert x ps props)"

definition mark_removed :: "'o \<Rightarrow> rstring \<Rightarrow> ('o, rstring list) hmap \<Rightarrow> ('o, rstring list) hmap" where
  "mark_removed x key removed = hm_entry x [] (bs_insert key) removed"

definition mt_set_node_property :: "u32 \<Rightarrow> rstring \<Rightarrow> property_value \<Rightarrow> memtable \<Rightarrow> memtable" where
  "mt_set_node_property node key v m =
     m\<lparr>mt_node_properties := set_prop node key v (mt_node_properties m),
       mt_removed_node_properties := unmark_removed node key (mt_removed_node_properties m)\<rparr>"

definition mt_remove_node_property :: "u32 \<Rightarrow> rstring \<Rightarrow> memtable \<Rightarrow> memtable" where
  "mt_remove_node_property node key m =
     m\<lparr>mt_node_properties := unset_prop node key (mt_node_properties m),
       mt_removed_node_properties := mark_removed node key (mt_removed_node_properties m)\<rparr>"

definition mt_set_edge_property ::
  "u32 \<Rightarrow> u32 \<Rightarrow> u32 \<Rightarrow> rstring \<Rightarrow> property_value \<Rightarrow> memtable \<Rightarrow> memtable" where
  "mt_set_edge_property src rel dst key v m =
    (let edge = EdgeKey src rel dst
     in m\<lparr>mt_edge_properties := set_prop edge key v (mt_edge_properties m),
          mt_removed_edge_properties := unmark_removed edge key (mt_removed_edge_properties m)\<rparr>)"

definition mt_remove_edge_property :: "u32 \<Rightarrow> u32 \<Rightarrow> u32 \<Rightarrow> rstring \<Rightarrow> memtable \<Rightarrow> memtable" where
  "mt_remove_edge_property src rel dst key m =
    (let edge = EdgeKey src rel dst
     in m\<lparr>mt_edge_properties := unset_prop edge key (mt_edge_properties m),
          mt_removed_edge_properties := mark_removed edge key (mt_removed_edge_properties m)\<rparr>)"

text \<open>The property operations of the buffer as the log records commit writes.\<close>

definition removed_node_properties_for_wal :: "memtable \<Rightarrow> (u32 \<times> rstring) list" where
  "removed_node_properties_for_wal m =
     concat (map (\<lambda>(node, ks). map (\<lambda>key. (node, key)) ks) (mt_removed_node_properties m))"

definition removed_edge_properties_for_wal :: "memtable \<Rightarrow> (u32 \<times> u32 \<times> u32 \<times> rstring) list" where
  "removed_edge_properties_for_wal m =
     concat (map (\<lambda>(e, ks). map (\<lambda>key. (ek_src e, ek_rel e, ek_dst e, key)) ks) (mt_removed_edge_properties m))"

definition node_properties_for_wal :: "memtable \<Rightarrow> (u32 \<times> rstring \<times> property_value) list" where
  "node_properties_for_wal m =
     concat (map (\<lambda>(node, ps). map (\<lambda>(key, v). (node, key, v)) ps) (mt_node_properties m))"

definition edge_properties_for_wal ::
  "memtable \<Rightarrow> (u32 \<times> u32 \<times> u32 \<times> rstring \<times> property_value) list" where
  "edge_properties_for_wal m =
     concat (map (\<lambda>(e, ps). map (\<lambda>(key, v). (ek_src e, ek_rel e, ek_dst e, key, v)) ps) (mt_edge_properties m))"

section \<open>The frozen run\<close>

record l0_run =
  run_txid :: u64
  run_edges_by_src :: "(u32, edge_key list) btmap"
  run_edges_by_dst :: "(u32, edge_key list) btmap"
  run_tombstoned_nodes :: "u32 list"
  run_tombstoned_edges :: "edge_key list"
  run_node_properties :: "(u32, (rstring, property_value) btmap) btmap"
  run_edge_properties :: "(edge_key, (rstring, property_value) btmap) btmap"
  run_tombstoned_node_properties :: "(u32, rstring list) btmap"
  run_tombstoned_edge_properties :: "(edge_key, rstring list) btmap"

definition freeze_into_run :: "u64 \<Rightarrow> memtable \<Rightarrow> l0_run" where
  "freeze_into_run txid m = \<lparr>run_txid = txid,
     run_edges_by_src = bt_collect (map (\<lambda>(src, es). (src, sort es)) (mt_out m)),
     run_edges_by_dst = bt_collect (map (\<lambda>(dst, es). (dst, sort es)) (mt_in m)),
     run_tombstoned_nodes = mt_tombstoned_nodes m,
     run_tombstoned_edges = mt_tombstoned_edges m,
     run_node_properties = bt_collect (map (\<lambda>(k, ps). (k, bt_collect ps)) (mt_node_properties m)),
     run_edge_properties = bt_collect (map (\<lambda>(k, ps). (k, bt_collect ps)) (mt_edge_properties m)),
     run_tombstoned_node_properties = bt_collect (mt_removed_node_properties m),
     run_tombstoned_edge_properties = bt_collect (mt_removed_edge_properties m)\<rparr>"

definition edges_for_src :: "(u32, edge_key list) btmap \<Rightarrow> u32 \<Rightarrow> edge_key list" where
  "edges_for_src edges_by_src src = (case bt_get edges_by_src src of None \<Rightarrow> [] | Some es \<Rightarrow> es)"

definition edges_for_dst :: "(u32, edge_key list) btmap \<Rightarrow> u32 \<Rightarrow> edge_key list" where
  "edges_for_dst edges_by_dst dst = (case bt_get edges_by_dst dst of None \<Rightarrow> [] | Some es \<Rightarrow> es)"

definition run_is_empty :: "l0_run \<Rightarrow> bool" where
  "run_is_empty r \<longleftrightarrow> run_edges_by_src r = [] \<and> run_edges_by_dst r = [] \<and>
     run_tombstoned_nodes r = [] \<and> run_tombstoned_edges r = [] \<and>
     run_node_properties r = [] \<and> run_edge_properties r = [] \<and>
     run_tombstoned_node_properties r = [] \<and> run_tombstoned_edge_properties r = []"

definition run_has_properties :: "l0_run \<Rightarrow> bool" where
  "run_has_properties r \<longleftrightarrow> run_node_properties r \<noteq> [] \<or> run_edge_properties r \<noteq> [] \<or>
     run_tombstoned_node_properties r \<noteq> [] \<or> run_tombstoned_edge_properties r \<noteq> []"

definition bset_has :: "('o, rstring list) btmap \<Rightarrow> 'o \<Rightarrow> rstring \<Rightarrow> bool" where
  "bset_has m x key = (case bt_get m x of None \<Rightarrow> False | Some deleted \<Rightarrow> List.member deleted key)"

definition node_property_in_run :: "l0_run \<Rightarrow> u32 \<Rightarrow> rstring \<Rightarrow> property_value option" where
  "node_property_in_run r node key =
    (if bset_has (run_tombstoned_node_properties r) node key then None
     else Option.bind (bt_get (run_node_properties r) node) (\<lambda>props. bt_get props key))"

definition edge_property_in_run :: "l0_run \<Rightarrow> edge_key \<Rightarrow> rstring \<Rightarrow> property_value option" where
  "edge_property_in_run r edge key =
    (if bset_has (run_tombstoned_edge_properties r) edge key then None
     else Option.bind (bt_get (run_edge_properties r) edge) (\<lambda>props. bt_get props key))"

definition node_properties_in_run :: "l0_run \<Rightarrow> u32 \<Rightarrow> (rstring, property_value) btmap option" where
  "node_properties_in_run r node = bt_get (run_node_properties r) node"

definition edge_properties_in_run :: "l0_run \<Rightarrow> edge_key \<Rightarrow> (rstring, property_value) btmap option" where
  "edge_properties_in_run r edge = bt_get (run_edge_properties r) edge"

definition iter_edges :: "l0_run \<Rightarrow> edge_key list" where
  "iter_edges r = concat (map snd (run_edges_by_src r))"

definition iter_tombstoned_nodes :: "l0_run \<Rightarrow> u32 list" where
  "iter_tombstoned_nodes r = run_tombstoned_nodes r"

definition iter_tombstoned_edges :: "l0_run \<Rightarrow> edge_key list" where
  "iter_tombstoned_edges r = run_tombstoned_edges r"

text \<open>The replay of one record of a transaction into a buffer; records that are not graph
  operations leave it alone.\<close>

fun mt_replay :: "wal_record \<Rightarrow> memtable \<Rightarrow> memtable" where
  "mt_replay (CreateEdge src rel dst) m = mt_create_edge src rel dst m"
| "mt_replay (TombstoneNode node) m = mt_tombstone_node node m"
| "mt_replay (TombstoneEdge src rel dst) m = mt_tombstone_edge src rel dst m"
| "mt_replay (SetNodeProperty node key v) m = mt_set_node_property node key v m"
| "mt_replay (SetEdgeProperty src rel dst key v) m = mt_set_edge_property src rel dst key v m"
| "mt_replay (RemoveNodeProperty node key) m = mt_remove_node_property node key m"
| "mt_replay (RemoveEdgeProperty src rel dst key) m = mt_remove_edge_property src rel dst key m"
| "mt_replay _ m = m"

text \<open>The graph records commit appends, in its order, from the frozen run and the buffer.\<close>

definition graph_records :: "memtable \<Rightarrow> l0_run \<Rightarrow> wal_record list" where
  "graph_records m run =
     map (\<lambda>e. CreateEdge (ek_src e) (ek_rel e) (ek_dst e)) (iter_edges run) @
     map TombstoneNode (iter_tombstoned_nodes run) @
     map (\<lambda>e. TombstoneEdge (ek_src e) (ek_rel e) (ek_dst e)) (iter_tombstoned_edges run) @
     map (\<lambda>(node, key, v). SetNodeProperty node key v) (node_properties_for_wal m) @
     map (\<lambda>(node, key). RemoveNodeProperty node key) (removed_node_properties_for_wal m) @
     map (\<lambda>(src, rel, dst, key, v). SetEdgeProperty src rel dst key v) (edge_properties_for_wal m) @
     map (\<lambda>(src, rel, dst, key). RemoveEdgeProperty src rel dst key) (removed_edge_properties_for_wal m)"

section \<open>What a transaction says about the graph\<close>

text \<open>
  How often each edge was created, which nodes and edges were deleted, and what happened to
  each property: nothing, \<open>Some None\<close> for a removal, \<open>Some (Some v)\<close> for a new value.
\<close>

record delta =
  d_edges :: "edge_key \<Rightarrow> nat"
  d_nodes_gone :: "u32 set"
  d_edges_gone :: "edge_key set"
  d_node_props :: "u32 \<Rightarrow> rstring \<Rightarrow> property_value option option"
  d_edge_props :: "edge_key \<Rightarrow> rstring \<Rightarrow> property_value option option"

definition delta_empty :: delta where
  "delta_empty = \<lparr>d_edges = (\<lambda>_. 0), d_nodes_gone = {}, d_edges_gone = {},
     d_node_props = (\<lambda>_ _. None), d_edge_props = (\<lambda>_ _. None)\<rparr>"

definition upd2 :: "'a \<Rightarrow> 'b \<Rightarrow> 'c \<Rightarrow> ('a \<Rightarrow> 'b \<Rightarrow> 'c) \<Rightarrow> 'a \<Rightarrow> 'b \<Rightarrow> 'c" where
  "upd2 x y v f = f(x := (f x)(y := v))"

fun delta_apply :: "wal_record \<Rightarrow> delta \<Rightarrow> delta" where
  "delta_apply (CreateEdge s r t) d =
     d\<lparr>d_edges := (d_edges d)(EdgeKey s r t := Suc (d_edges d (EdgeKey s r t)))\<rparr>"
| "delta_apply (TombstoneNode n) d = d\<lparr>d_nodes_gone := insert n (d_nodes_gone d)\<rparr>"
| "delta_apply (TombstoneEdge s r t) d =
     d\<lparr>d_edges := (d_edges d)(EdgeKey s r t := 0),
       d_edges_gone := insert (EdgeKey s r t) (d_edges_gone d)\<rparr>"
| "delta_apply (SetNodeProperty n k v) d = d\<lparr>d_node_props := upd2 n k (Some (Some v)) (d_node_props d)\<rparr>"
| "delta_apply (RemoveNodeProperty n k) d = d\<lparr>d_node_props := upd2 n k (Some None) (d_node_props d)\<rparr>"
| "delta_apply (SetEdgeProperty s r t k v) d =
     d\<lparr>d_edge_props := upd2 (EdgeKey s r t) k (Some (Some v)) (d_edge_props d)\<rparr>"
| "delta_apply (RemoveEdgeProperty s r t k) d =
     d\<lparr>d_edge_props := upd2 (EdgeKey s r t) k (Some None) (d_edge_props d)\<rparr>"
| "delta_apply _ d = d"

subsection \<open>Property maps\<close>

definition prop_get :: "('o, (rstring, property_value) hmap) hmap \<Rightarrow> 'o \<Rightarrow> rstring \<Rightarrow> property_value option" where
  "prop_get props x k = Option.bind (hm_get props x) (\<lambda>ps. hm_get ps k)"

definition marked :: "('o, rstring list) hmap \<Rightarrow> 'o \<Rightarrow> rstring \<Rightarrow> bool" where
  "marked removed x k \<longleftrightarrow> (case hm_get removed x of None \<Rightarrow> False | Some ks \<Rightarrow> k \<in> set ks)"

definition prop_effect ::
  "('o, (rstring, property_value) hmap) hmap \<Rightarrow> ('o, rstring list) hmap \<Rightarrow>
   'o \<Rightarrow> rstring \<Rightarrow> property_value option option" where
  "prop_effect props removed x k =
     (if marked removed x k then Some None else map_option Some (prop_get props x k))"

definition props_inv :: "('o, (rstring, property_value) hmap) hmap \<Rightarrow> ('o, rstring list) hmap \<Rightarrow> bool" where
  "props_inv props removed \<longleftrightarrow>
     hm_wf props \<and> (\<forall>x ps. hm_get props x = Some ps \<longrightarrow> hm_wf ps \<and> ps \<noteq> []) \<and>
     hm_wf removed \<and> (\<forall>x ks. hm_get removed x = Some ks \<longrightarrow> bs_wf ks) \<and>
     (\<forall>x k. marked removed x k \<longrightarrow> prop_get props x k = None)"

lemma hm_insert_neq_Nil [simp]: "hm_insert k v m \<noteq> []"
  by (cases m) (auto simp: hm_insert_def)

lemma prop_get_set [simp]:
  "prop_get (set_prop x k v props) y j = (if y = x \<and> j = k then Some v else prop_get props y j)"
  by (auto simp: prop_get_def set_prop_def split: option.split)

lemma prop_get_unset [simp]:
  "prop_get (unset_prop x k props) y j = (if y = x \<and> j = k then None else prop_get props y j)"
proof -
  have "hm_get ps j = None" if "hm_remove k ps = []" "j \<noteq> k" for ps :: "(rstring, property_value) hmap"
    using hm_get_remove [of k ps j] that by simp
  then show ?thesis
    by (auto simp: prop_get_def unset_prop_def Let_def split: option.split)
qed

lemma marked_unmark [simp]:
  "marked (unmark_removed x k removed) y j \<longleftrightarrow> marked removed y j \<and> \<not> (y = x \<and> j = k)"
  by (auto simp: marked_def unmark_removed_def split: option.split)

lemma marked_mark [simp]:
  "marked (mark_removed x k removed) y j \<longleftrightarrow> marked removed y j \<or> (y = x \<and> j = k)"
  by (auto simp: marked_def mark_removed_def split: option.split)

lemma props_inv_set:
  assumes "props_inv props removed"
  shows "props_inv (set_prop x k v props) (unmark_removed x k removed)"
proof -
  have wf: "hm_wf (set_prop x k v props)" "hm_wf (unmark_removed x k removed)"
    using assms by (auto simp: props_inv_def set_prop_def unmark_removed_def split: option.split)
  have "hm_wf ps \<and> ps \<noteq> []" if "hm_get (set_prop x k v props) y = Some ps" for y ps
    using that assms by (auto simp: props_inv_def set_prop_def split: if_splits option.splits)
  moreover have "bs_wf ks" if "hm_get (unmark_removed x k removed) y = Some ks" for y ks
    using that assms by (auto simp: props_inv_def unmark_removed_def split: if_splits option.splits)
  ultimately show ?thesis using wf assms by (simp add: props_inv_def)
qed

lemma props_inv_unset:
  assumes "props_inv props removed"
  shows "props_inv (unset_prop x k props) (mark_removed x k removed)"
proof -
  have wf: "hm_wf (unset_prop x k props)" "hm_wf (mark_removed x k removed)"
    using assms by (auto simp: props_inv_def unset_prop_def mark_removed_def Let_def split: option.split)
  have "hm_wf ps \<and> ps \<noteq> []" if "hm_get (unset_prop x k props) y = Some ps" for y ps
    using that assms by (auto simp: props_inv_def unset_prop_def Let_def split: if_splits option.splits)
  moreover have "bs_wf ks" if "hm_get (mark_removed x k removed) y = Some ks" for y ks
    using that assms by (auto simp: props_inv_def mark_removed_def split: if_splits option.splits)
  ultimately show ?thesis using wf assms by (simp add: props_inv_def)
qed

lemma prop_effect_set:
  "prop_effect (set_prop x k v props) (unmark_removed x k removed) = upd2 x k (Some (Some v)) (prop_effect props removed)"
  by (auto simp: prop_effect_def upd2_def fun_eq_iff)

lemma prop_effect_unset:
  "prop_effect (unset_prop x k props) (mark_removed x k removed) = upd2 x k (Some None) (prop_effect props removed)"
  by (auto simp: prop_effect_def upd2_def fun_eq_iff)

subsection \<open>Edge maps\<close>

definition hm_list :: "(u32, edge_key list) hmap \<Rightarrow> u32 \<Rightarrow> edge_key list" where
  "hm_list m k = (case hm_get m k of None \<Rightarrow> [] | Some es \<Rightarrow> es)"

definition edges_inv :: "(edge_key \<Rightarrow> u32) \<Rightarrow> (u32, edge_key list) hmap \<Rightarrow> bool" where
  "edges_inv sel m \<longleftrightarrow> hm_wf m \<and> (\<forall>k es. hm_get m k = Some es \<longrightarrow> es \<noteq> [] \<and> (\<forall>e \<in> set es. sel e = k))"

definition edge_count :: "(edge_key \<Rightarrow> u32) \<Rightarrow> (u32, edge_key list) hmap \<Rightarrow> edge_key \<Rightarrow> nat" where
  "edge_count sel m e = count_list (hm_list m (sel e)) e"

lemma hm_list_entry [simp]:
  "hm_list (hm_entry k [] (\<lambda>es. es @ [e]) m) k' = (if k' = k then hm_list m k @ [e] else hm_list m k')"
  by (simp add: hm_list_def split: option.split)

lemma hm_list_retain [simp]:
  "hm_list (retain_edges k e m) k' = (if k' = k then filter (\<lambda>x. x \<noteq> e) (hm_list m k) else hm_list m k')"
  by (auto simp: hm_list_def retain_edges_def Let_def split: option.split)

lemma edges_inv_entry: "edges_inv sel m \<Longrightarrow> sel e = k \<Longrightarrow> edges_inv sel (hm_entry k [] (\<lambda>es. es @ [e]) m)"
  by (cases "hm_get m k") (auto simp: edges_inv_def split: if_splits)

lemma edges_inv_retain: "edges_inv sel m \<Longrightarrow> edges_inv sel (retain_edges k e m)"
  by (auto simp: edges_inv_def retain_edges_def Let_def split: option.split if_splits)

lemma count_list_filter_neq: "count_list (filter (\<lambda>x. x \<noteq> e) xs) y = (if y = e then 0 else count_list xs y)"
  by (induction xs) auto

lemma edge_count_entry:
  "sel e = k \<Longrightarrow> edge_count sel (hm_entry k [] (\<lambda>es. es @ [e]) m) =
     (edge_count sel m)(e := Suc (edge_count sel m e))"
  by (auto simp: edge_count_def fun_eq_iff)

lemma edge_count_retain:
  "sel e = k \<Longrightarrow> edge_count sel (retain_edges k e m) = (edge_count sel m)(e := 0)"
  by (auto simp: edge_count_def fun_eq_iff count_list_filter_neq)

subsection \<open>The buffer refines the delta\<close>

definition mt_abs :: "memtable \<Rightarrow> delta" where
  "mt_abs m = \<lparr>d_edges = edge_count ek_src (mt_out m),
     d_nodes_gone = set (mt_tombstoned_nodes m), d_edges_gone = set (mt_tombstoned_edges m),
     d_node_props = prop_effect (mt_node_properties m) (mt_removed_node_properties m),
     d_edge_props = prop_effect (mt_edge_properties m) (mt_removed_edge_properties m)\<rparr>"

definition mt_inv :: "memtable \<Rightarrow> bool" where
  "mt_inv m \<longleftrightarrow>
     edges_inv ek_src (mt_out m) \<and> edges_inv ek_dst (mt_in m) \<and>
     edge_count ek_src (mt_out m) = edge_count ek_dst (mt_in m) \<and>
     bs_wf (mt_tombstoned_nodes m) \<and> bs_wf (mt_tombstoned_edges m) \<and>
     props_inv (mt_node_properties m) (mt_removed_node_properties m) \<and>
     props_inv (mt_edge_properties m) (mt_removed_edge_properties m)"

lemma mt_default_ok: "mt_inv mt_default" "mt_abs mt_default = delta_empty"
  by (auto simp: mt_inv_def mt_default_def mt_abs_def delta_empty_def edges_inv_def edge_count_def
      hm_list_def props_inv_def prop_effect_def marked_def prop_get_def fun_eq_iff)

lemmas mt_op_defs = mt_create_edge_def mt_tombstone_node_def mt_tombstone_edge_def
  mt_set_node_property_def mt_remove_node_property_def mt_set_edge_property_def mt_remove_edge_property_def

lemma mt_replay_inv: "mt_inv m \<Longrightarrow> mt_inv (mt_replay r m)"
  by (cases r) (simp_all add: mt_inv_def mt_op_defs Let_def edges_inv_entry edges_inv_retain
      edge_count_entry edge_count_retain props_inv_set props_inv_unset)

lemma mt_replay_abs: "mt_abs (mt_replay r m) = delta_apply r (mt_abs m)"
  by (cases r) (simp_all add: mt_abs_def mt_op_defs Let_def edge_count_entry edge_count_retain
      prop_effect_set prop_effect_unset)

lemma mt_fold:
  assumes "mt_inv m"
  shows "mt_inv (fold mt_replay rs m) \<and> mt_abs (fold mt_replay rs m) = fold delta_apply rs (mt_abs m)"
  using assms by (induction rs arbitrary: m) (simp_all add: mt_replay_inv mt_replay_abs)

section \<open>Freezing\<close>

definition run_prop_effect ::
  "('o, (rstring, property_value) btmap) btmap \<Rightarrow> ('o, rstring list) btmap \<Rightarrow>
   'o \<Rightarrow> rstring \<Rightarrow> property_value option option" where
  "run_prop_effect props gone x k =
     (if bset_has gone x k then Some None
      else map_option Some (Option.bind (bt_get props x) (\<lambda>ps. bt_get ps k)))"

definition run_abs :: "l0_run \<Rightarrow> delta" where
  "run_abs r = \<lparr>d_edges = (\<lambda>e. count_list (edges_for_src (run_edges_by_src r) (ek_src e)) e),
     d_nodes_gone = set (run_tombstoned_nodes r), d_edges_gone = set (run_tombstoned_edges r),
     d_node_props = run_prop_effect (run_node_properties r) (run_tombstoned_node_properties r),
     d_edge_props = run_prop_effect (run_edge_properties r) (run_tombstoned_edge_properties r)\<rparr>"

definition run_edges_inv :: "(edge_key \<Rightarrow> u32) \<Rightarrow> (u32, edge_key list) btmap \<Rightarrow> bool" where
  "run_edges_inv sel m \<longleftrightarrow> bt_wf m \<and>
     (\<forall>k es. bt_get m k = Some es \<longrightarrow> es \<noteq> [] \<and> sorted es \<and> (\<forall>e \<in> set es. sel e = k))"

definition run_props_inv ::
  "('o::linorder, (rstring, property_value) btmap) btmap \<Rightarrow> ('o, rstring list) btmap \<Rightarrow> bool" where
  "run_props_inv props gone \<longleftrightarrow>
     bt_wf props \<and> (\<forall>x ps. bt_get props x = Some ps \<longrightarrow> bt_wf ps) \<and>
     bt_wf gone \<and> (\<forall>x ks. bt_get gone x = Some ks \<longrightarrow> bs_wf ks) \<and>
     (\<forall>x k. bset_has gone x k \<longrightarrow> Option.bind (bt_get props x) (\<lambda>ps. bt_get ps k) = None)"

definition run_inv :: "l0_run \<Rightarrow> bool" where
  "run_inv r \<longleftrightarrow>
     run_edges_inv ek_src (run_edges_by_src r) \<and> run_edges_inv ek_dst (run_edges_by_dst r) \<and>
     (\<forall>e. count_list (edges_for_src (run_edges_by_src r) (ek_src e)) e =
          count_list (edges_for_dst (run_edges_by_dst r) (ek_dst e)) e) \<and>
     bs_wf (run_tombstoned_nodes r) \<and> bs_wf (run_tombstoned_edges r) \<and>
     run_props_inv (run_node_properties r) (run_tombstoned_node_properties r) \<and>
     run_props_inv (run_edge_properties r) (run_tombstoned_edge_properties r)"

lemma count_list_sort [simp]: "count_list (sort xs) x = count_list xs x"
  by (metis count_mset mset_sort)

lemma sorted_count_eq:
  assumes "sorted xs" "sorted ys" "\<And>e. count_list xs e = count_list ys e"
  shows "xs = (ys :: 'a::linorder list)"
proof -
  have "mset xs = mset ys" by (rule multiset_eqI) (simp add: count_mset assms(3))
  then show ?thesis using assms(1,2) by (metis properties_for_sort sorted_sort_id)
qed

lemma sort_eq_Nil [simp]: "sort xs = [] \<longleftrightarrow> xs = []"
  by (metis length_0_conv length_sort)

lemma bt_get_collect_map:
  assumes "hm_wf m"
  shows "bt_get (bt_collect (map (\<lambda>(k, v). (k, f v)) m)) k = map_option f (hm_get m k)"
proof -
  have "hm_wf (map (\<lambda>(k, v). (k, f v)) m)" using assms by (simp add: hm_wf_def comp_def case_prod_beta)
  then show ?thesis by (simp add: bt_get_collect_hm) (simp add: hm_get_def map_of_map)
qed

lemma freeze_edges:
  assumes "edges_inv sel m"
  defines "f \<equiv> bt_collect (map (\<lambda>(k, es). (k, sort es)) m)"
  shows "run_edges_inv sel f"
    "(case bt_get f k of None \<Rightarrow> [] | Some es \<Rightarrow> es) = sort (hm_list m k)"
  using assms by (auto simp: edges_inv_def run_edges_inv_def bt_get_collect_map hm_list_def
      split: option.split)

lemma freeze_props:
  assumes "props_inv props removed"
  defines "p \<equiv> bt_collect (map (\<lambda>(k, ps). (k, bt_collect ps)) props)"
  shows "run_props_inv p (bt_collect removed)"
    "run_prop_effect p (bt_collect removed) = prop_effect props removed"
proof -
  have wf: "hm_wf props" "hm_wf removed" using assms by (simp_all add: props_inv_def)
  have m: "bset_has (bt_collect removed) x k = marked removed x k" for x k
    by (simp add: bset_has_def marked_def bt_get_collect_hm [OF wf(2)] split: option.split)
  have g: "Option.bind (bt_get p x) (\<lambda>ps. bt_get ps k) = prop_get props x k" for x k
    using assms by (auto simp: p_def bt_get_collect_map prop_get_def props_inv_def bt_get_collect_hm
        split: option.split bind_split)
  show "run_prop_effect p (bt_collect removed) = prop_effect props removed"
    by (simp add: run_prop_effect_def prop_effect_def m g fun_eq_iff)
  have "bt_wf p" "\<forall>x ps. bt_get p x = Some ps \<longrightarrow> bt_wf ps"
    by (auto simp: p_def bt_get_collect_map [OF wf(1)])
  moreover have "\<forall>x ks. bt_get (bt_collect removed) x = Some ks \<longrightarrow> bs_wf ks"
    using assms by (simp add: bt_get_collect_hm [OF wf(2)] props_inv_def)
  moreover have "\<forall>x k. marked removed x k \<longrightarrow> prop_get props x k = None"
    using assms(1) by (simp add: props_inv_def)
  ultimately show "run_props_inv p (bt_collect removed)"
    by (simp add: run_props_inv_def m g)
qed

lemma freeze_ok:
  assumes inv: "mt_inv m"
  shows "run_inv (freeze_into_run txid m)" "run_abs (freeze_into_run txid m) = mt_abs m"
proof -
  have e: "edges_inv ek_src (mt_out m)" "edges_inv ek_dst (mt_in m)"
    "edge_count ek_src (mt_out m) = edge_count ek_dst (mt_in m)"
    and p: "props_inv (mt_node_properties m) (mt_removed_node_properties m)"
      "props_inv (mt_edge_properties m) (mt_removed_edge_properties m)"
    and b: "bs_wf (mt_tombstoned_nodes m)" "bs_wf (mt_tombstoned_edges m)"
    using inv unfolding mt_inv_def by blast+
  note fe = freeze_edges [OF e(1)] freeze_edges [OF e(2)] and fp = freeze_props [OF p(1)] freeze_props [OF p(2)]
  have c: "count_list (hm_list (mt_out m) (ek_src e)) e = count_list (hm_list (mt_in m) (ek_dst e)) e" for e
    using fun_cong [OF e(3), of e] by (simp add: edge_count_def)
  show "run_inv (freeze_into_run txid m)"
    by (simp add: run_inv_def freeze_into_run_def edges_for_src_def edges_for_dst_def fe fp b c)
  show "run_abs (freeze_into_run txid m) = mt_abs m"
    by (simp add: run_abs_def mt_abs_def freeze_into_run_def edges_for_src_def fe fp edge_count_def fun_eq_iff)
qed

text \<open>The buffer and the run of a sequence of operations.\<close>

definition buffer_of :: "wal_record list \<Rightarrow> memtable" where
  "buffer_of rs = fold mt_replay rs mt_default"

definition run_of :: "u64 \<Rightarrow> wal_record list \<Rightarrow> l0_run" where
  "run_of txid rs = freeze_into_run txid (buffer_of rs)"

lemma buffer_ok: "mt_inv (buffer_of rs)" "mt_abs (buffer_of rs) = fold delta_apply rs delta_empty"
  using mt_fold [OF mt_default_ok(1), of rs] by (simp_all add: buffer_of_def mt_default_ok)

lemma run_of_ok: "run_inv (run_of txid rs)" "run_abs (run_of txid rs) = fold delta_apply rs delta_empty"
  by (simp_all add: run_of_def freeze_ok buffer_ok)

text \<open>
  C3. A transaction's operations, buffered and frozen, are exactly what the run says: for
  every edge the number of times it was created since it was last deleted, the deleted nodes
  and edges, and for every property the last thing done to it. The run is well-formed: its
  indexes by source and by target list the same edges, sorted.
\<close>

theorem run_refines_transaction:
  "run_inv (run_of txid rs) \<and> run_abs (run_of txid rs) = fold delta_apply rs delta_empty"
  by (simp add: run_of_ok)

section \<open>From the run to the log and back\<close>

lemma count_concat_keyed:
  assumes "distinct (map fst m)" "\<forall>(k, es) \<in> set m. \<forall>e \<in> set es. sel e = k"
  shows "count_list (concat (map snd m)) e = count_list (case map_of m (sel e) of None \<Rightarrow> [] | Some es \<Rightarrow> es) e"
  using assms
proof (induction m)
  case (Cons p m)
  obtain k es where p: "p = (k, es)" by (cases p)
  show ?case
  proof (cases "sel e = k")
    case True
    then have "map_of m (sel e) = None" using Cons.prems(1) by (simp add: p map_of_eq_None_iff)
    with Cons True show ?thesis by (simp add: p)
  next
    case False
    then have "e \<notin> set es" using Cons.prems(2) by (auto simp: p)
    with Cons False show ?thesis by (simp add: p count_list_0_iff [THEN iffD2])
  qed
qed simp

lemma count_iter_edges:
  assumes "run_inv r"
  shows "count_list (iter_edges r) e = d_edges (run_abs r) e"
proof -
  have wf: "bt_wf (run_edges_by_src r)"
    and k: "\<forall>k es. bt_get (run_edges_by_src r) k = Some es \<longrightarrow> (\<forall>e \<in> set es. ek_src e = k)"
    using assms by (simp_all add: run_inv_def run_edges_inv_def)
  have "\<forall>(k, es) \<in> set (run_edges_by_src r). \<forall>e \<in> set es. ek_src e = k"
    using k by (auto simp: bt_mem_iff [OF wf])
  from count_concat_keyed [OF bt_wf_distinct [OF wf] this]
  show ?thesis by (simp add: iter_edges_def run_abs_def edges_for_src_def bt_get_def)
qed

lemma fold_create:
  "fold delta_apply (map (\<lambda>e. CreateEdge (ek_src e) (ek_rel e) (ek_dst e)) es) d =
     d\<lparr>d_edges := \<lambda>e. d_edges d e + count_list es e\<rparr>"
  by (induction es arbitrary: d) (simp_all add: fun_eq_iff)

lemma fold_gone_nodes:
  "fold delta_apply (map TombstoneNode ns) d = d\<lparr>d_nodes_gone := d_nodes_gone d \<union> set ns\<rparr>"
  by (induction ns arbitrary: d) simp_all

lemma fold_gone_edges:
  "fold delta_apply (map (\<lambda>e. TombstoneEdge (ek_src e) (ek_rel e) (ek_dst e)) es) d =
     d\<lparr>d_edges := \<lambda>e. if e \<in> set es then 0 else d_edges d e, d_edges_gone := d_edges_gone d \<union> set es\<rparr>"
  by (induction es arbitrary: d) (simp_all add: fun_eq_iff)

lemma fold_upd2_inner:
  "distinct (map fst ps) \<Longrightarrow>
   fold (\<lambda>(k, v). upd2 x k (h v)) ps g y j =
     (if y = x then case map_of ps j of None \<Rightarrow> g y j | Some v \<Rightarrow> h v else g y j)"
proof (induction ps arbitrary: g)
  case (Cons p ps)
  then show ?case by (cases p) (auto simp: upd2_def map_of_eq_None_iff [THEN iffD2] split: option.split)
qed simp

lemma fold_upd2:
  "distinct (map fst m) \<Longrightarrow> \<forall>(x, ps) \<in> set m. distinct (map fst ps) \<Longrightarrow>
   fold (\<lambda>(x, ps). fold (\<lambda>(k, v). upd2 x k (h v)) ps) m g y j =
     (case Option.bind (map_of m y) (\<lambda>ps. map_of ps j) of None \<Rightarrow> g y j | Some v \<Rightarrow> h v)"
proof (induction m arbitrary: g)
  case (Cons p m)
  obtain x ps where p: "p = (x, ps)" by (cases p)
  have "y = x \<Longrightarrow> map_of m y = None" using Cons.prems(1) by (auto simp: p map_of_eq_None_iff)
  with Cons show ?case by (auto simp: p fold_upd2_inner split: option.split)
qed simp

lemma fold_concat_map: "fold f (concat (map g xs)) = fold (\<lambda>x. fold f (g x)) xs"
  by (induction xs) (simp_all add: fun_eq_iff)

lemma fold_map_pairs: "fold f (map (\<lambda>(k, v). g k v) ps) = fold (\<lambda>(k, v). f (g k v)) ps"
  by (induction ps) (auto simp: fun_eq_iff)

lemma fold_set_node:
  "fold delta_apply (map (\<lambda>(n, k, v). SetNodeProperty n k v) l) d =
     d\<lparr>d_node_props := fold (\<lambda>(n, k, v). upd2 n k (Some (Some v))) l (d_node_props d)\<rparr>"
  by (induction l arbitrary: d) auto

lemma fold_remove_node:
  "fold delta_apply (map (\<lambda>(n, k). RemoveNodeProperty n k) l) d =
     d\<lparr>d_node_props := fold (\<lambda>(n, k). upd2 n k (Some None)) l (d_node_props d)\<rparr>"
  by (induction l arbitrary: d) auto

lemma fold_set_edge:
  "fold delta_apply (map (\<lambda>(s, r, t, k, v). SetEdgeProperty s r t k v) l) d =
     d\<lparr>d_edge_props := fold (\<lambda>(s, r, t, k, v). upd2 (EdgeKey s r t) k (Some (Some v))) l (d_edge_props d)\<rparr>"
  by (induction l arbitrary: d) auto

lemma fold_remove_edge:
  "fold delta_apply (map (\<lambda>(s, r, t, k). RemoveEdgeProperty s r t k) l) d =
     d\<lparr>d_edge_props := fold (\<lambda>(s, r, t, k). upd2 (EdgeKey s r t) k (Some None)) l (d_edge_props d)\<rparr>"
  by (induction l arbitrary: d) auto

lemma fold_marks_inner:
  "fold (\<lambda>k. upd2 x k c) ks g y j = (if y = x \<and> j \<in> set ks then c else g y j)"
  by (induction ks arbitrary: g) (auto simp: upd2_def)

lemma fold_marks:
  "hm_wf m \<Longrightarrow> fold (\<lambda>(x, ks). fold (\<lambda>k. upd2 x k c) ks) m g y j = (if marked m y j then c else g y j)"
proof (induction m arbitrary: g)
  case (Cons p m)
  obtain x ks where p: "p = (x, ks)" by (cases p)
  have "y = x \<Longrightarrow> map_of m y = None" using Cons.prems by (auto simp: p hm_wf_def map_of_eq_None_iff)
  moreover have "hm_wf m" using Cons.prems by (simp add: hm_wf_def)
  ultimately show ?case
    using Cons.IH by (auto simp: p fold_marks_inner marked_def hm_get_def)
qed (simp add: marked_def)

lemma replay_props:
  assumes inv: "props_inv props removed"
  shows "fold (\<lambda>(x, ks). fold (\<lambda>k. upd2 x k (Some None)) ks) removed
      (fold (\<lambda>(x, ps). fold (\<lambda>(k, v). upd2 x k (Some (Some v))) ps) props (\<lambda>_ _. None)) =
    prop_effect props removed"
proof (intro ext)
  fix x k
  have wf: "hm_wf props" "hm_wf removed" "\<forall>(x, ps) \<in> set props. distinct (map fst ps)"
    using inv by (auto simp: props_inv_def hm_mem_iff) (simp add: hm_wf_def)
  have "distinct (map fst props)" using wf(1) by (simp add: hm_wf_def)
  from fold_upd2 [OF this wf(3), of "\<lambda>v. Some (Some v)" "\<lambda>_ _. None" x k]
  show "fold (\<lambda>(x, ks). fold (\<lambda>k. upd2 x k (Some None)) ks) removed
      (fold (\<lambda>(x, ps). fold (\<lambda>(k, v). upd2 x k (Some (Some v))) ps) props (\<lambda>_ _. None)) x k =
    prop_effect props removed x k"
    by (simp add: fold_marks [OF wf(2)] prop_effect_def prop_get_def hm_get_def split: option.split)
qed

lemma replay_delta:
  assumes inv: "mt_inv m"
  shows "fold delta_apply (graph_records m (freeze_into_run txid m)) delta_empty =
    (mt_abs m)\<lparr>d_edges := \<lambda>e. if e \<in> d_edges_gone (mt_abs m) then 0 else d_edges (mt_abs m) e\<rparr>"
proof -
  let ?r = "freeze_into_run txid m"
  have p: "props_inv (mt_node_properties m) (mt_removed_node_properties m)"
    "props_inv (mt_edge_properties m) (mt_removed_edge_properties m)"
    using inv unfolding mt_inv_def by blast+
  have n: "fold (\<lambda>(n, k, v). upd2 n k (Some (Some v))) (node_properties_for_wal m) g =
      fold (\<lambda>(x, ps). fold (\<lambda>(k, v). upd2 x k (Some (Some v))) ps) (mt_node_properties m) g"
    "fold (\<lambda>(n, k). upd2 n k (Some None)) (removed_node_properties_for_wal m) g =
      fold (\<lambda>(x, ks). fold (\<lambda>k. upd2 x k (Some None)) ks) (mt_removed_node_properties m) g" for g
    by (simp_all add: node_properties_for_wal_def removed_node_properties_for_wal_def fold_concat_map
        split_def fold_map comp_def)
  have e: "fold (\<lambda>(s, r, t, k, v). upd2 (EdgeKey s r t) k (Some (Some v))) (edge_properties_for_wal m) g =
      fold (\<lambda>(x, ps). fold (\<lambda>(k, v). upd2 x k (Some (Some v))) ps) (mt_edge_properties m) g"
    "fold (\<lambda>(s, r, t, k). upd2 (EdgeKey s r t) k (Some None)) (removed_edge_properties_for_wal m) g =
      fold (\<lambda>(x, ks). fold (\<lambda>k. upd2 x k (Some None)) ks) (mt_removed_edge_properties m) g" for g
    by (simp_all add: edge_properties_for_wal_def removed_edge_properties_for_wal_def fold_concat_map
        split_def fold_map comp_def)
  have c: "count_list (iter_edges ?r) e = d_edges (mt_abs m) e" for e
    using count_iter_edges [OF freeze_ok(1) [OF inv]] by (simp add: freeze_ok(2) [OF inv])
  have t: "iter_tombstoned_nodes ?r = mt_tombstoned_nodes m" "iter_tombstoned_edges ?r = mt_tombstoned_edges m"
    by (simp_all add: iter_tombstoned_nodes_def iter_tombstoned_edges_def freeze_into_run_def)
  show ?thesis
    by (simp add: graph_records_def fold_create fold_gone_nodes fold_gone_edges fold_set_node fold_remove_node
        fold_set_edge fold_remove_edge n e c t replay_props [OF p(1)] replay_props [OF p(2)] delta_empty_def)
       (simp add: mt_abs_def fun_eq_iff)
qed

text \<open>
  C13. Recovery of a transaction from its log records. The records commit writes, replayed into a
  fresh buffer and frozen, give a run that says the same as the one published, except that
  an edge the transaction deleted and created again is no longer there: commit writes all
  creations before all deletions.
\<close>

theorem replayed_run_exact:
  "run_abs (run_of txid (graph_records (buffer_of rs) (run_of txid rs))) =
     (run_abs (run_of txid rs))\<lparr>d_edges := \<lambda>e.
        if e \<in> set (run_tombstoned_edges (run_of txid rs)) then 0 else d_edges (run_abs (run_of txid rs)) e\<rparr>"
proof -
  have g: "set (run_tombstoned_edges (run_of txid rs)) = d_edges_gone (mt_abs (buffer_of rs))"
    by (simp add: run_of_def freeze_into_run_def mt_abs_def)
  have b: "fold delta_apply rs delta_empty = mt_abs (buffer_of rs)" by (simp add: buffer_ok)
  show ?thesis
    unfolding run_of_ok(2) g b using replay_delta [OF buffer_ok(1), of rs txid] by (simp flip: run_of_def)
qed

end
