(* ===== verification/Csr.thy ===== *)
theory Csr
  imports MemTable
begin

text \<open>
  Compressed edge segments, nervusdb-storage/src/csr.rs: adjacency lists by source and, built when the
  segment is persisted, by target; and their pages in the file. Indexing out of range is a
  \<open>Panic\<close>, and so is an overflowing u32 addition, as in a build with overflow checks.
\<close>

section \<open>Definitions\<close>

record edge_record =
  er_rel :: u32
  er_dst :: u32

record csr_segment =
  cs_id :: u64
  cs_meta_page_id :: u64
  cs_min_src :: u32
  cs_max_src :: u32
  cs_min_dst :: u32
  cs_max_dst :: u32
  cs_offsets :: "u64 list"
  cs_edges :: "edge_record list"
  cs_in_offsets :: "u64 list"
  cs_in_edges :: "edge_record list"

definition vec_index :: "'a list \<Rightarrow> nat \<Rightarrow> 'a result" where
  "vec_index xs i = (case vec_get xs i of None \<Rightarrow> Inl (Panic ''index out of bounds'') | Some x \<Rightarrow> Inr x)"

definition vec_set :: "'a list \<Rightarrow> nat \<Rightarrow> 'a \<Rightarrow> 'a list result" where
  "vec_set xs i v = (if i < length xs then Inr (xs[i := v]) else Inl (Panic ''index out of bounds''))"

text \<open>\<open>&xs[start..stop]\<close>\<close>

definition slice_range :: "'a list \<Rightarrow> nat \<Rightarrow> nat \<Rightarrow> 'a list result" where
  "slice_range xs start stop =
    (if start \<le> stop \<and> stop \<le> length xs then Inr (take (stop - start) (drop start xs))
     else Inl (Panic ''slice index out of range''))"

definition rel_matches :: "u32 option \<Rightarrow> u32 \<Rightarrow> bool" where
  "rel_matches rel r = (case rel of None \<Rightarrow> True | Some x \<Rightarrow> r = x)"

definition csr_neighbors :: "csr_segment \<Rightarrow> u32 \<Rightarrow> u32 option \<Rightarrow> edge_key list result" where
  "csr_neighbors seg src rel =
    (if src < cs_min_src seg \<or> cs_max_src seg < src then Inr []
     else
       let idx = unat (src - cs_min_src seg)
       in rbind (vec_index (cs_offsets seg) idx) (\<lambda>start.
          rbind (vec_index (cs_offsets seg) (idx + 1)) (\<lambda>stop.
          rbind (slice_range (cs_edges seg) (unat start) (unat stop)) (\<lambda>es.
          Inr (map (\<lambda>e. EdgeKey src (er_rel e) (er_dst e)) (filter (\<lambda>e. rel_matches rel (er_rel e)) es))))))"

definition csr_incoming_neighbors :: "csr_segment \<Rightarrow> u32 \<Rightarrow> u32 option \<Rightarrow> edge_key list result" where
  "csr_incoming_neighbors seg dst rel =
    (if dst < cs_min_dst seg \<or> cs_max_dst seg < dst then Inr []
     else
       let idx = unat (dst - cs_min_dst seg)
       in rbind (vec_index (cs_in_offsets seg) idx) (\<lambda>start.
          rbind (vec_index (cs_in_offsets seg) (idx + 1)) (\<lambda>stop.
          rbind (slice_range (cs_in_edges seg) (unat start) (unat stop)) (\<lambda>es.
          Inr (map (\<lambda>e. EdgeKey (er_dst e) (er_rel e) dst) (filter (\<lambda>e. rel_matches rel (er_rel e)) es))))))"

subsection \<open>The reverse index\<close>

definition edge_src_at :: "csr_segment \<Rightarrow> nat \<Rightarrow> u32" where
  "edge_src_at seg idx =
    (case List.find (\<lambda>i. unat (cs_offsets seg ! i) \<le> idx \<and> idx < unat (cs_offsets seg ! (i + 1)))
            [0..<length (cs_offsets seg) - 1] of
       None \<Rightarrow> cs_min_src seg
     | Some i \<Rightarrow> cs_min_src seg + of_nat i)"

definition edges_with_src :: "csr_segment \<Rightarrow> edge_key list" where
  "edges_with_src seg =
     map (\<lambda>(idx, e). EdgeKey (edge_src_at seg idx) (er_rel e) (er_dst e)) (enumerate 0 (cs_edges seg))"

text \<open>The sort key \<open>(dst, rel, src)\<close>, as the edge key with these fields in this order.\<close>

definition rev_key :: "edge_key \<Rightarrow> edge_key" where
  "rev_key e = EdgeKey (ek_dst e) (ek_rel e) (ek_src e)"

lemma unat_succ: "(w :: 'a::len word) \<noteq> - 1 \<Longrightarrow> unat (w + 1) = unat w + 1"
  using unatSuc [of w] by (metis Suc_eq_plus1 add.commute add_eq_0_iff)

lemma unat_succ_less: "(w :: 'a::len word) < v \<Longrightarrow> unat (w + 1) = unat w + 1"
  using unat_succ by (metis word_order.extremum_strict)

function fill_below :: "u32 \<Rightarrow> u32 \<Rightarrow> u64 \<Rightarrow> u32 \<Rightarrow> u64 list \<Rightarrow> (u32 \<times> u64 list) result" where
  "fill_below min_dst dst cnt current_dst in_offsets =
    (if current_dst < dst then
       let current_dst = current_dst + 1
       in rbind (vec_set in_offsets (unat (current_dst - min_dst)) cnt) (\<lambda>in_offsets.
          fill_below min_dst dst cnt current_dst in_offsets)
     else Inr (current_dst, in_offsets))"
  by pat_completeness auto
termination
proof (relation "measure (\<lambda>(_, dst, _, cur, _). unat dst - unat cur)", goal_cases)
  case (2 m dst c cur offs x offs')
  then have "unat (cur + 1) = unat cur + 1" by (simp add: unat_succ_less)
  with 2 show ?case by (simp add: word_less_nat_alt)
qed simp

fun reverse_edges ::
  "u32 \<Rightarrow> edge_key list \<Rightarrow> u32 \<Rightarrow> u64 \<Rightarrow> u64 list \<Rightarrow> edge_record list \<Rightarrow>
   (u32 \<times> u64 \<times> u64 list \<times> edge_record list) result" where
  "reverse_edges min_dst [] current_dst cnt in_offsets in_edges =
     Inr (current_dst, cnt, in_offsets, in_edges)"
| "reverse_edges min_dst (e # es) current_dst cnt in_offsets in_edges =
     rbind (fill_below min_dst (ek_dst e) cnt current_dst in_offsets) (\<lambda>(current_dst, in_offsets).
     reverse_edges min_dst es current_dst (cnt + 1) in_offsets
       (in_edges @ [\<lparr>er_rel = ek_rel e, er_dst = ek_src e\<rparr>]))"

function fill_last :: "u32 \<Rightarrow> u32 \<Rightarrow> u32 \<Rightarrow> u64 \<Rightarrow> u32 \<Rightarrow> u64 list \<Rightarrow> u64 list result" where
  "fill_last min_dst max_dst rng cnt current_dst in_offsets =
    (if current_dst \<le> max_dst then
       if current_dst = - 1 then Inl (Panic ''attempt to add with overflow'')
       else
         let current_dst = current_dst + 1
         in rbind (vec_set in_offsets (unat (min (current_dst - min_dst) rng)) cnt) (\<lambda>in_offsets.
            fill_last min_dst max_dst rng cnt current_dst in_offsets)
     else Inr in_offsets)"
  by pat_completeness auto
termination
proof (relation "measure (\<lambda>(_, _, _, _, cur, _). 2 ^ 32 - unat cur)", goal_cases)
  case (2 m mx rng c cur offs x offs')
  then have "unat (cur + 1) = unat cur + 1" by (simp add: unat_succ)
  moreover have "unat cur < 2 ^ 32" using unat_bound [of cur] by simp
  ultimately show ?case using 2 by simp
qed simp

declare fill_below.simps [simp del] fill_last.simps [simp del]

definition build_reverse :: "csr_segment \<Rightarrow> csr_segment result" where
  "build_reverse seg =
    (if cs_edges seg \<noteq> [] \<and> cs_in_edges seg = [] then
       if cs_offsets seg = [] then Inl (Panic ''attempt to subtract with overflow'')
       else
         let es = sort_key rev_key (edges_with_src seg)
         in case es of
              [] \<Rightarrow> Inr seg
            | first # _ \<Rightarrow>
                let min_dst = ek_dst first;
                    max_dst = ek_dst (last es)
                in if max_dst - min_dst = - 1 then Inl (Panic ''attempt to add with overflow'')
                   else
                     let rng = max_dst - min_dst + 1;
                         in_offsets = replicate (unat rng + 1) 0
                     in rbind (reverse_edges min_dst es min_dst 0 in_offsets []) (\<lambda>(current_dst, cnt, in_offsets, in_edges).
                        rbind (fill_last min_dst max_dst rng cnt current_dst in_offsets) (\<lambda>in_offsets.
                        Inr (seg\<lparr>cs_min_dst := min_dst, cs_max_dst := max_dst,
                                 cs_in_offsets := in_offsets, cs_in_edges := in_edges\<rparr>)))
     else Inr seg)"

subsection \<open>Pages\<close>

definition encode_offsets :: "u64 list \<Rightarrow> bytes" where
  "encode_offsets offsets = concat (map to_le offsets)"

definition decode_offsets :: "bytes \<Rightarrow> nat \<Rightarrow> u64 list result" where
  "decode_offsets bs len =
    (if 2 ^ 64 \<le> len * 8 then Inl (Panic ''attempt to multiply with overflow'')
     else if length bs < len * 8 then Inl (WalProtocol ''offset blob too small'')
     else Inr (map (\<lambda>i. from_le (subslice (i * 8) 8 bs)) [0..<len]))"

definition encode_edge :: "edge_record \<Rightarrow> bytes" where
  "encode_edge e = to_le (er_rel e) @ to_le (er_dst e)"

definition decode_edge :: "bytes \<Rightarrow> edge_record" where
  "decode_edge bs = \<lparr>er_rel = from_le (subslice 0 4 bs), er_dst = from_le (subslice 4 4 bs)\<rparr>"

definition encode_edges :: "edge_record list \<Rightarrow> bytes" where
  "encode_edges es = concat (map encode_edge es)"

definition decode_edges :: "bytes \<Rightarrow> nat \<Rightarrow> edge_record list result" where
  "decode_edges bs len =
    (if 2 ^ 64 \<le> len * 8 then Inl (Panic ''attempt to multiply with overflow'')
     else if length bs < len * 8 then Inl (WalProtocol ''edge blob too small'')
     else Inr (map (\<lambda>i. decode_edge (subslice (i * 8) 8 bs)) [0..<len]))"

function write_blob_pages :: "bytes \<Rightarrow> pager \<Rightarrow> (u64 list \<times> pager) result" where
  "write_blob_pages [] p = Inr ([], p)"
| "write_blob_pages (b # bs) p =
     rbind (allocate_page p) (\<lambda>(page_id, p).
       let n = min (length (b # bs)) PAGE_SIZE;
           page = overwrite 0 (take n (b # bs)) zero_page
       in rbind (write_page page_id page p) (\<lambda>p.
          rbind (write_blob_pages (drop n (b # bs)) p) (\<lambda>(pages, p).
          Inr (page_id # pages, p))))"
  by pat_completeness auto
termination
  by (relation "measure (\<lambda>(bs, _). length bs)") (simp_all add: PAGE_SIZE_def)

fun read_blob_pages :: "pager \<Rightarrow> u64 list \<Rightarrow> bytes result" where
  "read_blob_pages p [] = Inr []"
| "read_blob_pages p (i # is) =
     rbind (read_page p i) (\<lambda>page. rbind (read_blob_pages p is) (\<lambda>rest. Inr (page @ rest)))"

definition META_MAGIC :: bytes where
  "META_MAGIC = [0x4E, 0x44, 0x42, 0x43, 0x53, 0x52, 0x76, 0x32]"

definition encode_meta :: "csr_segment \<Rightarrow> u64 list \<Rightarrow> u64 list \<Rightarrow> u64 list \<Rightarrow> u64 list \<Rightarrow> bytes result" where
  "encode_meta seg offsets_pages edges_pages in_offsets_pages in_edges_pages =
    (let needed = 80 + (length offsets_pages + length edges_pages + length in_offsets_pages + length in_edges_pages) * 8
     in if PAGE_SIZE < needed then Inl (WalProtocol ''csr meta page overflow'')
        else Inr (overwrite 0
          (META_MAGIC @ to_le (cs_id seg) @
           to_le (cs_min_src seg) @ to_le (cs_max_src seg) @ to_le (cs_min_dst seg) @ to_le (cs_max_dst seg) @
           to_le (of_nat (length (cs_offsets seg)) :: u64) @ to_le (of_nat (length (cs_edges seg)) :: u64) @
           to_le (of_nat (length (cs_in_offsets seg)) :: u64) @ to_le (of_nat (length (cs_in_edges seg)) :: u64) @
           to_le (of_nat (length offsets_pages) :: u32) @ to_le (of_nat (length edges_pages) :: u32) @
           to_le (of_nat (length in_offsets_pages) :: u32) @ to_le (of_nat (length in_edges_pages) :: u32) @
           concat (map to_le (offsets_pages @ edges_pages @ in_offsets_pages @ in_edges_pages))) zero_page))"

definition persist :: "csr_segment \<Rightarrow> pager \<Rightarrow> (csr_segment \<times> pager) result" where
  "persist seg p =
     rbind (build_reverse seg) (\<lambda>seg.
     rbind (write_blob_pages (encode_offsets (cs_offsets seg)) p) (\<lambda>(offsets_pages, p).
     rbind (write_blob_pages (encode_edges (cs_edges seg)) p) (\<lambda>(edges_pages, p).
     rbind (write_blob_pages (encode_offsets (cs_in_offsets seg)) p) (\<lambda>(in_offsets_pages, p).
     rbind (write_blob_pages (encode_edges (cs_in_edges seg)) p) (\<lambda>(in_edges_pages, p).
     rbind (allocate_page p) (\<lambda>(meta_page_id, p).
     let seg = seg\<lparr>cs_meta_page_id := meta_page_id\<rparr>
     in rbind (encode_meta seg offsets_pages edges_pages in_offsets_pages in_edges_pages) (\<lambda>meta_page.
        rbind (write_page meta_page_id meta_page p) (\<lambda>p. Inr (seg, p)))))))))"

definition read_page_ids :: "bytes \<Rightarrow> nat \<Rightarrow> nat \<Rightarrow> u64 list" where
  "read_page_ids meta_page offset n = map (\<lambda>i. from_le (subslice (offset + i * 8) 8 meta_page)) [0..<n]"

definition decode_segment :: "bytes \<Rightarrow> pager \<Rightarrow> csr_segment result" where
  "decode_segment meta_page p =
    (if subslice 0 8 meta_page \<noteq> META_MAGIC then Inl (WalProtocol ''invalid csr meta magic'')
     else
       let u32_at = (\<lambda>i. from_le (subslice i 4 meta_page) :: u32);
           u64_at = (\<lambda>i. from_le (subslice i 8 meta_page) :: u64);
           n1 = unat (u32_at 64); n2 = unat (u32_at 68); n3 = unat (u32_at 72); n4 = unat (u32_at 76)
       in if PAGE_SIZE < 80 + (n1 + n2 + n3 + n4) * 8 then Inl (WalProtocol ''csr meta page overflow'')
          else
            rbind (read_blob_pages p (read_page_ids meta_page 80 n1)) (\<lambda>offsets_bytes.
            rbind (read_blob_pages p (read_page_ids meta_page (80 + n1 * 8) n2)) (\<lambda>edges_bytes.
            rbind (read_blob_pages p (read_page_ids meta_page (80 + (n1 + n2) * 8) n3)) (\<lambda>in_offsets_bytes.
            rbind (read_blob_pages p (read_page_ids meta_page (80 + (n1 + n2 + n3) * 8) n4)) (\<lambda>in_edges_bytes.
            rbind (decode_offsets offsets_bytes (unat (u64_at 32))) (\<lambda>offsets.
            rbind (decode_edges edges_bytes (unat (u64_at 40))) (\<lambda>es.
            rbind (decode_offsets in_offsets_bytes (unat (u64_at 48))) (\<lambda>in_offsets.
            rbind (decode_edges in_edges_bytes (unat (u64_at 56))) (\<lambda>in_edges.
            Inr \<lparr>cs_id = u64_at 8, cs_meta_page_id = 0,
                 cs_min_src = u32_at 16, cs_max_src = u32_at 20,
                 cs_min_dst = u32_at 24, cs_max_dst = u32_at 28,
                 cs_offsets = offsets, cs_edges = es,
                 cs_in_offsets = in_offsets, cs_in_edges = in_edges\<rparr>)))))))))"

definition csr_load :: "pager \<Rightarrow> u64 \<Rightarrow> csr_segment result" where
  "csr_load p meta_page_id =
     rbind (read_page p meta_page_id) (\<lambda>page.
     rbind (decode_segment page p) (\<lambda>seg.
     Inr (seg\<lparr>cs_meta_page_id := meta_page_id\<rparr>)))"

section \<open>Offset tables\<close>

text \<open>In a list sorted by a key, the elements below a key come first.\<close>

lemma sorted_filter_less:
  fixes k :: "'a \<Rightarrow> 'b::linorder"
  shows "sorted (map k xs) \<Longrightarrow> filter (\<lambda>x. k x < i) xs @ filter (\<lambda>x. k x = i) xs @ filter (\<lambda>x. i < k x) xs = xs"
proof (induction xs)
  case (Cons x xs)
  show ?case
  proof (cases "k x < i")
    case True
    with Cons show ?thesis by auto
  next
    case False
    with Cons.prems have "\<forall>y \<in> set xs. \<not> k y < i" by (auto dest: order_trans)
    moreover have "\<forall>y \<in> set xs. k y \<noteq> i" if "i < k x" using that Cons.prems by auto
    ultimately show ?thesis using Cons False by (auto simp: filter_empty_conv not_less order_le_less)
  qed
qed simp

lemma sorted_slice:
  fixes k :: "'a \<Rightarrow> nat"
  assumes "sorted (map k xs)"
  defines "n \<equiv> \<lambda>i. length (filter (\<lambda>x. k x < i) xs)"
  shows "take (n (Suc i) - n i) (drop (n i) xs) = filter (\<lambda>x. k x = i) xs" "n i \<le> n (Suc i)" "n i \<le> length xs"
proof -
  have split: "length (filter (\<lambda>x. k x < Suc i) xs) = n i + length (filter (\<lambda>x. k x = i) xs)"
    unfolding n_def by (induction xs) (auto simp: less_Suc_eq)
  have "drop (n i) xs = filter (\<lambda>x. k x = i) xs @ filter (\<lambda>x. i < k x) xs"
    using arg_cong [OF sorted_filter_less [OF assms(1), of i], of "drop (n i)"] by (simp add: n_def)
  then show "take (n (Suc i) - n i) (drop (n i) xs) = filter (\<lambda>x. k x = i) xs"
    using split by (simp add: n_def)
  show "n i \<le> n (Suc i)" using split by (simp add: n_def)
  show "n i \<le> length xs" by (simp add: n_def)
qed

lemma sorted_count_le:
  fixes k :: "'a \<Rightarrow> nat"
  assumes "sorted (map k xs)" "j < length xs"
  shows "length (filter (\<lambda>x. k x < i) xs) \<le> j \<longleftrightarrow> i \<le> k (xs ! j)"
proof -
  let ?a = "filter (\<lambda>x. k x < i) xs" and ?b = "filter (\<lambda>x. k x = i) xs @ filter (\<lambda>x. i < k x) xs"
  have ab: "?a @ ?b = xs" by (rule sorted_filter_less [OF assms(1)])
  show ?thesis
  proof (cases "length ?a \<le> j")
    case True
    then have "xs ! j = ?b ! (j - length ?a)" using ab by (metis nth_append not_less)
    moreover have "j - length ?a < length ?b" using True assms(2) arg_cong [OF ab, of length] by simp
    ultimately have "xs ! j \<in> set ?b" by (metis nth_mem)
    then show ?thesis using True by auto
  next
    case False
    then have "xs ! j = ?a ! j" using ab by (metis nth_append not_less)
    then have "xs ! j \<in> set ?a" using False by (metis nth_mem not_less)
    then show ?thesis using False by auto
  qed
qed

text \<open>What an offset table is: entry \<open>i\<close> counts the edges whose key is below \<open>lo + i\<close>.\<close>

definition index_ok :: "(edge_key \<Rightarrow> u32) \<Rightarrow> u32 \<Rightarrow> u32 \<Rightarrow> u64 list \<Rightarrow> edge_key list \<Rightarrow> bool" where
  "index_ok sel lo hi offs es \<longleftrightarrow>
     lo \<le> hi \<and> sorted (map (\<lambda>e. unat (sel e)) es) \<and> (\<forall>e \<in> set es. lo \<le> sel e \<and> sel e \<le> hi) \<and>
     length offs = unat hi - unat lo + 2 \<and> length es < 2 ^ 64 \<and>
     (\<forall>i \<le> unat hi - unat lo + 1. unat (offs ! i) = length (filter (\<lambda>e. unat (sel e) < unat lo + i) es))"

lemma index_okD:
  assumes "index_ok sel lo hi offs es"
  shows "lo \<le> hi" "sorted (map (\<lambda>e. unat (sel e)) es)" "\<And>e. e \<in> set es \<Longrightarrow> lo \<le> sel e \<and> sel e \<le> hi"
    "length offs = unat hi - unat lo + 2" "length es < 2 ^ 64"
    "\<And>i. i \<le> unat hi - unat lo + 1 \<Longrightarrow> unat (offs ! i) = length (filter (\<lambda>e. unat (sel e) < unat lo + i) es)"
  using assms unfolding index_ok_def by blast+

lemma index_lookup:
  assumes ok: "index_ok sel lo hi offs es" and x: "lo \<le> x" "x \<le> hi"
  obtains a b where "vec_index offs (unat (x - lo)) = Inr a" "vec_index offs (unat (x - lo) + 1) = Inr b"
    "slice_range (map f es) (unat a) (unat b) = Inr (map f (filter (\<lambda>e. sel e = x) es))"
proof -
  note D = index_okD [OF ok]
  let ?i = "unat (x - lo)"
  have i: "?i = unat x - unat lo" "unat lo + ?i = unat x" "?i + 1 \<le> unat hi - unat lo + 1"
    using x by (simp_all add: unat_sub word_le_nat_alt)
  have a: "unat (offs ! ?i) = length (filter (\<lambda>e. unat (sel e) < unat x) es)"
    using D(6) [of ?i] i by simp
  have b: "unat (offs ! (?i + 1)) = length (filter (\<lambda>e. unat (sel e) < Suc (unat x)) es)"
    using D(6) [of "?i + 1"] i by simp
  note s = sorted_slice [OF D(2), of "unat x"]
  have "slice_range (map f es) (unat (offs ! ?i)) (unat (offs ! (?i + 1))) =
      Inr (map f (filter (\<lambda>e. sel e = x) es))"
    unfolding slice_range_def a b using s by (simp add: drop_map take_map flip: word_unat_eq_iff)
  moreover have "vec_index offs ?i = Inr (offs ! ?i)" "vec_index offs (?i + 1) = Inr (offs ! (?i + 1))"
    using D(4) i by (simp_all add: vec_index_def vec_get_def)
  ultimately show thesis using that by blast
qed

lemma index_outside:
  assumes "index_ok sel lo hi offs es" "x < lo \<or> hi < x"
  shows "filter (\<lambda>e. sel e = x) es = []"
  using index_okD(3) [OF assms(1)] assms(2) by (fastforce simp: filter_empty_conv)

text \<open>A segment holds the edges \<open>es\<close>: by source, and by target.\<close>

definition fwd_record :: "edge_key \<Rightarrow> edge_record" where
  "fwd_record e = \<lparr>er_rel = ek_rel e, er_dst = ek_dst e\<rparr>"

definition bwd_record :: "edge_key \<Rightarrow> edge_record" where
  "bwd_record e = \<lparr>er_rel = ek_rel e, er_dst = ek_src e\<rparr>"

definition csr_fwd :: "csr_segment \<Rightarrow> edge_key list \<Rightarrow> bool" where
  "csr_fwd seg es \<longleftrightarrow> index_ok ek_src (cs_min_src seg) (cs_max_src seg) (cs_offsets seg) es \<and>
     cs_edges seg = map fwd_record es"

definition csr_bwd :: "csr_segment \<Rightarrow> edge_key list \<Rightarrow> bool" where
  "csr_bwd seg es \<longleftrightarrow> index_ok ek_dst (cs_min_dst seg) (cs_max_dst seg) (cs_in_offsets seg) es \<and>
     cs_in_edges seg = map bwd_record es"

lemma csr_neighbors_fwd:
  assumes fwd: "csr_fwd seg es"
  shows "csr_neighbors seg src rel = Inr (filter (\<lambda>e. ek_src e = src \<and> rel_matches rel (ek_rel e)) es)"
proof -
  have ok: "index_ok ek_src (cs_min_src seg) (cs_max_src seg) (cs_offsets seg) es"
    and es: "cs_edges seg = map fwd_record es" using fwd by (simp_all add: csr_fwd_def)
  have flt: "filter (\<lambda>e. ek_src e = src \<and> rel_matches rel (ek_rel e)) es =
      filter (\<lambda>e. rel_matches rel (ek_rel e)) (filter (\<lambda>e. ek_src e = src) es)"
    by (simp add: conj_commute)
  have recs: "map (\<lambda>e. EdgeKey src (er_rel e) (er_dst e)) (filter (\<lambda>e. rel_matches rel (er_rel e)) (map fwd_record xs)) =
      filter (\<lambda>e. rel_matches rel (ek_rel e)) xs" if "\<forall>e \<in> set xs. ek_src e = src" for xs
    using that by (induction xs) (auto simp: fwd_record_def)
  show ?thesis
  proof (cases "src < cs_min_src seg \<or> cs_max_src seg < src")
    case True
    then show ?thesis using index_outside [OF ok True] unfolding flt by (simp add: csr_neighbors_def)
  next
    case False
    then have "cs_min_src seg \<le> src" "src \<le> cs_max_src seg" by (simp_all add: not_less)
    show ?thesis
    proof (rule index_lookup [OF ok \<open>cs_min_src seg \<le> src\<close> \<open>src \<le> cs_max_src seg\<close>, of fwd_record])
      fix a b assume "vec_index (cs_offsets seg) (unat (src - cs_min_src seg)) = Inr a"
        "vec_index (cs_offsets seg) (unat (src - cs_min_src seg) + 1) = Inr b"
        "slice_range (map fwd_record es) (unat a) (unat b) = Inr (map fwd_record (filter (\<lambda>e. ek_src e = src) es))"
      then show ?thesis
        unfolding flt using False recs [of "filter (\<lambda>e. ek_src e = src) es"]
        by (simp add: csr_neighbors_def es Let_def)
    qed
  qed
qed

lemma csr_incoming_bwd:
  assumes bwd: "csr_bwd seg es"
  shows "csr_incoming_neighbors seg dst rel = Inr (filter (\<lambda>e. ek_dst e = dst \<and> rel_matches rel (ek_rel e)) es)"
proof -
  have ok: "index_ok ek_dst (cs_min_dst seg) (cs_max_dst seg) (cs_in_offsets seg) es"
    and es: "cs_in_edges seg = map bwd_record es" using bwd by (simp_all add: csr_bwd_def)
  have flt: "filter (\<lambda>e. ek_dst e = dst \<and> rel_matches rel (ek_rel e)) es =
      filter (\<lambda>e. rel_matches rel (ek_rel e)) (filter (\<lambda>e. ek_dst e = dst) es)"
    by (simp add: conj_commute)
  have recs: "map (\<lambda>e. EdgeKey (er_dst e) (er_rel e) dst) (filter (\<lambda>e. rel_matches rel (er_rel e)) (map bwd_record xs)) =
      filter (\<lambda>e. rel_matches rel (ek_rel e)) xs" if "\<forall>e \<in> set xs. ek_dst e = dst" for xs
    using that by (induction xs) (auto simp: bwd_record_def)
  show ?thesis
  proof (cases "dst < cs_min_dst seg \<or> cs_max_dst seg < dst")
    case True
    then show ?thesis using index_outside [OF ok True] unfolding flt by (simp add: csr_incoming_neighbors_def)
  next
    case False
    then have "cs_min_dst seg \<le> dst" "dst \<le> cs_max_dst seg" by (simp_all add: not_less)
    show ?thesis
    proof (rule index_lookup [OF ok \<open>cs_min_dst seg \<le> dst\<close> \<open>dst \<le> cs_max_dst seg\<close>, of bwd_record])
      fix a b assume "vec_index (cs_in_offsets seg) (unat (dst - cs_min_dst seg)) = Inr a"
        "vec_index (cs_in_offsets seg) (unat (dst - cs_min_dst seg) + 1) = Inr b"
        "slice_range (map bwd_record es) (unat a) (unat b) = Inr (map bwd_record (filter (\<lambda>e. ek_dst e = dst) es))"
      then show ?thesis
        unfolding flt using False recs [of "filter (\<lambda>e. ek_dst e = dst) es"]
        by (simp add: csr_incoming_neighbors_def es Let_def)
    qed
  qed
qed

section \<open>Building the reverse index\<close>

lemma find_unique: "i < n \<Longrightarrow> P i \<Longrightarrow> (\<And>j. j < i \<Longrightarrow> \<not> P j) \<Longrightarrow> List.find P [0..<n] = Some i"
  by (auto simp: find_Some_iff)

lemma edges_with_src_eq:
  assumes fwd: "csr_fwd seg es"
  shows "edges_with_src seg = es"
proof (rule nth_equalityI)
  have ok: "index_ok ek_src (cs_min_src seg) (cs_max_src seg) (cs_offsets seg) es"
    and es: "cs_edges seg = map fwd_record es" using fwd by (simp_all add: csr_fwd_def)
  note D = index_okD [OF ok]
  show "length (edges_with_src seg) = length es" by (simp add: edges_with_src_def es)
  fix j assume "j < length (edges_with_src seg)"
  then have j: "j < length es" by (simp add: edges_with_src_def es)
  let ?lo = "unat (cs_min_src seg)" and ?hi = "unat (cs_max_src seg)" and ?s = "unat (ek_src (es ! j))"
  have s: "?lo \<le> ?s" "?s \<le> ?hi" using D(3) [of "es ! j"] j by (simp_all add: word_le_nat_alt)
  let ?P = "\<lambda>i. unat (cs_offsets seg ! i) \<le> j \<and> j < unat (cs_offsets seg ! (i + 1))"
  have P: "?P i \<longleftrightarrow> ?lo + i = ?s" if "i \<le> ?hi - ?lo" for i
  proof -
    have "unat (cs_offsets seg ! i) \<le> j \<longleftrightarrow> ?lo + i \<le> ?s"
      using D(6) [of i] that sorted_count_le [OF D(2) j, of "?lo + i"] by simp
    moreover have "unat (cs_offsets seg ! (i + 1)) \<le> j \<longleftrightarrow> ?lo + (i + 1) \<le> ?s"
      using D(6) [of "i + 1"] that sorted_count_le [OF D(2) j, of "?lo + (i + 1)"] by simp
    ultimately show ?thesis by auto
  qed
  have "List.find ?P [0..<length (cs_offsets seg) - 1] = Some (?s - ?lo)"
  proof (rule find_unique)
    show "?s - ?lo < length (cs_offsets seg) - 1" using D(4) s by simp
    show "?P (?s - ?lo)" using P [of "?s - ?lo"] s by simp
    show "\<not> ?P i" if "i < ?s - ?lo" for i using P [of i] that s by simp
  qed
  moreover have "cs_min_src seg + of_nat (?s - ?lo) = ek_src (es ! j)"
    using s by (simp add: of_nat_diff)
  ultimately have "edge_src_at seg j = ek_src (es ! j)" by (simp add: edge_src_at_def)
  then show "edges_with_src seg ! j = es ! j"
    using j by (simp add: edges_with_src_def es nth_enumerate_eq fwd_record_def)
qed

lemma fill_below_spec:
  assumes "base \<le> cur" "cur \<le> dst" "unat dst - unat base < length offs"
  shows "\<exists>offs'. fill_below base dst n cur offs = Inr (dst, offs') \<and> length offs' = length offs \<and>
    (\<forall>i < length offs. offs' ! i =
       (if unat cur - unat base < i \<and> i \<le> unat dst - unat base then n else offs ! i))"
  using assms
proof (induction base dst n cur offs rule: fill_below.induct)
  case (1 base dst n cur offs)
  show ?case
  proof (cases "cur < dst")
    case True
    let ?c = "cur + 1" and ?k = "Suc (unat cur) - unat base"
    have u: "unat ?c = Suc (unat cur)" using unat_succ_less [OF True] by simp
    have c: "base \<le> ?c" "?c \<le> dst" using 1(2) True u by (simp_all add: word_le_nat_alt word_less_nat_alt)
    have k: "unat (?c - base) = ?k" using c(1) u by (simp add: unat_sub)
    have kl: "?k < length offs" using 1(4) c(2) u by (simp add: word_le_nat_alt)
    let ?o = "offs[?k := n]"
    have st: "vec_set offs (unat (?c - base)) n = Inr ?o" using kl by (simp add: vec_set_def k)
    have "unat dst - unat base < length ?o" using 1(4) by simp
    from 1(1) [OF True refl st c this] obtain o' where
      f: "fill_below base dst n ?c ?o = Inr (dst, o')" "length o' = length offs"
      and e: "\<forall>i < length offs. o' ! i = (if unat ?c - unat base < i \<and> i \<le> unat dst - unat base then n else ?o ! i)"
      by auto
    have "fill_below base dst n cur offs = Inr (dst, o')" by (subst fill_below.simps) (simp add: True Let_def st f)
    moreover have "?k \<le> unat dst - unat base" using c(2) u by (simp add: word_le_nat_alt)
    moreover have "unat base \<le> unat cur" using 1(2) by (simp add: word_le_nat_alt)
    ultimately show ?thesis using f(2) e u by (intro exI [of _ o']) (auto simp: nth_list_update)
  next
    case False
    with 1(3) have "cur = dst" by simp
    then show ?thesis by (intro exI [of _ offs]) (auto simp: fill_below.simps)
  qed
qed

text \<open>The loop over the edges, sorted by target: what the table holds after a prefix.\<close>

definition rev_state :: "u32 \<Rightarrow> edge_key list \<Rightarrow> u32 \<Rightarrow> u64 list \<Rightarrow> bool" where
  "rev_state base seen cur offs \<longleftrightarrow> base \<le> cur \<and> (\<forall>e \<in> set seen. ek_dst e \<le> cur) \<and>
     (\<forall>i \<le> unat cur - unat base. offs ! i = of_nat (length (filter (\<lambda>e. unat (ek_dst e) < unat base + i) seen)))"

lemma rev_state_step:
  assumes st: "rev_state base seen cur offs" and c: "cur \<le> ek_dst e"
    and len: "length offs' = length offs" "unat (ek_dst e) - unat base < length offs"
    and o': "\<forall>i < length offs. offs' ! i =
      (if unat cur - unat base < i \<and> i \<le> unat (ek_dst e) - unat base then of_nat (length seen) else offs ! i)"
  shows "rev_state base (seen @ [e]) (ek_dst e) offs'"
  unfolding rev_state_def
proof (intro conjI ballI allI impI)
  have b: "base \<le> cur" and d: "\<And>x. x \<in> set seen \<Longrightarrow> ek_dst x \<le> cur"
    and o: "\<And>i. i \<le> unat cur - unat base \<Longrightarrow>
      offs ! i = of_nat (length (filter (\<lambda>e. unat (ek_dst e) < unat base + i) seen))"
    using st by (auto simp: rev_state_def)
  show "base \<le> ek_dst e" using b c by simp
  show "ek_dst x \<le> ek_dst e" if "x \<in> set (seen @ [e])" for x using that d c by (auto dest: order_trans)
  fix i assume i: "i \<le> unat (ek_dst e) - unat base"
  have e: "\<not> unat (ek_dst e) < unat base + i" using i b c by (auto simp: word_le_nat_alt)
  show "offs' ! i = of_nat (length (filter (\<lambda>e. unat (ek_dst e) < unat base + i) (seen @ [e])))"
  proof (cases "i \<le> unat cur - unat base")
    case True
    then show ?thesis using o' o i len e by simp
  next
    case False
    then have "filter (\<lambda>e. unat (ek_dst e) < unat base + i) seen = seen"
      using d b by (fastforce simp: filter_id_conv word_le_nat_alt)
    then show ?thesis using False o' i len e by simp
  qed
qed

lemma reverse_edges_spec:
  assumes "rev_state base seen cur offs" "sorted (map (\<lambda>e. unat (ek_dst e)) es)"
    "\<forall>e \<in> set es. cur \<le> ek_dst e \<and> unat (ek_dst e) - unat base < length offs"
  shows "\<exists>offs'. reverse_edges base es cur (of_nat (length seen)) offs out =
      Inr (if es = [] then cur else ek_dst (last es), of_nat (length (seen @ es)), offs', out @ map bwd_record es) \<and>
    length offs' = length offs \<and> rev_state base (seen @ es) (if es = [] then cur else ek_dst (last es)) offs'"
  using assms
proof (induction es arbitrary: seen cur offs out)
  case (Cons e es)
  have c: "cur \<le> ek_dst e" "unat (ek_dst e) - unat base < length offs" using Cons.prems(3) by simp_all
  have b: "base \<le> cur" using Cons.prems(1) by (simp add: rev_state_def)
  obtain o1 where f: "fill_below base (ek_dst e) (of_nat (length seen)) cur offs = Inr (ek_dst e, o1)"
    and l: "length o1 = length offs"
    and o1: "\<forall>i < length offs. o1 ! i =
      (if unat cur - unat base < i \<and> i \<le> unat (ek_dst e) - unat base then of_nat (length seen) else offs ! i)"
    using fill_below_spec [OF b c, of "of_nat (length seen)"] by blast
  have st: "rev_state base (seen @ [e]) (ek_dst e) o1"
    by (rule rev_state_step [OF Cons.prems(1) c(1) l c(2) o1])
  have "\<forall>x \<in> set es. ek_dst e \<le> ek_dst x \<and> unat (ek_dst x) - unat base < length o1"
    using Cons.prems(2,3) l by (auto simp: word_le_nat_alt)
  from Cons.IH [OF st _ this, of "out @ [bwd_record e]"] Cons.prems(2)
  show ?case by (auto simp: f l bwd_record_def add.commute)
qed (simp add: bwd_record_def)

lemma fill_last_spec:
  assumes m: "mx \<noteq> - 1" "base \<le> mx" and r: "rng = mx - base + 1" and len: "unat rng < length offs"
  shows "fill_last base mx rng n mx offs = Inr (offs[unat rng := n])"
proof -
  have "\<not> mx + 1 \<le> mx" using unat_succ [OF m(1)] by (simp add: word_le_nat_alt)
  moreover have "mx + 1 - base = rng" using r by simp
  ultimately show ?thesis
    using m(1) len by (subst fill_last.simps, simp add: Let_def vec_set_def, subst fill_last.simps) simp
qed

lemma rev_key_le: "rev_key a \<le> rev_key b \<Longrightarrow> ek_dst a \<le> ek_dst b"
  by (auto simp: rev_key_def less_eq_edge_key_def)

lemma sorted_rev_dst: "sorted (map (\<lambda>e. unat (ek_dst e)) (sort_key rev_key es))"
proof -
  have "sorted_wrt (\<lambda>a b. rev_key a \<le> rev_key b) (sort_key rev_key es)"
    using sorted_sort_key [of rev_key es] by (simp add: sorted_wrt_map)
  then show ?thesis
    by (simp add: sorted_wrt_map) (erule sorted_wrt_mono_rel [rotated], simp add: rev_key_le flip: word_le_nat_alt)
qed

lemma sorted_bounds:
  assumes "sorted (map k (x # xs))" "e \<in> set (x # xs)"
  shows "k x \<le> k e" "k e \<le> k (last (x # xs))"
proof -
  show "k x \<le> k e" using assms by auto
  have "k e \<le> k (last ys)" if "sorted (map k ys)" "e \<in> set ys" for ys
    using that by (induction ys) (auto split: if_splits)
  then show "k e \<le> k (last (x # xs))" using assms by blast
qed

lemma build_reverse_ok:
  assumes fwd: "csr_fwd seg es" and ne: "es \<noteq> []" and none: "cs_in_edges seg = []"
    and max: "\<forall>e \<in> set es. ek_dst e \<noteq> - 1"
  obtains lo hi offs ins where "build_reverse seg =
      Inr (seg\<lparr>cs_min_dst := lo, cs_max_dst := hi, cs_in_offsets := offs, cs_in_edges := ins\<rparr>)"
    "index_ok ek_dst lo hi offs (sort_key rev_key es)" "ins = map bwd_record (sort_key rev_key es)"
proof -
  let ?s = "sort_key rev_key es"
  have len: "length es < 2 ^ 64" "cs_offsets seg \<noteq> []" "cs_edges seg \<noteq> []"
    using fwd ne by (auto simp: csr_fwd_def index_ok_def)
  obtain f fs where s: "?s = f # fs" using ne by (cases ?s) (auto dest: arg_cong [of _ _ length])
  let ?lo = "ek_dst f" and ?hi = "ek_dst (last ?s)"
  have sd: "sorted (map (\<lambda>e. unat (ek_dst e)) ?s)" by (rule sorted_rev_dst)
  have bnd: "?lo \<le> ek_dst e" "ek_dst e \<le> ?hi" if "e \<in> set ?s" for e
    using sorted_bounds [of "\<lambda>e. unat (ek_dst e)" f fs e] sd that unfolding s by (simp_all add: word_le_nat_alt)
  have "last ?s \<in> set ?s" using s by (metis last_in_set list.distinct(1))
  then have hi: "?hi \<noteq> - 1" "?lo \<le> ?hi" using max bnd by auto
  let ?rng = "?hi - ?lo + 1"
  have hilo: "unat (?hi - ?lo) = unat ?hi - unat ?lo" using hi(2) by (simp add: unat_sub)
  have "?hi - ?lo \<noteq> - 1"
  proof
    assume "?hi - ?lo = - 1"
    then have "unat (- 1 :: u32) \<le> unat ?hi" using hilo by simp
    then have "- 1 \<le> ?hi" by (simp add: word_le_nat_alt)
    then show False using hi(1) word_order.extremum_unique by blast
  qed
  from unat_succ [OF this] have rng: "unat ?rng = unat ?hi - unat ?lo + 1" by (simp add: hilo)
  let ?o = "replicate (unat ?rng + 1) (0 :: u64)"
  have st: "rev_state ?lo [] ?lo ?o" using rng by (simp add: rev_state_def nth_append del: replicate.simps)
  have "?lo \<le> ek_dst e \<and> unat (ek_dst e) - unat ?lo < length ?o" if "e \<in> set ?s" for e
    using bnd [OF that] rng by (simp add: word_le_nat_alt)
  then have "\<forall>e \<in> set ?s. ?lo \<le> ek_dst e \<and> unat (ek_dst e) - unat ?lo < length ?o" by blast
  moreover have "?s \<noteq> []" using s by simp
  ultimately obtain o1 where
    r: "reverse_edges ?lo ?s ?lo 0 ?o [] = Inr (?hi, of_nat (length es), o1, map bwd_record ?s)"
    and l1: "length o1 = unat ?rng + 1" and rs: "rev_state ?lo ?s ?hi o1"
    using reverse_edges_spec [OF st sd, of "[]"] by (auto simp del: replicate.simps)
  let ?o2 = "o1[unat ?rng := of_nat (length es)]"
  have fl: "fill_last ?lo ?hi ?rng (of_nat (length es)) ?hi o1 = Inr ?o2"
    using hi l1 by (intro fill_last_spec) simp_all
  have "build_reverse seg = Inr (seg\<lparr>cs_min_dst := ?lo, cs_max_dst := ?hi, cs_in_offsets := ?o2,
      cs_in_edges := map bwd_record ?s\<rparr>)"
    using r fl len(2,3) none \<open>?hi - ?lo \<noteq> - 1\<close>
    unfolding build_reverse_def edges_with_src_eq [OF fwd] Let_def s by (simp del: replicate.simps)
  moreover have "index_ok ek_dst ?lo ?hi ?o2 ?s"
  proof -
    have "unat (?o2 ! i) = length (filter (\<lambda>e. unat (ek_dst e) < unat ?lo + i) ?s)"
      if i: "i \<le> unat ?hi - unat ?lo + 1" for i
    proof (cases "i = unat ?rng")
      case True
      have "\<forall>e \<in> set ?s. unat (ek_dst e) < unat ?lo + i"
        using bnd(2) hi(2) True rng by (fastforce simp: word_le_nat_alt)
      then have "filter (\<lambda>e. unat (ek_dst e) < unat ?lo + i) ?s = ?s" by (simp only: filter_id_conv)
      then show ?thesis using True l1 len(1) by (simp add: unat_word_of_nat_less)
    next
      case False
      then have "o1 ! i = of_nat (length (filter (\<lambda>e. unat (ek_dst e) < unat ?lo + i) ?s))"
        using rs i rng by (simp add: rev_state_def)
      moreover have "length (filter (\<lambda>e. unat (ek_dst e) < unat ?lo + i) ?s) < 2 ^ 64"
        using length_filter_le [of _ ?s] len(1) by (metis (no_types, lifting) length_sort order_le_less_trans)
      ultimately show ?thesis using False by (simp add: unat_word_of_nat_less)
    qed
    then show ?thesis unfolding index_ok_def using hi(2) sd bnd l1 rng len(1) by simp
  qed
  ultimately show thesis using that by blast
qed

section \<open>Persisting and loading\<close>

interpretation edgerec: fixed_codec encode_edge decode_edge 8
  by unfold_locales (simp_all add: encode_edge_def decode_edge_def subslice_append_right)

lemma decode_offsets_ok: "length os * 8 < 2 ^ 64 \<Longrightarrow> decode_offsets (encode_offsets os @ pad) (length os) = Inr os"
  using u64le.map_dec [OF refl, of os pad] u64le.length_concat_enc [of os]
  by (simp add: decode_offsets_def encode_offsets_def)

lemma decode_edges_ok: "length es * 8 < 2 ^ 64 \<Longrightarrow> decode_edges (encode_edges es @ pad) (length es) = Inr es"
  using edgerec.map_dec [OF refl, of es pad] edgerec.length_concat_enc [of es]
  by (simp add: decode_edges_def encode_edges_def)

lemma read_page_ids_ok:
  "n = length ids \<Longrightarrow> at = length h \<Longrightarrow> read_page_ids (h @ concat (map to_le ids) @ rest) at n = ids"
  using u64le.map_dec [of n ids rest] by (simp add: read_page_ids_def subslice_append_right)

text \<open>A byte string written to fresh pages: what it adds to the file, and that it reads back.\<close>

lemma write_blob_pages_ok:
  assumes "pager_inv p" "write_blob_pages bs p = Inr (ids, p')"
  shows "pager_inv p' \<and> pg_pages p \<subseteq>\<^sub>m pg_pages p' \<and> length bs \<le> length ids * PAGE_SIZE \<and>
    (\<exists>pad. \<forall>q. pager_inv q \<longrightarrow> pg_pages p' \<subseteq>\<^sub>m pg_pages q \<longrightarrow> read_blob_pages q ids = Inr (bs @ pad))"
  using assms
proof (induction bs p arbitrary: ids p' rule: write_blob_pages.induct)
  case (2 b bs p)
  let ?n = "min (length (b # bs)) PAGE_SIZE"
  let ?page = "overwrite 0 (take ?n (b # bs)) zero_page"
  have page: "?page = take ?n (b # bs) @ replicate (PAGE_SIZE - ?n) 0"
    using overwrite_pad [of "[]" 0 "take ?n (b # bs)" PAGE_SIZE 0] by (simp add: zero_page_def)
  then have lp: "length ?page = PAGE_SIZE" by simp
  from 2(3) obtain i p1 p2 js where a: "allocate_page p = Inr (i, p1)" and w: "write_page i ?page p1 = Inr p2"
    and r: "write_blob_pages (drop ?n (b # bs)) p2 = Inr (js, p')" and ids: "ids = i # js"
    by (auto simp: rbind_Inr_iff Let_def)
  obtain p2' where p2': "write_page i ?page p1 = Inr p2'" "pager_inv p2'" "pg_pages p2' = (pg_pages p)(i \<mapsto> ?page)"
    "pg_pages p i = None"
    using pgs.alloc_write [OF 2(2) a lp] by metis
  with w have p2: "pager_inv p2" "pg_pages p2 = (pg_pages p)(i \<mapsto> ?page)" by simp_all
  from 2(1) [OF a refl refl refl w p2(1) r] obtain pad where IH: "pager_inv p'" "pg_pages p2 \<subseteq>\<^sub>m pg_pages p'"
    "length (drop ?n (b # bs)) \<le> length js * PAGE_SIZE"
    and pad: "\<And>q. pager_inv q \<Longrightarrow> pg_pages p' \<subseteq>\<^sub>m pg_pages q \<Longrightarrow>
      read_blob_pages q js = Inr (drop ?n (b # bs) @ pad)"
    by blast
  have "pg_pages p \<subseteq>\<^sub>m pg_pages p2" using p2(2) p2'(4) by (auto simp: map_le_def)
  then have le: "pg_pages p \<subseteq>\<^sub>m pg_pages p'" using IH(2) map_le_trans by blast
  have pi: "pg_pages p' i = Some ?page" using IH(2) p2(2) unfolding map_le_def by (metis domI fun_upd_same)
  let ?z = "if PAGE_SIZE < length (b # bs) then pad else replicate (PAGE_SIZE - ?n) 0 @ pad"
  have "read_blob_pages q ids = Inr ((b # bs) @ ?z)" if q: "pager_inv q" "pg_pages p' \<subseteq>\<^sub>m pg_pages q" for q
  proof -
    have "pg_pages q i = Some ?page" using pi q(2) unfolding map_le_def by (metis domI)
    from pgs.read_law [OF q(1) this] pad [OF q] have "read_blob_pages q ids = Inr (?page @ drop ?n (b # bs) @ pad)"
      by (simp add: ids)
    then show ?thesis unfolding page by (auto simp: min_def simp flip: append_assoc)
  qed
  moreover have "length (b # bs) \<le> length ids * PAGE_SIZE" using IH(3) by (simp add: ids min_def split: if_splits)
  ultimately show ?case using IH(1) le by blast
qed auto

definition meta_head :: "csr_segment \<Rightarrow> nat \<Rightarrow> nat \<Rightarrow> nat \<Rightarrow> nat \<Rightarrow> bytes" where
  "meta_head seg n1 n2 n3 n4 =
     META_MAGIC @ to_le (cs_id seg) @
     to_le (cs_min_src seg) @ to_le (cs_max_src seg) @ to_le (cs_min_dst seg) @ to_le (cs_max_dst seg) @
     to_le (of_nat (length (cs_offsets seg)) :: u64) @ to_le (of_nat (length (cs_edges seg)) :: u64) @
     to_le (of_nat (length (cs_in_offsets seg)) :: u64) @ to_le (of_nat (length (cs_in_edges seg)) :: u64) @
     to_le (of_nat n1 :: u32) @ to_le (of_nat n2 :: u32) @ to_le (of_nat n3 :: u32) @ to_le (of_nat n4 :: u32)"

lemma length_META_MAGIC [simp]: "length META_MAGIC = 8" by (simp add: META_MAGIC_def)

lemma length_meta_head [simp]: "length (meta_head seg n1 n2 n3 n4) = 80" by (simp add: meta_head_def)

lemma meta_head_fields:
  assumes h: "h = meta_head seg n1 n2 n3 n4 @ r"
  shows "subslice 0 8 h = META_MAGIC" "from_le (subslice 8 8 h) = cs_id seg"
    "from_le (subslice 16 4 h) = cs_min_src seg" "from_le (subslice 20 4 h) = cs_max_src seg"
    "from_le (subslice 24 4 h) = cs_min_dst seg" "from_le (subslice 28 4 h) = cs_max_dst seg"
    "from_le (subslice 32 8 h) = (of_nat (length (cs_offsets seg)) :: u64)"
    "from_le (subslice 40 8 h) = (of_nat (length (cs_edges seg)) :: u64)"
    "from_le (subslice 48 8 h) = (of_nat (length (cs_in_offsets seg)) :: u64)"
    "from_le (subslice 56 8 h) = (of_nat (length (cs_in_edges seg)) :: u64)"
    "from_le (subslice 64 4 h) = (of_nat n1 :: u32)" "from_le (subslice 68 4 h) = (of_nat n2 :: u32)"
    "from_le (subslice 72 4 h) = (of_nat n3 :: u32)" "from_le (subslice 76 4 h) = (of_nat n4 :: u32)"
  unfolding h meta_head_def by (simp_all add: subslice_append_right)

lemma encode_meta_bytes:
  assumes "encode_meta seg i1 i2 i3 i4 = Inr page"
  obtains pad where "page = meta_head seg (length i1) (length i2) (length i3) (length i4) @
      concat (map to_le (i1 @ i2 @ i3 @ i4)) @ pad" "length page = PAGE_SIZE"
    "80 + (length i1 + length i2 + length i3 + length i4) * 8 \<le> PAGE_SIZE"
proof -
  let ?b = "meta_head seg (length i1) (length i2) (length i3) (length i4) @ concat (map to_le (i1 @ i2 @ i3 @ i4))"
  have n: "80 + (length i1 + length i2 + length i3 + length i4) * 8 \<le> PAGE_SIZE"
    and page: "page = overwrite 0 ?b zero_page"
    using assms by (auto simp: encode_meta_def Let_def meta_head_def split: if_splits)
  have lb: "length ?b = 80 + (length i1 + length i2 + length i3 + length i4) * 8"
    using u64le.length_concat_enc [of "i1 @ i2 @ i3 @ i4"] by simp
  have "overwrite 0 ?b zero_page = ?b @ replicate (PAGE_SIZE - length ?b) 0"
    using overwrite_pad [of "[]" 0 ?b PAGE_SIZE 0] n lb unfolding zero_page_def by (simp del: append_assoc)
  with that [of "replicate (PAGE_SIZE - length ?b) 0"] page n lb show thesis by (simp del: map_append)
qed

lemma decode_meta:
  fixes i1 i2 i3 i4 :: "u64 list"
  assumes page: "page = meta_head seg (length i1) (length i2) (length i3) (length i4) @
      concat (map to_le (i1 @ i2 @ i3 @ i4)) @ pad"
    and n: "80 + (length i1 + length i2 + length i3 + length i4) * 8 \<le> PAGE_SIZE"
    and len: "length (encode_offsets (cs_offsets seg)) \<le> length i1 * PAGE_SIZE"
      "length (encode_edges (cs_edges seg)) \<le> length i2 * PAGE_SIZE"
      "length (encode_offsets (cs_in_offsets seg)) \<le> length i3 * PAGE_SIZE"
      "length (encode_edges (cs_in_edges seg)) \<le> length i4 * PAGE_SIZE"
    and rd: "read_blob_pages q i1 = Inr (encode_offsets (cs_offsets seg) @ p1)"
      "read_blob_pages q i2 = Inr (encode_edges (cs_edges seg) @ p2)"
      "read_blob_pages q i3 = Inr (encode_offsets (cs_in_offsets seg) @ p3)"
      "read_blob_pages q i4 = Inr (encode_edges (cs_in_edges seg) @ p4)"
  shows "decode_segment page q = Inr (seg\<lparr>cs_meta_page_id := 0\<rparr>)"
proof -
  let ?h = "meta_head seg (length i1) (length i2) (length i3) (length i4)"
  have small: "length i1 < 1024" "length i2 < 1024" "length i3 < 1024" "length i4 < 1024"
    using n by (simp_all add: PAGE_SIZE_def)
  then have u: "unat (of_nat (length i1) :: u32) = length i1" "unat (of_nat (length i2) :: u32) = length i2"
    "unat (of_nat (length i3) :: u32) = length i3" "unat (of_nat (length i4) :: u32) = length i4"
    by (simp_all add: unat_word_of_nat_less)
  have l: "length (cs_offsets seg) < 2 ^ 21" "length (cs_edges seg) < 2 ^ 21"
    "length (cs_in_offsets seg) < 2 ^ 21" "length (cs_in_edges seg) < 2 ^ 21"
    using len small u64le.length_concat_enc edgerec.length_concat_enc
    by (simp_all add: encode_offsets_def encode_edges_def PAGE_SIZE_def)
  then have ul: "unat (of_nat (length (cs_offsets seg)) :: u64) = length (cs_offsets seg)"
    "unat (of_nat (length (cs_edges seg)) :: u64) = length (cs_edges seg)"
    "unat (of_nat (length (cs_in_offsets seg)) :: u64) = length (cs_in_offsets seg)"
    "unat (of_nat (length (cs_in_edges seg)) :: u64) = length (cs_in_edges seg)"
    by (simp_all add: unat_word_of_nat_less)
  have ids: "read_page_ids page 80 (length i1) = i1"
    "read_page_ids page (80 + length i1 * 8) (length i2) = i2"
    "read_page_ids page (80 + (length i1 + length i2) * 8) (length i3) = i3"
    "read_page_ids page (80 + (length i1 + length i2 + length i3) * 8) (length i4) = i4"
    using read_page_ids_ok [of "length i1" i1 80 ?h "concat (map to_le (i2 @ i3 @ i4)) @ pad"]
      read_page_ids_ok [of "length i2" i2 "80 + length i1 * 8" "?h @ concat (map to_le i1)" "concat (map to_le (i3 @ i4)) @ pad"]
      read_page_ids_ok [of "length i3" i3 "80 + (length i1 + length i2) * 8" "?h @ concat (map to_le (i1 @ i2))" "concat (map to_le i4) @ pad"]
      read_page_ids_ok [of "length i4" i4 "80 + (length i1 + length i2 + length i3) * 8" "?h @ concat (map to_le (i1 @ i2 @ i3))" pad]
    by (simp_all add: page u64le.length_concat_enc)
  note f = meta_head_fields [OF page]
  show ?thesis
    unfolding decode_segment_def Let_def f u ul ids using n rd l
    by (simp add: decode_offsets_ok decode_edges_ok)
qed

lemma persist_ok:
  assumes inv: "pager_inv p" and ok: "persist seg p = Inr (seg', p')"
  obtains seg1 where "build_reverse seg = Inr seg1" "seg' = seg1\<lparr>cs_meta_page_id := cs_meta_page_id seg'\<rparr>"
    "pager_inv p'" "pg_pages p \<subseteq>\<^sub>m pg_pages p'" "csr_load p' (cs_meta_page_id seg') = Inr seg'"
proof -
  from ok obtain seg1 i1 q1 i2 q2 i3 q3 i4 q4 m q5 page where b: "build_reverse seg = Inr seg1"
    and w: "write_blob_pages (encode_offsets (cs_offsets seg1)) p = Inr (i1, q1)"
      "write_blob_pages (encode_edges (cs_edges seg1)) q1 = Inr (i2, q2)"
      "write_blob_pages (encode_offsets (cs_in_offsets seg1)) q2 = Inr (i3, q3)"
      "write_blob_pages (encode_edges (cs_in_edges seg1)) q3 = Inr (i4, q4)"
    and a: "allocate_page q4 = Inr (m, q5)" and s: "seg' = seg1\<lparr>cs_meta_page_id := m\<rparr>"
    and e: "encode_meta seg' i1 i2 i3 i4 = Inr page" and wr: "write_page m page q5 = Inr p'"
    unfolding persist_def Let_def by (auto simp: rbind_Inr_iff)
  note o1 = write_blob_pages_ok [OF inv w(1)]
  note o2 = write_blob_pages_ok [OF conjunct1 [OF o1] w(2)]
  note o3 = write_blob_pages_ok [OF conjunct1 [OF o2] w(3)]
  note o4 = write_blob_pages_ok [OF conjunct1 [OF o3] w(4)]
  obtain pad where page: "page = meta_head seg' (length i1) (length i2) (length i3) (length i4) @
      concat (map to_le (i1 @ i2 @ i3 @ i4)) @ pad" "length page = PAGE_SIZE"
    and n: "80 + (length i1 + length i2 + length i3 + length i4) * 8 \<le> PAGE_SIZE"
    by (rule encode_meta_bytes [OF e])
  obtain p'' where "write_page m page q5 = Inr p''" "pager_inv p''" "pg_pages p'' = (pg_pages q4)(m \<mapsto> page)"
    "pg_pages q4 m = None"
    using pgs.alloc_write [OF conjunct1 [OF o4] a page(2)] by metis
  with wr have inv': "pager_inv p'" and pp: "pg_pages p' = (pg_pages q4)(m \<mapsto> page)" "pg_pages q4 m = None"
    by simp_all
  have le: "pg_pages q4 \<subseteq>\<^sub>m pg_pages p'" using pp by (auto simp: map_le_def)
  have le3: "pg_pages q3 \<subseteq>\<^sub>m pg_pages p'" using o4 le map_le_trans by blast
  have le2: "pg_pages q2 \<subseteq>\<^sub>m pg_pages p'" using o3 le3 map_le_trans by blast
  have le1: "pg_pages q1 \<subseteq>\<^sub>m pg_pages p'" using o2 le2 map_le_trans by blast
  have le0: "pg_pages p \<subseteq>\<^sub>m pg_pages p'" using o1 le1 map_le_trans by blast
  have f: "cs_offsets seg' = cs_offsets seg1" "cs_edges seg' = cs_edges seg1"
    "cs_in_offsets seg' = cs_in_offsets seg1" "cs_in_edges seg' = cs_in_edges seg1" by (simp_all add: s)
  obtain d1 d2 d3 d4 where rd: "read_blob_pages p' i1 = Inr (encode_offsets (cs_offsets seg') @ d1)"
      "read_blob_pages p' i2 = Inr (encode_edges (cs_edges seg') @ d2)"
      "read_blob_pages p' i3 = Inr (encode_offsets (cs_in_offsets seg') @ d3)"
      "read_blob_pages p' i4 = Inr (encode_edges (cs_in_edges seg') @ d4)"
    unfolding f using o1 o2 o3 o4 inv' le1 le2 le3 le by meson
  have len: "length (encode_offsets (cs_offsets seg')) \<le> length i1 * PAGE_SIZE"
      "length (encode_edges (cs_edges seg')) \<le> length i2 * PAGE_SIZE"
      "length (encode_offsets (cs_in_offsets seg')) \<le> length i3 * PAGE_SIZE"
      "length (encode_edges (cs_in_edges seg')) \<le> length i4 * PAGE_SIZE"
    unfolding f using o1 o2 o3 o4 by blast+
  have "read_page p' m = Inr page" using pgs.read_law [OF inv', of m page] by (simp add: pp)
  with decode_meta [OF page(1) n len rd] have "csr_load p' m = Inr seg'"
    by (simp add: csr_load_def) (simp add: s)
  with that [OF b _ inv' le0] show thesis by (simp add: s)
qed

subsection \<open>How much fits\<close>

definition blob_page_count :: "nat \<Rightarrow> nat" where
  "blob_page_count n = (n + PAGE_SIZE - 1) div PAGE_SIZE"

definition segment_pages :: "csr_segment \<Rightarrow> nat" where
  "segment_pages seg =
     blob_page_count (8 * length (cs_offsets seg)) + blob_page_count (8 * length (cs_edges seg)) +
     blob_page_count (8 * length (cs_in_offsets seg)) + blob_page_count (8 * length (cs_in_edges seg))"

lemma blob_page_count_step:
  "bs \<noteq> [] \<Longrightarrow> blob_page_count (length bs) = Suc (blob_page_count (length (drop (min (length bs) PAGE_SIZE) bs)))"
  by (cases "length bs \<le> PAGE_SIZE")
     (simp_all add: blob_page_count_def PAGE_SIZE_def min_def Suc_leI le_div_geq div_nat_eqI)

lemma write_blob_pages_fits:
  assumes "pager_inv p" "blob_page_count (length bs) \<le> free_pages p"
  shows "\<exists>ids p'. write_blob_pages bs p = Inr (ids, p') \<and> length ids = blob_page_count (length bs) \<and>
    pager_inv p' \<and> free_pages p' = free_pages p - blob_page_count (length bs)"
  using assms
proof (induction "length bs" arbitrary: bs p rule: less_induct)
  case less
  show ?case
  proof (cases bs)
    case Nil
    then show ?thesis using less.prems by (simp add: blob_page_count_def PAGE_SIZE_def)
  next
    case (Cons b r)
    let ?n = "min (length bs) PAGE_SIZE"
    let ?page = "overwrite 0 (take ?n bs) zero_page"
    have n: "blob_page_count (length bs) = Suc (blob_page_count (length (drop ?n bs)))"
      using blob_page_count_step [of bs] Cons by simp
    have lp: "length ?page = PAGE_SIZE" by (simp add: zero_page_def)
    have "0 < free_pages p" using n less.prems(2) by simp
    then obtain i p1 p2 where p2: "allocate_page p = Inr (i, p1)" "write_page i ?page p1 = Inr p2" "pager_inv p2"
      "free_pages p2 = free_pages p - 1"
      by (rule alloc_write_free [OF less.prems(1) _ lp])
    have "length (drop ?n bs) < length bs" using Cons by (simp add: PAGE_SIZE_def)
    moreover have "blob_page_count (length (drop ?n bs)) \<le> free_pages p2" using p2(4) n less.prems(2) by simp
    ultimately obtain ids p' where
      "write_blob_pages (drop ?n bs) p2 = Inr (ids, p')" "length ids = blob_page_count (length (drop ?n bs))"
      "pager_inv p'" "free_pages p' = free_pages p2 - blob_page_count (length (drop ?n bs))"
      using less.hyps [OF _ p2(3)] by blast
    then show ?thesis using p2 n by (simp add: Cons Let_def)
  qed
qed

lemma encode_meta_error:
  "PAGE_SIZE < 80 + (length i1 + length i2 + length i3 + length i4) * 8 \<Longrightarrow>
   encode_meta seg i1 i2 i3 i4 = Inl (WalProtocol ''csr meta page overflow'')"
  by (simp add: encode_meta_def)

lemma encode_meta_fits:
  assumes "80 + (length i1 + length i2 + length i3 + length i4) * 8 \<le> PAGE_SIZE"
  obtains page where "encode_meta seg i1 i2 i3 i4 = Inr page" "length page = PAGE_SIZE"
proof -
  obtain page where "encode_meta seg i1 i2 i3 i4 = Inr page" using assms by (simp add: encode_meta_def Let_def)
  with that encode_meta_bytes [OF this] show thesis by blast
qed

text \<open>
  How large a segment may be: with enough free pages, \<open>persist\<close> succeeds exactly when the page lists
  of its four tables fit in the meta page, 1014 pages in all.
\<close>

lemma persist_bound_aux:
  assumes inv: "pager_inv p" and b: "build_reverse seg = Inr seg1" and free: "segment_pages seg1 < free_pages p"
  shows "if 80 + 8 * segment_pages seg1 \<le> PAGE_SIZE then \<exists>seg' p'. persist seg p = Inr (seg', p') \<and> free_pages p' = free_pages p - (segment_pages seg1 + 1)
    else persist seg p = Inl (WalProtocol ''csr meta page overflow'')"
proof -
  have len: "length (encode_offsets os) = 8 * length os" "length (encode_edges es) = 8 * length es" for os es
    by (simp_all add: encode_offsets_def encode_edges_def u64le.length_concat_enc edgerec.length_concat_enc)
  note fits = write_blob_pages_fits [of _ "encode_offsets _", unfolded len] write_blob_pages_fits [of _ "encode_edges _", unfolded len]
  have le1: "blob_page_count (8 * length (cs_offsets seg1)) \<le> free_pages p"
    using free by (simp add: segment_pages_def)
  obtain i1 q1 where w1: "write_blob_pages (encode_offsets (cs_offsets seg1)) p = Inr (i1, q1)" "pager_inv q1"
    "length i1 = blob_page_count (8 * length (cs_offsets seg1))"
    "free_pages q1 = free_pages p - blob_page_count (8 * length (cs_offsets seg1))"
    using fits(1) [OF inv le1] by auto
  have le2: "blob_page_count (8 * length (cs_edges seg1)) \<le> free_pages q1"
    using free w1(4) by (simp add: segment_pages_def)
  obtain i2 q2 where w2: "write_blob_pages (encode_edges (cs_edges seg1)) q1 = Inr (i2, q2)" "pager_inv q2"
    "length i2 = blob_page_count (8 * length (cs_edges seg1))"
    "free_pages q2 = free_pages q1 - blob_page_count (8 * length (cs_edges seg1))"
    using fits(2) [OF w1(2) le2] by auto
  have le3: "blob_page_count (8 * length (cs_in_offsets seg1)) \<le> free_pages q2"
    using free w1(4) w2(4) by (simp add: segment_pages_def)
  obtain i3 q3 where w3: "write_blob_pages (encode_offsets (cs_in_offsets seg1)) q2 = Inr (i3, q3)" "pager_inv q3"
    "length i3 = blob_page_count (8 * length (cs_in_offsets seg1))"
    "free_pages q3 = free_pages q2 - blob_page_count (8 * length (cs_in_offsets seg1))"
    using fits(1) [OF w2(2) le3] by auto
  have le4: "blob_page_count (8 * length (cs_in_edges seg1)) \<le> free_pages q3"
    using free w1(4) w2(4) w3(4) by (simp add: segment_pages_def)
  obtain i4 q4 where w4: "write_blob_pages (encode_edges (cs_in_edges seg1)) q3 = Inr (i4, q4)" "pager_inv q4"
    "length i4 = blob_page_count (8 * length (cs_in_edges seg1))"
    "free_pages q4 = free_pages q3 - blob_page_count (8 * length (cs_in_edges seg1))"
    using fits(2) [OF w3(2) le4] by auto
  have n: "length i1 + length i2 + length i3 + length i4 = segment_pages seg1"
    using w1(3) w2(3) w3(3) w4(3) by (simp add: segment_pages_def)
  have f: "0 < free_pages q4" using free w1(4) w2(4) w3(4) w4(4) by (simp add: segment_pages_def)
  note ws = b w1(1) w2(1) w3(1) w4(1)
  obtain m q5 where a: "allocate_page q4 = Inr (m, q5)"
    by (rule alloc_write_free [OF w4(2) f, of zero_page]) (simp_all add: zero_page_def)
  show ?thesis
  proof (cases "80 + 8 * segment_pages seg1 \<le> PAGE_SIZE")
    case True
    then have "80 + (length i1 + length i2 + length i3 + length i4) * 8 \<le> PAGE_SIZE" by (simp add: n)
    then obtain page where pg: "encode_meta (seg1\<lparr>cs_meta_page_id := m\<rparr>) i1 i2 i3 i4 = Inr page"
      "length page = PAGE_SIZE" by (rule encode_meta_fits)
    obtain p' where p': "write_page m page q5 = Inr p'" "free_pages p' = free_pages q4 - 1"
      by (rule alloc_write_free [OF w4(2) f pg(2)]) (use a in auto)
    have "free_pages p' = free_pages p - (segment_pages seg1 + 1)"
      using p'(2) w1(4) w2(4) w3(4) w4(4) by (simp add: segment_pages_def)
    with ws a pg True p'(1) show ?thesis by (simp add: persist_def Let_def)
  next
    case False
    then have "PAGE_SIZE < 80 + (length i1 + length i2 + length i3 + length i4) * 8" by (simp add: n)
    from encode_meta_error [OF this] ws a False show ?thesis by (simp add: persist_def Let_def)
  qed
qed

lemma reverse_lookups:
  assumes "csr_fwd seg es" "es \<noteq> []" "cs_in_edges seg = []" "\<forall>e \<in> set es. ek_dst e \<noteq> - 1"
  shows "\<exists>seg'. build_reverse seg = Inr seg' \<and>
    csr_neighbors seg' x rel = Inr (filter (\<lambda>e. ek_src e = x \<and> rel_matches rel (ek_rel e)) es) \<and>
    csr_incoming_neighbors seg' x rel =
      Inr (filter (\<lambda>e. ek_dst e = x \<and> rel_matches rel (ek_rel e)) (sort_key rev_key es))"
proof (rule build_reverse_ok [OF assms])
  fix lo hi offs ins
  let ?seg = "seg\<lparr>cs_min_dst := lo, cs_max_dst := hi, cs_in_offsets := offs, cs_in_edges := ins\<rparr>"
  assume b: "build_reverse seg = Inr ?seg" "index_ok ek_dst lo hi offs (sort_key rev_key es)"
    "ins = map bwd_record (sort_key rev_key es)"
  have "csr_fwd ?seg es" "csr_bwd ?seg (sort_key rev_key es)"
    using assms(1) b(2,3) by (simp_all add: csr_fwd_def csr_bwd_def)
  then show ?thesis using b(1) csr_neighbors_fwd csr_incoming_bwd by blast
qed

text \<open>
  C4. The two adjacency indexes agree. For a segment that holds the edges \<open>es\<close> by source (as
  compaction builds it), \<open>persist\<close> adds an index by target without a panic, and afterwards
  the outgoing and the incoming lookups of every node and relationship type list exactly
  the edges of \<open>es\<close> with that source or target, the same edges seen from both ends.
\<close>

theorem reverse_index_exact:
  assumes "csr_fwd seg es" "es \<noteq> []" "cs_in_edges seg = []" "\<forall>e \<in> set es. ek_dst e \<noteq> - 1"
  shows "\<exists>seg'. build_reverse seg = Inr seg' \<and>
    csr_neighbors seg' x rel = Inr (filter (\<lambda>e. ek_src e = x \<and> rel_matches rel (ek_rel e)) es) \<and>
    csr_incoming_neighbors seg' x rel =
      Inr (filter (\<lambda>e. ek_dst e = x \<and> rel_matches rel (ek_rel e)) (sort_key rev_key es))"
  by (rule reverse_lookups [OF assms])

text \<open>A small segment, for instances.\<close>

definition ex_edges :: "edge_key list" where
  "ex_edges = [EdgeKey 1 7 2, EdgeKey 1 7 3, EdgeKey 3 7 2]"

definition ex_segment :: csr_segment where
  "ex_segment = \<lparr>cs_id = 1, cs_meta_page_id = 0, cs_min_src = 1, cs_max_src = 3, cs_min_dst = 0, cs_max_dst = 0,
     cs_offsets = [0, 2, 2, 3], cs_edges = map fwd_record ex_edges, cs_in_offsets = [], cs_in_edges = []\<rparr>"

lemma ex_segment_fwd: "csr_fwd ex_segment ex_edges"
proof -
  have "(\<forall>i \<le> Suc (Suc (Suc 0)). P i) \<longleftrightarrow> P 0 \<and> P (Suc 0) \<and> P (Suc (Suc 0)) \<and> P (Suc (Suc (Suc 0)))" for P
    by (auto simp: le_Suc_eq)
  from this [folded numeral_3_eq_3 numeral_2_eq_2] show ?thesis
    by (simp add: csr_fwd_def index_ok_def ex_segment_def ex_edges_def)
qed

theorem reverse_index_exact_witness:
  "\<exists>seg'. build_reverse ex_segment = Inr seg' \<and>
     csr_neighbors seg' 1 None = Inr [EdgeKey 1 7 2, EdgeKey 1 7 3] \<and>
     csr_incoming_neighbors seg' 1 None = Inr []"
proof -
  have "ex_edges \<noteq> []" "cs_in_edges ex_segment = []" "\<forall>e \<in> set ex_edges. ek_dst e \<noteq> - 1"
    by (simp_all add: ex_edges_def ex_segment_def)
  from reverse_index_exact [OF ex_segment_fwd this, of 1 None] show ?thesis
    by (simp add: ex_edges_def rel_matches_def)
qed

end
