(* ===== verification/LabelInterner.thy ===== *)
theory LabelInterner
  imports Dicts
begin

text \<open>
  The label interner of nervusdb-storage/src/label_interner.rs: names to dense 32-bit ids and
  back. A snapshot is a copy of the two maps.
\<close>

section \<open>Definitions\<close>

record label_snapshot =
  ls_s2i :: "(rstring, u32) hmap"
  ls_i2s :: "rstring list"

definition ls_new :: "(rstring, u32) hmap \<Rightarrow> rstring list \<Rightarrow> label_snapshot" where
  "ls_new s2i i2s = \<lparr>ls_s2i = s2i, ls_i2s = i2s\<rparr>"

definition ls_get_id :: "label_snapshot \<Rightarrow> rstring \<Rightarrow> u32 option" where
  "ls_get_id s name = hm_get (ls_s2i s) name"

definition ls_get_name :: "label_snapshot \<Rightarrow> u32 \<Rightarrow> rstring option" where
  "ls_get_name s i = vec_get (ls_i2s s) (unat i)"

definition ls_contains :: "label_snapshot \<Rightarrow> rstring \<Rightarrow> bool" where
  "ls_contains s name \<longleftrightarrow> hm_get (ls_s2i s) name \<noteq> None"

definition ls_len :: "label_snapshot \<Rightarrow> nat" where
  "ls_len s = length (ls_s2i s)"

definition ls_is_empty :: "label_snapshot \<Rightarrow> bool" where
  "ls_is_empty s \<longleftrightarrow> ls_s2i s = []"

definition ls_iter_ids :: "label_snapshot \<Rightarrow> u32 list" where
  "ls_iter_ids s = map of_nat [0..<unat (of_nat (length (ls_i2s s)) :: u32)]"

record label_interner =
  li_s2i :: "(rstring, u32) hmap"
  li_i2s :: "rstring list"

definition li_new :: label_interner where
  "li_new = \<lparr>li_s2i = [], li_i2s = []\<rparr>"

definition li_snapshot :: "label_interner \<Rightarrow> label_snapshot" where
  "li_snapshot s = ls_new (li_s2i s) (li_i2s s)"

definition li_get_id :: "label_interner \<Rightarrow> rstring \<Rightarrow> u32 option" where
  "li_get_id s name = hm_get (li_s2i s) name"

definition li_get_name :: "label_interner \<Rightarrow> u32 \<Rightarrow> rstring option" where
  "li_get_name s i = vec_get (li_i2s s) (unat i)"

definition li_get_or_create :: "rstring \<Rightarrow> label_interner \<Rightarrow> u32 \<times> label_interner" where
  "li_get_or_create name s =
    (case hm_get (li_s2i s) name of
       Some i \<Rightarrow> (i, s)
     | None \<Rightarrow>
         let i = of_nat (length (li_i2s s))
         in (i, \<lparr>li_s2i = hm_insert name i (li_s2i s), li_i2s = li_i2s s @ [name]\<rparr>))"

definition li_get_or_create_owned :: "rstring \<Rightarrow> label_interner \<Rightarrow> u32 \<times> label_interner" where
  "li_get_or_create_owned name s =
    (case hm_get (li_s2i s) name of
       Some i \<Rightarrow> (i, s)
     | None \<Rightarrow>
         let i = of_nat (length (li_i2s s))
         in (i, \<lparr>li_s2i = hm_insert name i (li_s2i s), li_i2s = li_i2s s @ [name]\<rparr>))"

definition li_contains :: "label_interner \<Rightarrow> rstring \<Rightarrow> bool" where
  "li_contains s name \<longleftrightarrow> hm_get (li_s2i s) name \<noteq> None"

definition li_len :: "label_interner \<Rightarrow> nat" where
  "li_len s = length (li_s2i s)"

definition li_is_empty :: "label_interner \<Rightarrow> bool" where
  "li_is_empty s \<longleftrightarrow> li_s2i s = []"

definition li_next_id :: "label_interner \<Rightarrow> u32" where
  "li_next_id s = of_nat (length (li_i2s s))"

fun li_merge_entries ::
  "(rstring \<times> u32) list \<Rightarrow> rstring list \<Rightarrow> nat \<Rightarrow> label_interner \<Rightarrow> nat \<times> label_interner" where
  "li_merge_entries [] other_i2s added s = (added, s)"
| "li_merge_entries ((name, i) # rest) other_i2s added s =
    (if hm_get (li_s2i s) name = None then
       let s = s\<lparr>li_s2i := hm_insert name i (li_s2i s)\<rparr>;
           s = (case vec_get other_i2s (unat i) of
                  Some name_str \<Rightarrow> s\<lparr>li_i2s := li_i2s s @ [name_str]\<rparr> | None \<Rightarrow> s)
       in li_merge_entries rest other_i2s (added + 1) s
     else li_merge_entries rest other_i2s added s)"

definition li_merge :: "label_interner \<Rightarrow> label_interner \<Rightarrow> nat \<times> label_interner" where
  "li_merge other s = li_merge_entries (li_s2i other) (li_i2s other) 0 s"

section \<open>The two maps are inverse\<close>

definition li_inv :: "label_interner \<Rightarrow> bool" where
  "li_inv s \<longleftrightarrow> hm_wf (li_s2i s) \<and> length (li_i2s s) \<le> 2 ^ 32 \<and>
     (\<forall>n i. li_get_id s n = Some i \<longleftrightarrow> li_get_name s i = Some n)"

lemma li_invD: "li_inv s \<Longrightarrow> li_get_id s n = Some i \<longleftrightarrow> li_get_name s i = Some n"
  by (simp add: li_inv_def)

lemma li_get_name_lt: "li_get_name s i = Some n \<Longrightarrow> unat i < length (li_i2s s)"
  by (simp add: li_get_name_def vec_get_def split: if_splits)

lemma li_inv_new [simp]: "li_inv li_new"
  by (simp add: li_inv_def li_new_def li_get_id_def li_get_name_def vec_get_def)

lemma li_i2s_new [simp]: "li_i2s li_new = []"
  by (simp add: li_new_def)

lemma get_or_create_owned_eq: "li_get_or_create_owned = li_get_or_create"
  by (simp add: fun_eq_iff li_get_or_create_def li_get_or_create_owned_def)

lemma li_get_or_create_old: "li_get_id s n = Some i \<Longrightarrow> li_get_or_create n s = (i, s)"
  by (simp add: li_get_or_create_def li_get_id_def)

lemma li_get_or_create_new:
  assumes inv: "li_inv s" and new: "li_get_id s n = None" and room: "length (li_i2s s) < 2 ^ 32"
  obtains s' where "li_get_or_create n s = (of_nat (length (li_i2s s)), s')" "li_inv s'"
    "li_i2s s' = li_i2s s @ [n]"
    "\<And>m. li_get_id s' m = (if m = n then Some (of_nat (length (li_i2s s))) else li_get_id s m)"
proof -
  let ?k = "length (li_i2s s)" and ?i = "of_nat (length (li_i2s s)) :: u32"
  let ?s = "\<lparr>li_s2i = hm_insert n ?i (li_s2i s), li_i2s = li_i2s s @ [n]\<rparr>"
  have k: "unat ?i = ?k" using room by (intro unat_word_of_nat_less) simp
  have e: "li_get_or_create n s = (?i, ?s)"
    using new by (simp add: li_get_or_create_def li_get_id_def Let_def)
  have g: "li_get_id ?s m = (if m = n then Some ?i else li_get_id s m)" for m
    by (simp add: li_get_id_def)
  have nm: "li_get_name ?s i = (if i = ?i then Some n else li_get_name s i)" for i
    using k by (auto simp: li_get_name_def vec_get_def nth_append word_unat_eq_iff)
  have fresh: "li_get_name s ?i = None" by (simp add: li_get_name_def vec_get_def k)
  have "li_get_id ?s m = Some i \<longleftrightarrow> li_get_name ?s i = Some m" for m i
    using inv new fresh unfolding g nm li_inv_def by (metis option.distinct(1) option.inject)
  then have "li_inv ?s" using inv room by (simp add: li_inv_def)
  with e g that show thesis by simp
qed

lemma li_get_or_create_inv:
  assumes "li_inv s" "length (li_i2s s) < 2 ^ 32"
  shows "li_inv (snd (li_get_or_create n s))"
    "li_get_id (snd (li_get_or_create n s)) n = Some (fst (li_get_or_create n s))"
    "li_get_id s m = Some i \<Longrightarrow> li_get_id (snd (li_get_or_create n s)) m = Some i"
    "length (li_i2s (snd (li_get_or_create n s))) \<le> Suc (length (li_i2s s))"
proof -
  have "li_inv (snd (li_get_or_create n s)) \<and>
    li_get_id (snd (li_get_or_create n s)) n = Some (fst (li_get_or_create n s)) \<and>
    (\<forall>m i. li_get_id s m = Some i \<longrightarrow> li_get_id (snd (li_get_or_create n s)) m = Some i) \<and>
    length (li_i2s (snd (li_get_or_create n s))) \<le> Suc (length (li_i2s s))"
  proof (cases "li_get_id s n")
    case None
    then obtain s' where "li_get_or_create n s = (of_nat (length (li_i2s s)), s')" "li_inv s'"
      "li_i2s s' = li_i2s s @ [n]"
      "\<And>m. li_get_id s' m = (if m = n then Some (of_nat (length (li_i2s s))) else li_get_id s m)"
      using li_get_or_create_new [OF assms(1) None assms(2)] by blast
    with None show ?thesis by simp
  next
    case (Some i)
    with assms show ?thesis by (simp add: li_get_or_create_old)
  qed
  then show "li_inv (snd (li_get_or_create n s))"
    "li_get_id (snd (li_get_or_create n s)) n = Some (fst (li_get_or_create n s))"
    "li_get_id s m = Some i \<Longrightarrow> li_get_id (snd (li_get_or_create n s)) m = Some i"
    "length (li_i2s (snd (li_get_or_create n s))) \<le> Suc (length (li_i2s s))"
    by blast+
qed

text \<open>The interner after a sequence of \<open>get_or_create\<close> calls.\<close>

definition li_run :: "rstring list \<Rightarrow> label_interner \<Rightarrow> label_interner" where
  "li_run names s = fold (\<lambda>n s. snd (li_get_or_create n s)) names s"

lemma li_run_inv:
  assumes "li_inv s" "length (li_i2s s) + length ns \<le> 2 ^ 32"
  shows "li_inv (li_run ns s)" "length (li_i2s (li_run ns s)) \<le> length (li_i2s s) + length ns"
    "li_get_id s m = Some i \<Longrightarrow> li_get_id (li_run ns s) m = Some i"
    "m \<in> set ns \<Longrightarrow> li_get_id (li_run ns s) m \<noteq> None"
proof -
  have "li_inv (li_run ns s) \<and> length (li_i2s (li_run ns s)) \<le> length (li_i2s s) + length ns \<and>
    (\<forall>m i. li_get_id s m = Some i \<longrightarrow> li_get_id (li_run ns s) m = Some i) \<and>
    (\<forall>m \<in> set ns. li_get_id (li_run ns s) m \<noteq> None)"
    using assms
  proof (induction ns arbitrary: s)
    case Nil
    then show ?case by (simp add: li_run_def)
  next
    case (Cons n ns)
    let ?s = "snd (li_get_or_create n s)"
    have "length (li_i2s s) < 2 ^ 32" using Cons.prems(2) by simp
    note step = li_get_or_create_inv [OF Cons.prems(1) this, where n = n]
    have "li_run (n # ns) s = li_run ns ?s" by (simp add: li_run_def)
    moreover have "length (li_i2s ?s) + length ns \<le> 2 ^ 32" using step(4) Cons.prems(2) by simp
    note IH = Cons.IH [OF step(1) this]
    ultimately show ?case using step(2,3,4) by fastforce
  qed
  then show "li_inv (li_run ns s)" "length (li_i2s (li_run ns s)) \<le> length (li_i2s s) + length ns"
    "li_get_id s m = Some i \<Longrightarrow> li_get_id (li_run ns s) m = Some i"
    "m \<in> set ns \<Longrightarrow> li_get_id (li_run ns s) m \<noteq> None"
    by blast+
qed

section \<open>Properties\<close>

text \<open>
  C26. After any sequence of at most \<open>2^32\<close> \<open>get_or_create\<close> calls on a new interner, names and ids
  are in bijection, every requested name has an id, and an id once given to a name stays its
  id in every later state; a snapshot answers as the interner did when it was taken.
\<close>

theorem interner_bijection:
  assumes "length ns + length ms \<le> 2 ^ 32"
  shows "let s = li_run ns li_new; s' = li_run ms s in
    (\<forall>n i. li_get_id s n = Some i \<longleftrightarrow> li_get_name s i = Some n) \<and>
    (\<forall>n \<in> set ns. \<exists>i. li_get_id s n = Some i) \<and>
    (\<forall>n i. li_get_id s n = Some i \<longrightarrow> li_get_id s' n = Some i \<and> li_get_name s' i = Some n) \<and>
    (\<forall>n. ls_get_id (li_snapshot s) n = li_get_id s n) \<and>
    (\<forall>i. ls_get_name (li_snapshot s) i = li_get_name s i)"
proof -
  let ?s = "li_run ns li_new"
  have r: "length (li_i2s li_new) + length ns \<le> 2 ^ 32" using assms by simp
  note a = li_run_inv [OF li_inv_new r]
  have "length (li_i2s ?s) + length ms \<le> 2 ^ 32" using a(2) assms by simp
  note b = li_run_inv [OF a(1) this]
  have "li_get_name (li_run ms ?s) i = Some n" if "li_get_id ?s n = Some i" for n i
    using b(1) b(3) [OF that] by (simp add: li_inv_def)
  moreover have "\<forall>n i. li_get_id ?s n = Some i \<longleftrightarrow> li_get_name ?s i = Some n"
    using a(1) by (simp add: li_inv_def)
  ultimately show ?thesis
    using a(4) b(3)
    by (auto simp: li_snapshot_def ls_new_def ls_get_id_def ls_get_name_def li_get_id_def li_get_name_def)
qed

theorem interner_bijection_witness:
  "length [[65 :: u8], [66], [65]] + length [[67 :: u8]] \<le> 2 ^ 32 \<and>
   li_get_id (li_run [[65], [66], [65]] li_new) [66] = Some 1 \<and>
   li_get_name (li_run [[67]] (li_run [[65], [66], [65]] li_new)) 1 = Some [66]"
proof -
  have "li_get_id (li_run [[65], [66], [65]] li_new) [66] = Some 1" by code_simp
  with interner_bijection [of "[[65], [66], [65]]" "[[67]]"] show ?thesis
    by (auto simp: Let_def)
qed

lemma merge_entries_ok:
  fixes i2s :: "rstring list"
  defines "s' es k s \<equiv> snd (li_merge_entries es i2s k s)"
  shows "(hm_get (li_s2i s) n = Some j \<longrightarrow> hm_get (li_s2i (s' es k s)) n = Some j) \<and> (\<exists>ys. li_i2s (s' es k s) = li_i2s s @ ys) \<and>
    (distinct (map fst es) \<and> (n, i) \<in> set es \<and> hm_get (li_s2i s) n = None \<longrightarrow> hm_get (li_s2i (s' es k s)) n = Some i)"
proof (induction es arbitrary: k s j)
  case (Cons e es)
  obtain m l where e: "e = (m, l)" by fastforce
  show ?case
  proof (cases "hm_get (li_s2i s) m")
    case None
    define s1 where "s1 = (let s = s\<lparr>li_s2i := hm_insert m l (li_s2i s)\<rparr>
      in case vec_get i2s (unat l) of Some x \<Rightarrow> s\<lparr>li_i2s := li_i2s s @ [x]\<rparr> | None \<Rightarrow> s)"
    have "s' (e # es) k s = s' es (k + 1) s1" using None by (simp add: s'_def s1_def e Let_def)
    moreover have "li_s2i s1 = hm_insert m l (li_s2i s)" "\<exists>ys. li_i2s s1 = li_i2s s @ ys"
      by (auto simp: s1_def Let_def split: option.split)
    ultimately show ?thesis
      using Cons.IH [of s1 j "k + 1"] Cons.IH [of s1 l "k + 1"] None by (force simp: e split: if_splits)
  next
    case (Some x)
    then have "s' (e # es) k s = s' es k s" by (simp add: s'_def e)
    with Cons.IH [of s j k] Some show ?thesis by (auto simp: e)
  qed
qed (simp add: s'_def)

text \<open>
  \<open>merge\<close> takes over the other interner's id of a new name but appends the name at the end of the
  own table. Whenever that id is already taken, the new name has the id under which the old one
  is found, and names and ids are no longer in bijection.
\<close>

lemma merge_breaks_bijection:
  assumes "li_inv b" "li_inv a" "li_get_id a n = None" "li_get_id b n = Some i" "li_get_name a i = Some m"
  shows "li_get_id (snd (li_merge b a)) n = Some i \<and> li_get_name (snd (li_merge b a)) i = Some m \<and> \<not> li_inv (snd (li_merge b a))"
proof -
  have d: "distinct (map fst (li_s2i b))" using assms(1) by (simp add: li_inv_def hm_wf_def)
  have "(n, i) \<in> set (li_s2i b)" using assms(4) by (auto simp: li_get_id_def hm_get_def dest: map_of_SomeD)
  then have new: "li_get_id (snd (li_merge b a)) n = Some i"
    using merge_entries_ok [of a n] d assms(3) by (simp add: li_merge_def li_get_id_def)
  obtain ys where "li_i2s (snd (li_merge b a)) = li_i2s a @ ys" using merge_entries_ok [of a n 0 "li_s2i b" "li_i2s b" 0 i] unfolding li_merge_def by blast
  then have old: "li_get_name (snd (li_merge b a)) i = Some m"
    using assms(5) li_get_name_lt [OF assms(5)] by (simp add: li_get_name_def vec_get_def nth_append split: if_splits)
  have "\<not> li_inv (snd (li_merge b a))"
  proof
    assume "li_inv (snd (li_merge b a))"
    from li_invD [OF this] new old have "m = n" by (metis option.inject)
    with assms(3,5) li_invD [OF assms(2)] show False by (metis option.distinct(1))
  qed
  with new old show ?thesis by blast
qed

end
