(* ===== verification/ReadPath.thy ===== *)
theory ReadPath
  imports Csr LabelInterner
begin

text \<open>
  Reading a snapshot: the overlay of the runs (newest first) over the segments. The files
  nervusdb-storage/src/read_path_overlay.rs, read_path_neighbors.rs, read_path_iters.rs,
  read_path_nodes.rs, read_path_tombstones.rs, read_path_labels.rs, read_path_symbols.rs, and
  \<open>Snapshot\<close> of snapshot.rs. The two neighbour iterators have the same code over the two
  directions; it is written once, with what differs as arguments.
\<close>

section \<open>Properties\<close>

fun property_from_runs ::
  "(l0_run \<Rightarrow> bool) \<Rightarrow> (l0_run \<Rightarrow> property_value option) \<Rightarrow> l0_run list \<Rightarrow> property_value option" where
  "property_from_runs deleted lookup [] = None"
| "property_from_runs deleted lookup (run # runs) =
     (if deleted run then None
      else case lookup run of
             Some v \<Rightarrow> Some v
           | None \<Rightarrow> property_from_runs deleted lookup runs)"

definition node_property_from_runs :: "l0_run list \<Rightarrow> u32 \<Rightarrow> rstring \<Rightarrow> property_value option" where
  "node_property_from_runs runs node key =
     property_from_runs (\<lambda>r. bset_has (run_tombstoned_node_properties r) node key)
       (\<lambda>r. node_property_in_run r node key) runs"

definition edge_property_from_runs :: "l0_run list \<Rightarrow> edge_key \<Rightarrow> rstring \<Rightarrow> property_value option" where
  "edge_property_from_runs runs edge key =
     property_from_runs (\<lambda>r. bset_has (run_tombstoned_edge_properties r) edge key)
       (\<lambda>r. edge_property_in_run r edge key) runs"

type_synonym merge_state = "(rstring, property_value) btmap \<times> rstring list"

text \<open>\<open>if resolved.insert(key) { merged.insert(key, value) }\<close>\<close>

fun merge_prop :: "rstring \<times> property_value \<Rightarrow> merge_state \<Rightarrow> merge_state" where
  "merge_prop (key, v) (merged, resolved) =
     (if List.member resolved key then (merged, resolved)
      else (bt_insert key v merged, bs_insert key resolved))"

fun merge_run ::
  "(l0_run \<Rightarrow> rstring list option) \<Rightarrow> (l0_run \<Rightarrow> (rstring, property_value) btmap option) \<Rightarrow>
   l0_run \<Rightarrow> merge_state \<Rightarrow> merge_state" where
  "merge_run deleted props run (merged, resolved) =
    (let resolved = (case deleted run of None \<Rightarrow> resolved | Some ks \<Rightarrow> fold bs_insert ks resolved)
     in case props run of
          None \<Rightarrow> (merged, resolved)
        | Some ps \<Rightarrow> fold merge_prop ps (merged, resolved))"

definition merge_properties_from_runs ::
  "(l0_run \<Rightarrow> rstring list option) \<Rightarrow> (l0_run \<Rightarrow> (rstring, property_value) btmap option) \<Rightarrow>
   l0_run list \<Rightarrow> (rstring, property_value) btmap option" where
  "merge_properties_from_runs deleted props runs =
    (let merged = fst (fold (merge_run deleted props) runs ([], []))
     in if merged = [] then None else Some merged)"

definition merge_node_properties_from_runs ::
  "l0_run list \<Rightarrow> u32 \<Rightarrow> (rstring, property_value) btmap option" where
  "merge_node_properties_from_runs runs node =
     merge_properties_from_runs (\<lambda>r. bt_get (run_tombstoned_node_properties r) node)
       (\<lambda>r. node_properties_in_run r node) runs"

definition merge_edge_properties_from_runs ::
  "l0_run list \<Rightarrow> edge_key \<Rightarrow> (rstring, property_value) btmap option" where
  "merge_edge_properties_from_runs runs edge =
     merge_properties_from_runs (\<lambda>r. bt_get (run_tombstoned_edge_properties r) edge)
       (\<lambda>r. edge_properties_in_run r edge) runs"

section \<open>Nodes and labels\<close>

definition collect_tombstoned_nodes :: "l0_run list \<Rightarrow> u32 set" where
  "collect_tombstoned_nodes runs = set (concat (map iter_tombstoned_nodes runs))"

definition is_tombstoned_node_in_runs :: "l0_run list \<Rightarrow> u32 \<Rightarrow> bool" where
  "is_tombstoned_node_in_runs runs iid = list_ex (\<lambda>run. list_ex (\<lambda>node. node = iid) (iter_tombstoned_nodes run)) runs"

definition live_node_ids :: "u32 \<Rightarrow> l0_run list \<Rightarrow> u32 list" where
  "live_node_ids max_id runs =
     filter (\<lambda>iid. \<not> is_tombstoned_node_in_runs runs iid) (map of_nat [0..<unat max_id])"

definition node_primary_label :: "u32 list list \<Rightarrow> u32 \<Rightarrow> u32 option" where
  "node_primary_label node_labels iid =
     Option.bind (vec_get node_labels (unat iid)) (\<lambda>labels. vec_get labels 0)"

definition node_all_labels :: "u32 list list \<Rightarrow> u32 \<Rightarrow> u32 list option" where
  "node_all_labels node_labels iid = vec_get node_labels (unat iid)"

definition resolve_symbol_id :: "label_snapshot \<Rightarrow> rstring \<Rightarrow> u32 option" where
  "resolve_symbol_id labels name = ls_get_id labels name"

definition resolve_symbol_name :: "label_snapshot \<Rightarrow> u32 \<Rightarrow> rstring option" where
  "resolve_symbol_name labels label_id = ls_get_name labels label_id"

section \<open>Neighbours\<close>

definition load_outgoing_run_edges :: "l0_run \<Rightarrow> u32 \<Rightarrow> edge_key list" where
  "load_outgoing_run_edges run src = edges_for_src (run_edges_by_src run) src"

definition load_incoming_run_edges :: "l0_run \<Rightarrow> u32 \<Rightarrow> edge_key list" where
  "load_incoming_run_edges run dst = edges_for_dst (run_edges_by_dst run) dst"

definition load_outgoing_segment_edges :: "csr_segment \<Rightarrow> u32 \<Rightarrow> u32 option \<Rightarrow> edge_key list result" where
  "load_outgoing_segment_edges seg src rel = csr_neighbors seg src rel"

definition load_incoming_segment_edges :: "csr_segment \<Rightarrow> u32 \<Rightarrow> u32 option \<Rightarrow> edge_key list result" where
  "load_incoming_segment_edges seg dst rel = csr_incoming_neighbors seg dst rel"

definition edge_blocked_outgoing :: "edge_key \<Rightarrow> u32 set \<Rightarrow> edge_key set \<Rightarrow> bool" where
  "edge_blocked_outgoing edge blocked_nodes blocked_edges \<longleftrightarrow>
     ek_dst edge \<in> blocked_nodes \<or> edge \<in> blocked_edges"

definition edge_blocked_incoming :: "edge_key \<Rightarrow> u32 set \<Rightarrow> edge_key set \<Rightarrow> bool" where
  "edge_blocked_incoming edge blocked_nodes blocked_edges \<longleftrightarrow>
     ek_src edge \<in> blocked_nodes \<or> edge \<in> blocked_edges"

text \<open>What the two directions differ in.\<close>

record direction =
  dir_run_edges :: "l0_run \<Rightarrow> u32 \<Rightarrow> edge_key list"
  dir_segment_edges :: "csr_segment \<Rightarrow> u32 \<Rightarrow> u32 option \<Rightarrow> edge_key list result"
  dir_blocked :: "edge_key \<Rightarrow> u32 set \<Rightarrow> edge_key set \<Rightarrow> bool"

definition outgoing :: direction where
  "outgoing = \<lparr>dir_run_edges = load_outgoing_run_edges, dir_segment_edges = load_outgoing_segment_edges,
     dir_blocked = edge_blocked_outgoing\<rparr>"

definition incoming :: direction where
  "incoming = \<lparr>dir_run_edges = load_incoming_run_edges, dir_segment_edges = load_incoming_segment_edges,
     dir_blocked = edge_blocked_incoming\<rparr>"

record neighbors_iter =
  it_runs :: "l0_run list"
  it_segments :: "csr_segment list"
  it_node :: u32
  it_rel :: "u32 option"
  it_run_idx :: nat
  it_edge_idx :: nat
  it_current_edges :: "edge_key list"
  it_segment_idx :: nat
  it_segment_edge_idx :: nat
  it_current_segment_edges :: "edge_key list"
  it_blocked_nodes :: "u32 set"
  it_blocked_edges :: "edge_key set"
  it_pending_tombstoned_nodes :: "u32 set"
  it_pending_tombstoned_edges :: "edge_key set"
  it_terminated :: bool

definition neighbors_iter_new ::
  "l0_run list \<Rightarrow> csr_segment list \<Rightarrow> u32 \<Rightarrow> u32 option \<Rightarrow> neighbors_iter" where
  "neighbors_iter_new runs segments node rel =
     \<lparr>it_runs = runs, it_segments = segments, it_node = node, it_rel = rel,
      it_run_idx = 0, it_edge_idx = 0, it_current_edges = [],
      it_segment_idx = 0, it_segment_edge_idx = 0, it_current_segment_edges = [],
      it_blocked_nodes = {}, it_blocked_edges = {},
      it_pending_tombstoned_nodes = {}, it_pending_tombstoned_edges = {}, it_terminated = False\<rparr>"

definition apply_pending_tombstones :: "neighbors_iter \<Rightarrow> neighbors_iter" where
  "apply_pending_tombstones it =
    (if it_pending_tombstoned_nodes it = {} \<and> it_pending_tombstoned_edges it = {} then it
     else
       let it = it\<lparr>it_blocked_nodes := it_blocked_nodes it \<union> it_pending_tombstoned_nodes it,
                  it_pending_tombstoned_nodes := {},
                  it_blocked_edges := it_blocked_edges it \<union> it_pending_tombstoned_edges it,
                  it_pending_tombstoned_edges := {}\<rparr>
       in if it_node it \<in> it_blocked_nodes it then it\<lparr>it_terminated := True\<rparr> else it)"

definition load_run :: "direction \<Rightarrow> neighbors_iter \<Rightarrow> neighbors_iter" where
  "load_run dir it =
    (let it = it\<lparr>it_current_edges := [], it_edge_idx := 0\<rparr>
     in case vec_get (it_runs it) (it_run_idx it) of
          None \<Rightarrow> it\<lparr>it_terminated := True\<rparr>
        | Some run \<Rightarrow>
            if it_node it \<in> it_blocked_nodes it then it\<lparr>it_terminated := True\<rparr>
            else
              let it = it\<lparr>it_pending_tombstoned_nodes := set (iter_tombstoned_nodes run),
                         it_pending_tombstoned_edges := set (iter_tombstoned_edges run)\<rparr>
              in if it_node it \<in> it_pending_tombstoned_nodes it then it
                 else it\<lparr>it_current_edges := dir_run_edges dir run (it_node it)\<rparr>)"

definition load_segment :: "direction \<Rightarrow> neighbors_iter \<Rightarrow> neighbors_iter result" where
  "load_segment dir it =
    (let it = it\<lparr>it_current_segment_edges := [], it_segment_edge_idx := 0\<rparr>
     in case vec_get (it_segments it) (it_segment_idx it) of
          None \<Rightarrow> Inr it
        | Some seg \<Rightarrow>
            rbind (dir_segment_edges dir seg (it_node it) (it_rel it)) (\<lambda>es.
            Inr (it\<lparr>it_current_segment_edges := es\<rparr>)))"

text \<open>Every iteration of \<open>next\<close> moves one of the cursors on.\<close>

definition it_measure :: "neighbors_iter \<Rightarrow> nat \<times> nat \<times> nat" where
  "it_measure it = (length (it_runs it) - it_run_idx it, length (it_segments it) - it_segment_idx it,
     (length (it_current_edges it) - it_edge_idx it) +
     (length (it_current_segment_edges it) - it_segment_edge_idx it))"

lemma apply_pending_same [simp]:
  "it_runs (apply_pending_tombstones it) = it_runs it"
  "it_segments (apply_pending_tombstones it) = it_segments it"
  "it_node (apply_pending_tombstones it) = it_node it"
  "it_rel (apply_pending_tombstones it) = it_rel it"
  "it_run_idx (apply_pending_tombstones it) = it_run_idx it"
  "it_edge_idx (apply_pending_tombstones it) = it_edge_idx it"
  "it_current_edges (apply_pending_tombstones it) = it_current_edges it"
  "it_segment_idx (apply_pending_tombstones it) = it_segment_idx it"
  "it_segment_edge_idx (apply_pending_tombstones it) = it_segment_edge_idx it"
  "it_current_segment_edges (apply_pending_tombstones it) = it_current_segment_edges it"
  by (simp_all add: apply_pending_tombstones_def Let_def)

lemma load_run_same [simp]:
  "it_runs (load_run dir it) = it_runs it" "it_segments (load_run dir it) = it_segments it"
  "it_run_idx (load_run dir it) = it_run_idx it" "it_segment_idx (load_run dir it) = it_segment_idx it"
  "it_node (load_run dir it) = it_node it" "it_rel (load_run dir it) = it_rel it"
  "it_segment_edge_idx (load_run dir it) = it_segment_edge_idx it"
  "it_current_segment_edges (load_run dir it) = it_current_segment_edges it"
  by (simp_all add: load_run_def Let_def split: option.split)

lemma load_segment_same:
  assumes "load_segment dir it = Inr it'"
  shows "it_runs it' = it_runs it" "it_segments it' = it_segments it" "it_run_idx it' = it_run_idx it"
    "it_segment_idx it' = it_segment_idx it" "it_node it' = it_node it" "it_rel it' = it_rel it"
    "it_edge_idx it' = it_edge_idx it" "it_current_edges it' = it_current_edges it"
    "it_blocked_nodes it' = it_blocked_nodes it" "it_blocked_edges it' = it_blocked_edges it"
    "it_pending_tombstoned_nodes it' = it_pending_tombstoned_nodes it"
    "it_pending_tombstoned_edges it' = it_pending_tombstoned_edges it"
    "it_terminated it' = it_terminated it" "it_segment_edge_idx it' = 0"
  using assms by (auto simp: load_segment_def Let_def rbind_Inr_iff split: option.splits)

text \<open>One iteration of the loop in \<open>next\<close>: go round again, or return.\<close>

datatype loop_step = Continue neighbors_iter | Return "edge_key option" neighbors_iter

definition iter_step :: "direction \<Rightarrow> neighbors_iter \<Rightarrow> loop_step result" where
  "iter_step dir it =
    (if length (it_current_edges it) \<le> it_edge_idx it then
       if it_run_idx it < length (it_runs it) then
         let it = apply_pending_tombstones it
         in if it_terminated it then Inr (Return None it)
            else let it = load_run dir it in Inr (Continue (it\<lparr>it_run_idx := it_run_idx it + 1\<rparr>))
       else
         let it = apply_pending_tombstones it
         in if it_terminated it then Inr (Return None it)
            else if length (it_current_segment_edges it) \<le> it_segment_edge_idx it then
              if length (it_segments it) \<le> it_segment_idx it then Inr (Return None (it\<lparr>it_terminated := True\<rparr>))
              else rbind (load_segment dir it) (\<lambda>it. Inr (Continue (it\<lparr>it_segment_idx := it_segment_idx it + 1\<rparr>)))
            else
              let edge = it_current_segment_edges it ! it_segment_edge_idx it;
                  it = it\<lparr>it_segment_edge_idx := it_segment_edge_idx it + 1\<rparr>
              in if dir_blocked dir edge (it_blocked_nodes it) (it_blocked_edges it) then Inr (Continue it)
                 else Inr (Return (Some edge) it)
     else
       let edge = it_current_edges it ! it_edge_idx it;
           it = it\<lparr>it_edge_idx := it_edge_idx it + 1\<rparr>
       in if \<not> rel_matches (it_rel it) (ek_rel edge) then Inr (Continue it)
          else if dir_blocked dir edge (it_blocked_nodes it) (it_blocked_edges it) then Inr (Continue it)
          else Inr (Return (Some edge) it))"

definition it_less :: "(neighbors_iter \<times> neighbors_iter) set" where
  "it_less = inv_image (less_than <*lex*> less_than <*lex*> less_than) it_measure"

lemma it_less: "wf it_less" "trans it_less"
  by (auto simp: it_less_def intro!: trans_inv_image trans_lex_prod)

lemma iter_step_run:
  assumes "length (it_current_edges it) \<le> it_edge_idx it" "it_run_idx it < length (it_runs it)"
  shows "iter_step dir it =
    (if it_terminated (apply_pending_tombstones it) then Inr (Return None (apply_pending_tombstones it))
     else Inr (Continue ((load_run dir (apply_pending_tombstones it))\<lparr>it_run_idx := it_run_idx it + 1\<rparr>)))"
  using assms by (simp add: iter_step_def Let_def)

lemma iter_step_segment:
  assumes "length (it_current_edges it) \<le> it_edge_idx it" "\<not> it_run_idx it < length (it_runs it)"
    "length (it_current_segment_edges it) \<le> it_segment_edge_idx it"
  shows "iter_step dir it =
    (if it_terminated (apply_pending_tombstones it) then Inr (Return None (apply_pending_tombstones it))
     else if length (it_segments it) \<le> it_segment_idx it
       then Inr (Return None ((apply_pending_tombstones it)\<lparr>it_terminated := True\<rparr>))
     else rbind (load_segment dir (apply_pending_tombstones it))
       (\<lambda>it. Inr (Continue (it\<lparr>it_segment_idx := it_segment_idx it + 1\<rparr>))))"
  using assms by (simp add: iter_step_def Let_def)

lemma iter_step_segment_edge:
  assumes "length (it_current_edges it) \<le> it_edge_idx it" "\<not> it_run_idx it < length (it_runs it)"
    "\<not> length (it_current_segment_edges it) \<le> it_segment_edge_idx it"
  shows "iter_step dir it =
    (let it1 = apply_pending_tombstones it;
         edge = it_current_segment_edges it ! it_segment_edge_idx it;
         it2 = it1\<lparr>it_segment_edge_idx := it_segment_edge_idx it + 1\<rparr>
     in if it_terminated it1 then Inr (Return None it1)
        else if dir_blocked dir edge (it_blocked_nodes it1) (it_blocked_edges it1) then Inr (Continue it2)
        else Inr (Return (Some edge) it2))"
  using assms by (simp add: iter_step_def Let_def)

lemma iter_step_edge:
  assumes "\<not> length (it_current_edges it) \<le> it_edge_idx it"
  shows "iter_step dir it =
    (let edge = it_current_edges it ! it_edge_idx it; it2 = it\<lparr>it_edge_idx := it_edge_idx it + 1\<rparr>
     in if rel_matches (it_rel it) (ek_rel edge) \<and> \<not> dir_blocked dir edge (it_blocked_nodes it) (it_blocked_edges it)
        then Inr (Return (Some edge) it2) else Inr (Continue it2))"
  using assms by (simp add: iter_step_def Let_def)

lemma iter_step_cases:
  obtains "length (it_current_edges it) \<le> it_edge_idx it" "it_run_idx it < length (it_runs it)"
  | "length (it_current_edges it) \<le> it_edge_idx it" "\<not> it_run_idx it < length (it_runs it)"
    "length (it_current_segment_edges it) \<le> it_segment_edge_idx it"
  | "length (it_current_edges it) \<le> it_edge_idx it" "\<not> it_run_idx it < length (it_runs it)"
    "\<not> length (it_current_segment_edges it) \<le> it_segment_edge_idx it"
  | "\<not> length (it_current_edges it) \<le> it_edge_idx it"
  by argo

fun step_target :: "loop_step \<Rightarrow> neighbors_iter option" where
  "step_target (Continue it) = Some it"
| "step_target (Return None it) = None"
| "step_target (Return (Some e) it) = Some it"

lemma iter_step_target:
  assumes st: "iter_step dir it = Inr st" "step_target st = Some it'"
  shows "(it', it) \<in> it_less"
proof (cases it rule: iter_step_cases)
  case 1
  with st show ?thesis
    by (auto simp: iter_step_run it_less_def it_measure_def split: if_splits)
next
  case 2
  with st obtain it1 where "load_segment dir (apply_pending_tombstones it) = Inr it1"
    "it' = it1\<lparr>it_segment_idx := it_segment_idx it1 + 1\<rparr>" "\<not> length (it_segments it) \<le> it_segment_idx it"
    by (auto simp: iter_step_segment rbind_Inr_iff split: if_splits)
  then show ?thesis using load_segment_same [of dir "apply_pending_tombstones it" it1]
    by (simp add: it_less_def it_measure_def) linarith
next
  case 3
  with st show ?thesis
    by (auto simp: iter_step_segment_edge it_less_def it_measure_def Let_def split: if_splits)
next
  case 4
  with st show ?thesis
    by (auto simp: iter_step_edge it_less_def it_measure_def Let_def split: if_splits)
qed

lemma iter_step_less:
  "iter_step dir it = Inr (Continue it') \<Longrightarrow> (it', it) \<in> it_less"
  "iter_step dir it = Inr (Return (Some e) it') \<Longrightarrow> (it', it) \<in> it_less"
  using iter_step_target by simp_all

function next_loop :: "direction \<Rightarrow> neighbors_iter \<Rightarrow> (edge_key option \<times> neighbors_iter) result" where
  "next_loop dir it =
    (case iter_step dir it of
       Inl e \<Rightarrow> Inl e
     | Inr (Continue it') \<Rightarrow> next_loop dir it'
     | Inr (Return r it') \<Rightarrow> Inr (r, it'))"
  by pat_completeness auto
termination
  by (relation "inv_image it_less snd") (simp_all add: it_less iter_step_less)

declare next_loop.simps [simp del]

definition iter_next :: "direction \<Rightarrow> neighbors_iter \<Rightarrow> (edge_key option \<times> neighbors_iter) result" where
  "iter_next dir it = (if it_terminated it then Inr (None, it) else next_loop dir it)"

definition neighbors_next :: "neighbors_iter \<Rightarrow> (edge_key option \<times> neighbors_iter) result" where
  "neighbors_next = iter_next outgoing"

definition incoming_neighbors_next :: "neighbors_iter \<Rightarrow> (edge_key option \<times> neighbors_iter) result" where
  "incoming_neighbors_next = iter_next incoming"

lemma next_loop_less: "next_loop dir it = Inr (Some e, it') \<Longrightarrow> (it', it) \<in> it_less"
proof (induction dir it rule: next_loop.induct)
  case (1 dir it)
  show ?case
  proof (cases "iter_step dir it")
    case (Inr st)
    show ?thesis
    proof (cases st)
      case (Continue it1)
      with Inr 1 have "(it', it1) \<in> it_less" by (simp add: next_loop.simps [of dir it])
      then show ?thesis using iter_step_less(1) [of dir it it1] Inr Continue it_less(2) by (auto dest: transD)
    next
      case (Return r it1)
      with Inr 1 show ?thesis using iter_step_less(2) by (auto simp: next_loop.simps [of dir it])
    qed
  qed (use 1 in \<open>simp add: next_loop.simps\<close>)
qed

section \<open>Snapshots\<close>

record snapshot =
  sn_runs :: "l0_run list"
  sn_segments :: "csr_segment list"
  sn_labels :: label_snapshot
  sn_node_labels :: "u32 list list"
  sn_properties_root :: u64
  sn_stats_root :: u64

definition sn_neighbors :: "snapshot \<Rightarrow> u32 \<Rightarrow> u32 option \<Rightarrow> neighbors_iter" where
  "sn_neighbors snap src rel = neighbors_iter_new (sn_runs snap) (sn_segments snap) src rel"

definition sn_incoming_neighbors :: "snapshot \<Rightarrow> u32 \<Rightarrow> u32 option \<Rightarrow> neighbors_iter" where
  "sn_incoming_neighbors snap dst rel = neighbors_iter_new (sn_runs snap) (sn_segments snap) dst rel"

definition sn_node_label :: "snapshot \<Rightarrow> u32 \<Rightarrow> u32 option" where
  "sn_node_label snap iid = node_primary_label (sn_node_labels snap) iid"

definition sn_all_node_labels :: "snapshot \<Rightarrow> u32 \<Rightarrow> u32 list option" where
  "sn_all_node_labels snap iid = node_all_labels (sn_node_labels snap) iid"

definition sn_node_property :: "snapshot \<Rightarrow> u32 \<Rightarrow> rstring \<Rightarrow> property_value option" where
  "sn_node_property snap node key = node_property_from_runs (sn_runs snap) node key"

definition sn_edge_property :: "snapshot \<Rightarrow> edge_key \<Rightarrow> rstring \<Rightarrow> property_value option" where
  "sn_edge_property snap edge key = edge_property_from_runs (sn_runs snap) edge key"

definition sn_node_properties :: "snapshot \<Rightarrow> u32 \<Rightarrow> (rstring, property_value) btmap option" where
  "sn_node_properties snap node = merge_node_properties_from_runs (sn_runs snap) node"

definition sn_edge_properties :: "snapshot \<Rightarrow> edge_key \<Rightarrow> (rstring, property_value) btmap option" where
  "sn_edge_properties snap edge = merge_edge_properties_from_runs (sn_runs snap) edge"

definition sn_resolve_label_id :: "snapshot \<Rightarrow> rstring \<Rightarrow> u32 option" where
  "sn_resolve_label_id snap name = resolve_symbol_id (sn_labels snap) name"

definition sn_resolve_label_name :: "snapshot \<Rightarrow> u32 \<Rightarrow> rstring option" where
  "sn_resolve_label_name snap label_id = resolve_symbol_name (sn_labels snap) label_id"

definition sn_nodes :: "snapshot \<Rightarrow> u32 list" where
  "sn_nodes snap = live_node_ids (of_nat (length (sn_node_labels snap))) (sn_runs snap)"

definition sn_is_tombstoned_node :: "snapshot \<Rightarrow> u32 \<Rightarrow> bool" where
  "sn_is_tombstoned_node snap iid = is_tombstoned_node_in_runs (sn_runs snap) iid"

text \<open>All edges an iterator yields, by calling \<open>next\<close> until it returns \<open>None\<close>.\<close>

function drain :: "direction \<Rightarrow> neighbors_iter \<Rightarrow> edge_key list result" where
  "drain dir it =
    (case iter_next dir it of
       Inl e \<Rightarrow> Inl e
     | Inr (None, _) \<Rightarrow> Inr []
     | Inr (Some e, it') \<Rightarrow> rbind (drain dir it') (\<lambda>es. Inr (e # es)))"
  by pat_completeness auto
termination
  by (relation "inv_image it_less snd") (auto simp: it_less iter_next_def next_loop_less split: if_splits)

declare drain.simps [simp del]

section \<open>What the iterators yield\<close>

fun visible_runs ::
  "direction \<Rightarrow> u32 \<Rightarrow> u32 option \<Rightarrow> u32 set \<Rightarrow> edge_key set \<Rightarrow> l0_run list \<Rightarrow>
   (u32 set \<Rightarrow> edge_key set \<Rightarrow> edge_key list) \<Rightarrow> edge_key list" where
  "visible_runs dir node rel bn be [] k = (if node \<in> bn then [] else k bn be)"
| "visible_runs dir node rel bn be (r # rs) k =
     (if node \<in> bn then []
      else (if node \<in> set (run_tombstoned_nodes r) then []
            else filter (\<lambda>e. rel_matches rel (ek_rel e) \<and> \<not> dir_blocked dir e bn be) (dir_run_edges dir r node)) @
        visible_runs dir node rel (bn \<union> set (run_tombstoned_nodes r)) (be \<union> set (run_tombstoned_edges r)) rs k)"

definition visible_segments ::
  "direction \<Rightarrow> (csr_segment \<Rightarrow> edge_key list) \<Rightarrow> csr_segment list \<Rightarrow> u32 set \<Rightarrow> edge_key set \<Rightarrow> edge_key list" where
  "visible_segments dir segf segs bn be =
     concat (map (\<lambda>s. filter (\<lambda>e. \<not> dir_blocked dir e bn be) (segf s)) segs)"

definition remaining :: "direction \<Rightarrow> (csr_segment \<Rightarrow> edge_key list) \<Rightarrow> neighbors_iter \<Rightarrow> edge_key list" where
  "remaining dir segf it =
    (if it_terminated it then []
     else filter (\<lambda>e. rel_matches (it_rel it) (ek_rel e) \<and> \<not> dir_blocked dir e (it_blocked_nodes it) (it_blocked_edges it))
            (drop (it_edge_idx it) (it_current_edges it)) @
       visible_runs dir (it_node it) (it_rel it)
         (it_blocked_nodes it \<union> it_pending_tombstoned_nodes it) (it_blocked_edges it \<union> it_pending_tombstoned_edges it)
         (drop (it_run_idx it) (it_runs it))
         (\<lambda>bn be. filter (\<lambda>e. \<not> dir_blocked dir e bn be) (drop (it_segment_edge_idx it) (it_current_segment_edges it)) @
            visible_segments dir segf (drop (it_segment_idx it) (it_segments it)) bn be))"

text \<open>The iterator's invariant: the segment lookups it will make succeed, and while it is not
  finished its node is not blocked.\<close>

definition it_inv :: "direction \<Rightarrow> (csr_segment \<Rightarrow> edge_key list) \<Rightarrow> neighbors_iter \<Rightarrow> bool" where
  "it_inv dir segf it \<longleftrightarrow>
     (\<forall>s \<in> set (it_segments it). dir_segment_edges dir s (it_node it) (it_rel it) = Inr (segf s)) \<and>
     (\<not> it_terminated it \<longrightarrow> it_node it \<notin> it_blocked_nodes it)"

lemma apply_pending_facts:
  assumes "\<not> it_terminated it" "it_node it \<notin> it_blocked_nodes it"
  shows "it_blocked_nodes (apply_pending_tombstones it) = it_blocked_nodes it \<union> it_pending_tombstoned_nodes it"
    "it_blocked_edges (apply_pending_tombstones it) = it_blocked_edges it \<union> it_pending_tombstoned_edges it"
    "it_pending_tombstoned_nodes (apply_pending_tombstones it) = {}"
    "it_pending_tombstoned_edges (apply_pending_tombstones it) = {}"
    "it_terminated (apply_pending_tombstones it) \<longleftrightarrow> it_node it \<in> it_blocked_nodes it \<union> it_pending_tombstoned_nodes it"
  using assms by (auto simp: apply_pending_tombstones_def Let_def)

lemma visible_runs_blocked: "node \<in> bn \<Longrightarrow> visible_runs dir node rel bn be rs k = []"
  by (cases rs) simp_all

lemma remaining_pending:
  assumes "length (it_current_edges it) \<le> it_edge_idx it" "\<not> it_terminated it" "it_node it \<notin> it_blocked_nodes it"
  shows "remaining dir segf (apply_pending_tombstones it) = remaining dir segf it"
  using assms visible_runs_blocked
  by (simp add: remaining_def apply_pending_facts [OF assms(2,3)])

lemma load_run_facts:
  assumes "it_run_idx it < length (it_runs it)" "it_node it \<notin> it_blocked_nodes it"
  defines "r \<equiv> it_runs it ! it_run_idx it"
  shows "it_blocked_nodes (load_run dir it) = it_blocked_nodes it"
    "it_blocked_edges (load_run dir it) = it_blocked_edges it"
    "it_pending_tombstoned_nodes (load_run dir it) = set (run_tombstoned_nodes r)"
    "it_pending_tombstoned_edges (load_run dir it) = set (run_tombstoned_edges r)"
    "it_terminated (load_run dir it) = it_terminated it" "it_edge_idx (load_run dir it) = 0"
    "it_current_edges (load_run dir it) =
       (if it_node it \<in> set (run_tombstoned_nodes r) then [] else dir_run_edges dir r (it_node it))"
  using assms by (simp_all add: load_run_def vec_get_def Let_def iter_tombstoned_nodes_def iter_tombstoned_edges_def)

lemma remaining_load_run:
  assumes "length (it_current_edges it) \<le> it_edge_idx it" "it_run_idx it < length (it_runs it)"
    "\<not> it_terminated it" "it_node it \<notin> it_blocked_nodes it"
    "it_pending_tombstoned_nodes it = {}" "it_pending_tombstoned_edges it = {}"
  shows "remaining dir segf ((load_run dir it)\<lparr>it_run_idx := it_run_idx it + 1\<rparr>) = remaining dir segf it"
  using assms(1,3-6) Cons_nth_drop_Suc [OF assms(2), symmetric]
  by (simp add: remaining_def load_run_facts [OF assms(2,4)])

lemma remaining_load_segment:
  assumes "length (it_current_edges it) \<le> it_edge_idx it" "\<not> it_run_idx it < length (it_runs it)"
    "length (it_current_segment_edges it) \<le> it_segment_edge_idx it" "it_segment_idx it < length (it_segments it)"
    and inv: "it_inv dir segf it" "\<not> it_terminated it"
  obtains it1 where "load_segment dir it = Inr it1"
    "remaining dir segf (it1\<lparr>it_segment_idx := it_segment_idx it1 + 1\<rparr>) = remaining dir segf it"
    "it_inv dir segf (it1\<lparr>it_segment_idx := it_segment_idx it1 + 1\<rparr>)" "\<not> it_terminated it1"
proof -
  let ?s = "it_segments it ! it_segment_idx it"
  have "dir_segment_edges dir ?s (it_node it) (it_rel it) = Inr (segf ?s)"
    using inv(1) assms(4) by (simp add: it_inv_def)
  then have l: "load_segment dir it = Inr (it\<lparr>it_segment_edge_idx := 0, it_current_segment_edges := segf ?s\<rparr>)"
    using assms(4) by (simp add: load_segment_def vec_get_def Let_def)
  show thesis
    by (rule that [OF l])
       (use assms Cons_nth_drop_Suc [OF assms(4), symmetric] in
         \<open>simp_all add: remaining_def it_inv_def visible_segments_def\<close>)
qed

text \<open>One iteration: it succeeds, and either keeps what remains or yields its head.\<close>

definition step_ok :: "direction \<Rightarrow> (csr_segment \<Rightarrow> edge_key list) \<Rightarrow> neighbors_iter \<Rightarrow> loop_step \<Rightarrow> bool" where
  "step_ok dir segf it st \<longleftrightarrow>
    (case st of
       Continue it' \<Rightarrow> remaining dir segf it' = remaining dir segf it \<and> it_inv dir segf it' \<and> \<not> it_terminated it'
     | Return None it' \<Rightarrow> remaining dir segf it = [] \<and> it_terminated it'
     | Return (Some e) it' \<Rightarrow> remaining dir segf it = e # remaining dir segf it' \<and> it_inv dir segf it' \<and> \<not> it_terminated it')"

lemma it_inv_same:
  "it_inv dir segf it \<Longrightarrow> \<not> it_terminated (apply_pending_tombstones it) \<Longrightarrow> \<not> it_terminated it \<Longrightarrow>
   it_inv dir segf (apply_pending_tombstones it)"
  by (simp add: it_inv_def apply_pending_facts)

lemma iter_step_ok:
  assumes inv: "it_inv dir segf it" and nt: "\<not> it_terminated it"
  shows "\<exists>st. iter_step dir it = Inr st \<and> step_ok dir segf it st"
proof -
  let ?p = "apply_pending_tombstones it"
  have nb: "it_node it \<notin> it_blocked_nodes it" using inv nt by (simp add: it_inv_def)
  note ap = apply_pending_facts [OF nt nb]
  note rp = remaining_pending [OF _ nt nb]
  have stop: "step_ok dir segf it (Return None ?p)" if "it_terminated ?p" "length (it_current_edges it) \<le> it_edge_idx it"
    using rp [OF that(2), of dir segf] that(1) by (simp add: step_ok_def remaining_def)
  show ?thesis
  proof (cases it rule: iter_step_cases)
    case 1
    show ?thesis
    proof (cases "it_terminated ?p")
      case False
      let ?q = "(load_run dir ?p)\<lparr>it_run_idx := it_run_idx it + 1\<rparr>"
      have nbp: "it_node ?p \<notin> it_blocked_nodes ?p" using False ap by simp
      have "remaining dir segf ?q = remaining dir segf it"
        using remaining_load_run [of ?p dir segf] 1 False nbp ap rp by simp
      moreover have "it_inv dir segf ?q" "\<not> it_terminated ?q"
        using inv False nbp 1(2) load_run_facts [of ?p dir] by (simp_all add: it_inv_def)
      ultimately show ?thesis using 1 False by (simp add: iter_step_run step_ok_def)
    qed (use 1 stop in \<open>simp add: iter_step_run\<close>)
  next
    case 2
    show ?thesis
    proof (cases "it_terminated ?p")
      case False
      note inv' = it_inv_same [OF inv False nt]
      show ?thesis
      proof (cases "length (it_segments it) \<le> it_segment_idx it")
        case True
        then have "remaining dir segf it = []"
          using rp [OF 2(1), of dir segf, symmetric] 2 False
          by (simp add: remaining_def visible_segments_def)
        then show ?thesis using 2 False True by (simp add: iter_step_segment step_ok_def)
      next
        case more: False
        obtain it1 where "load_segment dir ?p = Inr it1"
          "remaining dir segf (it1\<lparr>it_segment_idx := it_segment_idx it1 + 1\<rparr>) = remaining dir segf ?p"
          "it_inv dir segf (it1\<lparr>it_segment_idx := it_segment_idx it1 + 1\<rparr>)" "\<not> it_terminated it1"
          by (rule remaining_load_segment [of ?p dir segf]) (use 2 False more inv' in simp_all)
        then show ?thesis using 2 False more rp by (simp add: iter_step_segment step_ok_def)
      qed
    qed (use 2 stop in \<open>simp add: iter_step_segment\<close>)
  next
    case 3
    show ?thesis
    proof (cases "it_terminated ?p")
      case False
      let ?e = "it_current_segment_edges it ! it_segment_edge_idx it"
      have d: "drop (it_segment_edge_idx it) (it_current_segment_edges it) =
          ?e # drop (it_segment_edge_idx it + 1) (it_current_segment_edges it)"
        using 3(3) by (simp add: Cons_nth_drop_Suc)
      have nn: "it_node it \<notin> it_blocked_nodes ?p" using False ap by simp
      from it_inv_same [OF inv False nt] show ?thesis
        using 3 False d ap nn rp [OF 3(1), of dir segf, symmetric]
        by (auto simp: iter_step_segment_edge step_ok_def Let_def remaining_def it_inv_def)
    qed (use 3 stop in \<open>simp add: iter_step_segment_edge\<close>)
  next
    case 4
    then have d: "drop (it_edge_idx it) (it_current_edges it) =
        it_current_edges it ! it_edge_idx it # drop (it_edge_idx it + 1) (it_current_edges it)"
      by (simp add: Cons_nth_drop_Suc)
    show ?thesis
      using 4 inv nt d by (auto simp: iter_step_edge step_ok_def Let_def remaining_def it_inv_def)
  qed
qed

lemma next_loop_ok:
  "it_inv dir segf it \<Longrightarrow> \<not> it_terminated it \<Longrightarrow>
   \<exists>r it'. next_loop dir it = Inr (r, it') \<and> step_ok dir segf it (Return r it')"
proof (induction dir it rule: next_loop.induct)
  case (1 dir it)
  from iter_step_ok [OF 1(2,3)] obtain st where st: "iter_step dir it = Inr st" "step_ok dir segf it st" by blast
  show ?case
  proof (cases st)
    case (Continue it1)
    with st have k: "remaining dir segf it1 = remaining dir segf it" "it_inv dir segf it1" "\<not> it_terminated it1"
      by (simp_all add: step_ok_def)
    from 1(1) [OF _ _ k(2,3)] st(1) Continue obtain r it' where
      "next_loop dir it1 = Inr (r, it')" "step_ok dir segf it1 (Return r it')" by blast
    then show ?thesis using st(1) Continue k(1)
      by (auto simp: next_loop.simps [of dir it] step_ok_def split: option.splits)
  next
    case (Return r it1)
    with st show ?thesis by (simp add: next_loop.simps [of dir it])
  qed
qed

lemma drain_remaining: "it_inv dir segf it \<Longrightarrow> drain dir it = Inr (remaining dir segf it)"
proof (induction dir it rule: drain.induct)
  case (1 dir it)
  show ?case
  proof (cases "it_terminated it")
    case True
    then show ?thesis by (simp add: drain.simps [of dir it] iter_next_def remaining_def)
  next
    case False
    from next_loop_ok [OF 1(2) False] obtain r it' where n: "next_loop dir it = Inr (r, it')"
      "step_ok dir segf it (Return r it')" by blast
    then have i: "iter_next dir it = Inr (r, it')" using False by (simp add: iter_next_def)
    show ?thesis
    proof (cases r)
      case None
      with n i show ?thesis by (simp add: drain.simps [of dir it] step_ok_def)
    next
      case (Some e)
      with n have "it_inv dir segf it'" "remaining dir segf it = e # remaining dir segf it'"
        by (simp_all add: step_ok_def)
      with 1(1) [OF i refl Some] i Some show ?thesis by (simp add: drain.simps [of dir it])
    qed
  qed
qed

lemma drain_new:
  assumes "\<forall>s \<in> set segments. dir_segment_edges dir s node rel = Inr (segf s)"
  shows "drain dir (neighbors_iter_new runs segments node rel) =
    Inr (visible_runs dir node rel {} {} runs (visible_segments dir segf segments))"
proof -
  have "it_inv dir segf (neighbors_iter_new runs segments node rel)"
    using assms by (simp add: it_inv_def neighbors_iter_new_def)
  from drain_remaining [OF this] show ?thesis by (simp add: remaining_def neighbors_iter_new_def)
qed

definition dead_nodes :: "l0_run list \<Rightarrow> u32 set" where
  "dead_nodes rs = (\<Union>r \<in> set rs. set (run_tombstoned_nodes r))"

definition dead_edges :: "l0_run list \<Rightarrow> edge_key set" where
  "dead_edges rs = (\<Union>r \<in> set rs. set (run_tombstoned_edges r))"

lemma ex_less_Suc: "(\<exists>i < Suc n. P i) \<longleftrightarrow> P 0 \<or> (\<exists>i < n. P (Suc i))"
  by (auto simp: less_Suc_eq_0_disj)

lemma visible_runs_iff:
  "e \<in> set (visible_runs dir node rel bn be rs k) \<longleftrightarrow>
     (\<exists>i < length rs. e \<in> set (dir_run_edges dir (rs ! i) node) \<and> rel_matches rel (ek_rel e) \<and>
        \<not> dir_blocked dir e (bn \<union> dead_nodes (take i rs)) (be \<union> dead_edges (take i rs)) \<and>
        node \<notin> bn \<union> dead_nodes (take (Suc i) rs)) \<or>
     (node \<notin> bn \<union> dead_nodes rs \<and> e \<in> set (k (bn \<union> dead_nodes rs) (be \<union> dead_edges rs)))"
proof (induction rs arbitrary: bn be)
  case Nil
  then show ?case by (simp add: dead_nodes_def dead_edges_def)
next
  case (Cons r rs)
  have d: "dead_nodes (r # xs) = set (run_tombstoned_nodes r) \<union> dead_nodes xs"
    "dead_edges (r # xs) = set (run_tombstoned_edges r) \<union> dead_edges xs" "dead_nodes [] = {}" "dead_edges [] = {}" for xs
    by (simp_all add: dead_nodes_def dead_edges_def)
  show ?case
  proof (cases "node \<in> bn")
    case False
    then show ?thesis by (auto simp: Cons.IH ex_less_Suc d Un_assoc)
  qed simp
qed

text \<open>
  C2. Neighbour iteration terminates and is exact. For a snapshot whose segments hold the edges
  \<open>es s\<close>, draining the outgoing iterator panics on no segment, stops, and yields, in this order
  and multiplicity, the edges of the runs from newest to oldest and then of the segments,
  each unless a newer run deleted it or its target, or a run not older deleted the node
  itself; as a set, exactly the edges so described.
\<close>

theorem neighbors_exact:
  assumes segs: "\<forall>s \<in> set (sn_segments snap). csr_fwd s (es s)"
  shows "let segf = \<lambda>s. filter (\<lambda>e. ek_src e = src \<and> rel_matches rel (ek_rel e)) (es s);
             runs = sn_runs snap;
             L = visible_runs outgoing src rel {} {} runs (visible_segments outgoing segf (sn_segments snap))
         in drain outgoing (sn_neighbors snap src rel) = Inr L \<and>
            set L =
              {e. \<exists>i < length runs. e \<in> set (edges_for_src (run_edges_by_src (runs ! i)) src) \<and> rel_matches rel (ek_rel e) \<and>
                    src \<notin> dead_nodes (take (Suc i) runs) \<and>
                    ek_dst e \<notin> dead_nodes (take i runs) \<and> e \<notin> dead_edges (take i runs)} \<union>
              {e. src \<notin> dead_nodes runs \<and> ek_dst e \<notin> dead_nodes runs \<and> e \<notin> dead_edges runs \<and>
                  ek_src e = src \<and> rel_matches rel (ek_rel e) \<and> (\<exists>s \<in> set (sn_segments snap). e \<in> set (es s))}"
proof -
  let ?segf = "\<lambda>s. filter (\<lambda>e. ek_src e = src \<and> rel_matches rel (ek_rel e)) (es s)"
  let ?k = "visible_segments outgoing ?segf (sn_segments snap)"
  have "\<forall>s \<in> set (sn_segments snap). dir_segment_edges outgoing s src rel = Inr (?segf s)"
    using segs by (simp add: outgoing_def load_outgoing_segment_edges_def csr_neighbors_fwd)
  from drain_new [OF this, of "sn_runs snap"]
  have "drain outgoing (sn_neighbors snap src rel) = Inr (visible_runs outgoing src rel {} {} (sn_runs snap) ?k)"
    by (simp add: sn_neighbors_def)
  moreover have "e \<in> set (?k bn be) \<longleftrightarrow> ek_dst e \<notin> bn \<and> e \<notin> be \<and> ek_src e = src \<and>
      rel_matches rel (ek_rel e) \<and> (\<exists>s \<in> set (sn_segments snap). e \<in> set (es s))" for e bn be
    by (auto simp: visible_segments_def outgoing_def edge_blocked_outgoing_def)
  moreover have "dir_run_edges outgoing = load_outgoing_run_edges" "dir_blocked outgoing = edge_blocked_outgoing"
    by (simp_all add: outgoing_def)
  ultimately show ?thesis
    by (auto simp: Let_def visible_runs_iff load_outgoing_run_edges_def edge_blocked_outgoing_def)
qed

theorem neighbors_exact_witness:
  "drain outgoing (sn_neighbors \<lparr>sn_runs = [run_of 9 [CreateEdge 1 7 5, TombstoneEdge 1 7 3]], sn_segments = [ex_segment],
     sn_labels = ls_new [] [], sn_node_labels = [], sn_properties_root = 0, sn_stats_root = 0\<rparr> 1 None) =
   Inr [EdgeKey 1 7 5, EdgeKey 1 7 2]"
proof -
  let ?snap = "\<lparr>sn_runs = [run_of 9 [CreateEdge 1 7 5, TombstoneEdge 1 7 3]], sn_segments = [ex_segment],
     sn_labels = ls_new [] [], sn_node_labels = [], sn_properties_root = 0, sn_stats_root = 0\<rparr>"
  have "\<forall>s \<in> set (sn_segments ?snap). csr_fwd s ((\<lambda>_. ex_edges) s)" by (simp add: ex_segment_fwd)
  from neighbors_exact [OF this, of 1 None] have
    "drain outgoing (sn_neighbors ?snap 1 None) = Inr (visible_runs outgoing 1 None {} {} (sn_runs ?snap)
      (visible_segments outgoing (\<lambda>s. filter (\<lambda>e. ek_src e = 1 \<and> rel_matches None (ek_rel e)) ex_edges) [ex_segment]))"
    by (simp only: Let_def snapshot.simps)
  also have "visible_runs outgoing 1 None {} {} (sn_runs ?snap)
      (visible_segments outgoing (\<lambda>s. filter (\<lambda>e. ek_src e = 1 \<and> rel_matches None (ek_rel e)) ex_edges) [ex_segment]) =
      [EdgeKey 1 7 5, EdgeKey 1 7 2]"
    by code_simp
  finally show ?thesis .
qed

section \<open>Property overlay\<close>

lemma fold_merge_prop:
  "distinct (map fst ps) \<Longrightarrow> bt_wf merged \<Longrightarrow>
   bt_wf (fst (fold merge_prop ps (merged, resolved))) \<and>
   set (snd (fold merge_prop ps (merged, resolved))) = set resolved \<union> fst ` set ps \<and>
   bt_get (fst (fold merge_prop ps (merged, resolved))) k =
     (if k \<in> set resolved then bt_get merged k
      else case map_of ps k of None \<Rightarrow> bt_get merged k | Some v \<Rightarrow> Some v)"
proof (induction ps arbitrary: merged resolved)
  case (Cons p ps)
  obtain key v where p: "p = (key, v)" by (cases p)
  have key: "map_of ps key = None" using Cons.prems(1) by (simp add: p map_of_eq_None_iff)
  show ?case
  proof (cases "key \<in> set resolved")
    case True
    then show ?thesis using Cons key by (auto simp: p)
  next
    case False
    then show ?thesis using Cons key by (auto simp: p bt_get_insert split: option.split)
  qed
qed simp

definition effect_of ::
  "(l0_run \<Rightarrow> rstring list option) \<Rightarrow> (l0_run \<Rightarrow> (rstring, property_value) btmap option) \<Rightarrow>
   l0_run \<Rightarrow> rstring \<Rightarrow> property_value option option" where
  "effect_of deleted props r k =
     (if (case deleted r of None \<Rightarrow> False | Some ks \<Rightarrow> k \<in> set ks) then Some None
      else map_option Some (Option.bind (props r) (\<lambda>ps. bt_get ps k)))"

text \<open>The effect of the newest run that has one.\<close>

fun newest_effect :: "(l0_run \<Rightarrow> property_value option option) \<Rightarrow> l0_run list \<Rightarrow> property_value option" where
  "newest_effect eff [] = None"
| "newest_effect eff (r # rs) = (case eff r of None \<Rightarrow> newest_effect eff rs | Some x \<Rightarrow> x)"

lemma set_fold_bs_insert: "set (fold bs_insert ks s) = set s \<union> set ks"
  by (induction ks arbitrary: s) auto

declare merge_run.simps [simp del]

lemma merge_runs:
  assumes "bt_wf merged" "\<forall>r \<in> set runs. \<forall>ps. props r = Some ps \<longrightarrow> bt_wf ps"
    "\<forall>k. k \<notin> set resolved \<longrightarrow> bt_get merged k = None"
  shows "bt_wf (fst (fold (merge_run deleted props) runs (merged, resolved))) \<and>
    bt_get (fst (fold (merge_run deleted props) runs (merged, resolved))) k =
      (if k \<in> set resolved then bt_get merged k else newest_effect (\<lambda>r. effect_of deleted props r k) runs)"
  using assms
proof (induction runs arbitrary: merged resolved)
  case (Cons r runs)
  define res1 where "res1 = (case deleted r of None \<Rightarrow> resolved | Some ks \<Rightarrow> fold bs_insert ks resolved)"
  define ps where "ps = (case props r of None \<Rightarrow> [] | Some ps \<Rightarrow> ps)"
  obtain m2 res2 where st: "fold merge_prop ps (merged, res1) = (m2, res2)" by (cases "fold merge_prop ps (merged, res1)")
  have run: "merge_run deleted props r (merged, resolved) = (m2, res2)"
    using st by (auto simp: merge_run.simps res1_def ps_def Let_def split: option.split)
  have res1: "k \<in> set res1 \<longleftrightarrow> k \<in> set resolved \<or> (case deleted r of None \<Rightarrow> False | Some ks \<Rightarrow> k \<in> set ks)" for k
    by (auto simp: res1_def set_fold_bs_insert split: option.split)
  have wf: "bt_wf ps" using Cons.prems(2) by (auto simp: ps_def split: option.split)
  have f: "bt_wf m2" "set res2 = set res1 \<union> fst ` set ps"
    "bt_get m2 k = (if k \<in> set res1 then bt_get merged k else case map_of ps k of None \<Rightarrow> bt_get merged k | Some v \<Rightarrow> Some v)" for k
    using fold_merge_prop [OF bt_wf_distinct [OF wf] Cons.prems(1), of res1] st by simp_all
  have eff: "effect_of deleted props r k =
      (if k \<in> set resolved then effect_of deleted props r k
       else if k \<in> set res1 then Some None else map_option Some (map_of ps k))" for k
    by (auto simp: effect_of_def res1 ps_def bt_get_def split: option.split)
  have dom: "k \<in> fst ` set ps \<longleftrightarrow> map_of ps k \<noteq> None" for k by (simp add: map_of_eq_None_iff)
  have inv: "\<forall>k. k \<notin> set res2 \<longrightarrow> bt_get m2 k = None"
    using Cons.prems(3) by (auto simp: f res1 dom split: option.split)
  have "\<forall>r \<in> set runs. \<forall>ps. props r = Some ps \<longrightarrow> bt_wf ps" using Cons.prems(2) by simp
  from Cons.IH [OF f(1) this inv] Cons.prems(3) show ?case
    by (auto simp: run f res1 dom eff [of k] split: option.split)
qed simp

lemma property_from_runs_newest:
  assumes "\<And>r. deleted r \<Longrightarrow> eff r = Some None" "\<And>r. \<not> deleted r \<Longrightarrow> eff r = map_option Some (lookup r)"
  shows "property_from_runs deleted lookup runs = newest_effect eff runs"
  by (induction runs) (auto simp: assms split: option.split)

lemma merge_properties_newest:
  assumes "\<forall>r \<in> set runs. \<forall>ps. props r = Some ps \<longrightarrow> bt_wf ps"
  shows "(case merge_properties_from_runs deleted props runs of None \<Rightarrow> [] | Some m \<Rightarrow> m) =
      fst (fold (merge_run deleted props) runs ([], []))"
    "bt_get (fst (fold (merge_run deleted props) runs ([], []))) k = newest_effect (\<lambda>r. effect_of deleted props r k) runs"
  using merge_runs [of "[]" runs props "[]" deleted k] assms
  by (simp_all add: merge_properties_from_runs_def Let_def)

lemma node_property_newest:
  "node_property_from_runs runs n k = newest_effect (\<lambda>r. d_node_props (run_abs r) n k) runs"
  unfolding node_property_from_runs_def
  by (rule property_from_runs_newest)
     (simp_all add: run_abs_def run_prop_effect_def node_property_in_run_def)

lemma edge_property_newest:
  "edge_property_from_runs runs e k = newest_effect (\<lambda>r. d_edge_props (run_abs r) e k) runs"
  unfolding edge_property_from_runs_def
  by (rule property_from_runs_newest)
     (simp_all add: run_abs_def run_prop_effect_def edge_property_in_run_def)

lemma effect_of_run:
  "effect_of (\<lambda>r. bt_get (run_tombstoned_node_properties r) n) (\<lambda>r. node_properties_in_run r n) r k = d_node_props (run_abs r) n k"
  "effect_of (\<lambda>r. bt_get (run_tombstoned_edge_properties r) e) (\<lambda>r. edge_properties_in_run r e) r k = d_edge_props (run_abs r) e k"
  by (simp_all add: effect_of_def run_abs_def run_prop_effect_def bset_has_def node_properties_in_run_def
      edge_properties_in_run_def split: option.split)

lemma merged_node_properties:
  assumes "\<forall>r \<in> set runs. run_inv r"
  shows "Option.bind (merge_node_properties_from_runs runs n) (\<lambda>m. bt_get m k) = node_property_from_runs runs n k"
proof -
  let ?del = "\<lambda>r. bt_get (run_tombstoned_node_properties r) n" and ?props = "\<lambda>r. node_properties_in_run r n"
  have "\<forall>r \<in> set runs. \<forall>ps. ?props r = Some ps \<longrightarrow> bt_wf ps"
    using assms by (auto simp: run_inv_def run_props_inv_def node_properties_in_run_def)
  note m = merge_properties_newest [OF this, of ?del]
  have "Option.bind (merge_properties_from_runs ?del ?props runs) (\<lambda>m. bt_get m k) =
      bt_get (case merge_properties_from_runs ?del ?props runs of None \<Rightarrow> [] | Some m \<Rightarrow> m) k"
    by (simp split: option.split)
  then show ?thesis
    unfolding merge_node_properties_from_runs_def m node_property_newest effect_of_run by simp
qed

lemma merged_edge_properties:
  assumes "\<forall>r \<in> set runs. run_inv r"
  shows "Option.bind (merge_edge_properties_from_runs runs e) (\<lambda>m. bt_get m k) = edge_property_from_runs runs e k"
proof -
  let ?del = "\<lambda>r. bt_get (run_tombstoned_edge_properties r) e" and ?props = "\<lambda>r. edge_properties_in_run r e"
  have "\<forall>r \<in> set runs. \<forall>ps. ?props r = Some ps \<longrightarrow> bt_wf ps"
    using assms by (auto simp: run_inv_def run_props_inv_def edge_properties_in_run_def)
  note m = merge_properties_newest [OF this, of ?del]
  have "Option.bind (merge_properties_from_runs ?del ?props runs) (\<lambda>m. bt_get m k) =
      bt_get (case merge_properties_from_runs ?del ?props runs of None \<Rightarrow> [] | Some m \<Rightarrow> m) k"
    by (simp split: option.split)
  then show ?thesis
    unfolding merge_edge_properties_from_runs_def m edge_property_newest effect_of_run by simp
qed

text \<open>The runs a history of transactions leaves, newest first.\<close>

definition runs_of :: "(u64 \<times> wal_record list) list \<Rightarrow> l0_run list" where
  "runs_of history = rev (map (\<lambda>(txid, ops). run_of txid ops) history)"

lemma delta_node_props_append:
  "d_node_props (fold delta_apply ops d) n k =
     (case d_node_props (fold delta_apply ops delta_empty) n k of None \<Rightarrow> d_node_props d n k | Some x \<Rightarrow> Some x)"
proof (induction ops rule: rev_induct)
  case (snoc r ops)
  then show ?case by (cases r) (auto simp: upd2_def)
qed (simp add: delta_empty_def)

lemma delta_edge_props_append:
  "d_edge_props (fold delta_apply ops d) e k =
     (case d_edge_props (fold delta_apply ops delta_empty) e k of None \<Rightarrow> d_edge_props d e k | Some x \<Rightarrow> Some x)"
proof (induction ops rule: rev_induct)
  case (snoc r ops)
  then show ?case by (cases r) (auto simp: upd2_def)
qed (simp add: delta_empty_def)

lemma newest_history:
  "newest_effect (\<lambda>r. d_node_props (run_abs r) n k) (runs_of h) =
     (case d_node_props (fold delta_apply (concat (map snd h)) delta_empty) n k of None \<Rightarrow> None | Some x \<Rightarrow> x)"
  "newest_effect (\<lambda>r. d_edge_props (run_abs r) e k) (runs_of h) =
     (case d_edge_props (fold delta_apply (concat (map snd h)) delta_empty) e k of None \<Rightarrow> None | Some x \<Rightarrow> x)"
proof (induction h rule: rev_induct)
  case (snoc t h)
  have "runs_of (h @ [t]) = run_of (fst t) (snd t) # runs_of h" by (simp add: runs_of_def case_prod_beta)
  with snoc show
    "newest_effect (\<lambda>r. d_node_props (run_abs r) n k) (runs_of (h @ [t])) =
      (case d_node_props (fold delta_apply (concat (map snd (h @ [t]))) delta_empty) n k of None \<Rightarrow> None | Some x \<Rightarrow> x)"
    "newest_effect (\<lambda>r. d_edge_props (run_abs r) e k) (runs_of (h @ [t])) =
      (case d_edge_props (fold delta_apply (concat (map snd (h @ [t]))) delta_empty) e k of None \<Rightarrow> None | Some x \<Rightarrow> x)"
    using delta_node_props_append [of "snd t" "fold delta_apply (concat (map snd h)) delta_empty" n k]
      delta_edge_props_append [of "snd t" "fold delta_apply (concat (map snd h)) delta_empty" e k]
    by (simp_all add: run_of_ok split: option.split)
qed (simp_all add: runs_of_def delta_empty_def)

text \<open>
  C7. Reading properties through the runs of any history of transactions gives what executing
  all their operations in order gives: a value exactly when the last operation on that key
  set it. Reading one key and reading the whole merged map agree on every key. Deleting a node
  is not an operation on its properties: a node that a later transaction deletes is reported as
  deleted, and each of its properties still reads as before.
\<close>

theorem properties_of_history:
  "let d = fold delta_apply (concat (map snd h)) delta_empty; runs = runs_of h; gone = runs_of (h @ [(txid, [TombstoneNode n])])
   in node_property_from_runs runs n k = (case d_node_props d n k of None \<Rightarrow> None | Some x \<Rightarrow> x) \<and>
      edge_property_from_runs runs e k = (case d_edge_props d e k of None \<Rightarrow> None | Some x \<Rightarrow> x) \<and>
      Option.bind (merge_node_properties_from_runs runs n) (\<lambda>m. bt_get m k) = node_property_from_runs runs n k \<and>
      Option.bind (merge_edge_properties_from_runs runs e) (\<lambda>m. bt_get m k) = edge_property_from_runs runs e k \<and>
      is_tombstoned_node_in_runs gone n \<and> node_property_from_runs gone n k = node_property_from_runs runs n k"
proof -
  have inv: "\<forall>r \<in> set (runs_of h). run_inv r" by (auto simp: runs_of_def run_of_ok)
  have "set (run_tombstoned_nodes (run_of txid [TombstoneNode n])) = {n}"
    using arg_cong [OF run_of_ok(2) [of txid "[TombstoneNode n]"], of d_nodes_gone] by (simp add: run_abs_def delta_empty_def)
  then have "is_tombstoned_node_in_runs (runs_of (h @ [(txid, [TombstoneNode n])])) n"
    by (simp add: is_tombstoned_node_in_runs_def runs_of_def iter_tombstoned_nodes_def list_ex_iff)
  then show ?thesis
    unfolding Let_def merged_node_properties [OF inv] merged_edge_properties [OF inv]
      node_property_newest edge_property_newest newest_history by simp
qed

end
