(* ===== verification/Compaction.thy ===== *)
theory Compaction
  imports ReadPath
begin

text \<open>
  Turning the published runs into a segment: \<open>build_segment_from_runs\<close> of
  nervusdb-storage/src/engine.rs, and what replacing the runs by that segment does to reads.
\<close>

section \<open>Definitions\<close>

text \<open>The loop over the runs, newest first.\<close>

fun surviving_edges :: "l0_run list \<Rightarrow> u32 set \<Rightarrow> edge_key set \<Rightarrow> edge_key list" where
  "surviving_edges [] blocked_nodes blocked_edges = []"
| "surviving_edges (run # runs) blocked_nodes blocked_edges =
    (let blocked_nodes = blocked_nodes \<union> set (iter_tombstoned_nodes run);
         blocked_edges = blocked_edges \<union> set (iter_tombstoned_edges run)
     in filter (\<lambda>e. \<not> (ek_src e \<in> blocked_nodes \<or> ek_dst e \<in> blocked_nodes) \<and> e \<notin> blocked_edges) (iter_edges run) @
        surviving_edges runs blocked_nodes blocked_edges)"

text \<open>\<open>edges_by_src.entry(src).or_default().push(record)\<close>\<close>

definition push_edge :: "edge_key \<Rightarrow> (u32, edge_record list) btmap \<Rightarrow> (u32, edge_record list) btmap" where
  "push_edge e m =
     bt_insert (ek_src e) ((case bt_get m (ek_src e) of None \<Rightarrow> [] | Some l \<Rightarrow> l) @
       [\<lparr>er_rel = ek_rel e, er_dst = ek_dst e\<rparr>]) m"

text \<open>The sort key \<open>(rel, dst)\<close> as an edge key.\<close>

definition record_key :: "edge_record \<Rightarrow> edge_key" where
  "record_key r = EdgeKey 0 (er_rel r) (er_dst r)"

fun fill_sources ::
  "u32 \<Rightarrow> u32 list \<Rightarrow> (u32, edge_record list) btmap \<Rightarrow> u64 list \<Rightarrow> edge_record list \<Rightarrow> u64 \<Rightarrow>
   (u64 list \<times> edge_record list \<times> u64) result" where
  "fill_sources min_src [] edges_by_src offsets edge_vec cursor = Inr (offsets, edge_vec, cursor)"
| "fill_sources min_src (src # srcs) edges_by_src offsets edge_vec cursor =
     rbind (vec_set offsets (unat (src - min_src)) cursor) (\<lambda>offsets.
     case bt_get edges_by_src src of
       None \<Rightarrow> fill_sources min_src srcs edges_by_src offsets edge_vec cursor
     | Some l \<Rightarrow>
         fill_sources min_src srcs (bt_remove src edges_by_src) offsets
           (edge_vec @ sort_key record_key l) (cursor + of_nat (length l)))"

definition build_segment_from_runs :: "u64 \<Rightarrow> l0_run list \<Rightarrow> csr_segment result" where
  "build_segment_from_runs seg_id runs =
    (let edges = sort (surviving_edges runs {} {});
         (min_src, max_src) = fold (\<lambda>e (min_s, max_s). (min min_s (ek_src e), max max_s (ek_src e))) edges (- 1, 0)
     in if edges = [] then
          Inr \<lparr>cs_id = seg_id, cs_meta_page_id = 0, cs_min_src = 0, cs_max_src = 0, cs_min_dst = 0, cs_max_dst = 0,
               cs_offsets = [0, 0], cs_edges = [], cs_in_offsets = [], cs_in_edges = []\<rparr>
        else
          let rng = unat (max_src - min_src) + 2;
              edges_by_src = fold push_edge edges []
          in rbind (fill_sources min_src (map of_nat [unat min_src..<unat max_src + 1]) edges_by_src (replicate rng 0) [] 0)
               (\<lambda>(offsets, edge_vec, cursor).
             rbind (vec_set offsets (unat (max_src - min_src) + 1) cursor) (\<lambda>offsets.
             Inr \<lparr>cs_id = seg_id, cs_meta_page_id = 0, cs_min_src = min_src, cs_max_src = max_src,
                  cs_min_dst = 0, cs_max_dst = 0, cs_offsets = offsets, cs_edges = edge_vec,
                  cs_in_offsets = [], cs_in_edges = []\<rparr>)))"

text \<open>A snapshot after a compaction: the new segment in front, and no runs (see the theory Engine).\<close>

definition publish_segment :: "csr_segment \<Rightarrow> snapshot \<Rightarrow> snapshot" where
  "publish_segment seg snap = snap\<lparr>sn_runs := [], sn_segments := seg # sn_segments snap\<rparr>"

section \<open>The segment holds the surviving edges\<close>

lemma bt_get_push:
  "bt_wf m \<Longrightarrow> bt_wf (push_edge e m) \<and> bt_get (push_edge e m) s =
     (if s = ek_src e then Some ((case bt_get m s of None \<Rightarrow> [] | Some l \<Rightarrow> l) @ [fwd_record e]) else bt_get m s)"
  by (auto simp: push_edge_def bt_get_insert fwd_record_def)

definition group_ok :: "(u32, edge_record list) btmap \<Rightarrow> edge_key list \<Rightarrow> bool" where
  "group_ok m es \<longleftrightarrow> bt_wf m \<and>
     (\<forall>s. bt_get m s = (let l = filter (\<lambda>e. ek_src e = s) es in if l = [] then None else Some (map fwd_record l)))"

lemma group_push: "group_ok m es \<Longrightarrow> group_ok (push_edge e m) (es @ [e])"
  by (auto simp: group_ok_def bt_get_push Let_def)

lemma group_edges: "group_ok m es0 \<Longrightarrow> group_ok (fold push_edge es m) (es0 @ es)"
proof (induction es arbitrary: m es0)
  case (Cons e es)
  from Cons.IH [OF group_push [OF Cons.prems]] show ?case by simp
qed simp

lemma record_key_sorted:
  assumes "sorted es" "\<forall>e \<in> set es. ek_src e = s"
  shows "sort_key record_key (map fwd_record es) = map fwd_record es"
proof -
  have "sorted (map (\<lambda>e. record_key (fwd_record e)) es)"
    using assms by (induction es) (auto simp: record_key_def fwd_record_def less_eq_edge_key_def)
  then show ?thesis by (intro sort_key_id_if_sorted) (simp add: comp_def)
qed

lemma sorted_src: "sorted es \<Longrightarrow> sorted (map (\<lambda>e. unat (ek_src e)) es)"
  by (simp add: sorted_wrt_map) (erule sorted_wrt_mono_rel [rotated], auto simp: less_eq_edge_key_def word_le_nat_alt word_less_nat_alt)

lemma filter_less_Suc:
  fixes k :: "'a \<Rightarrow> nat"
  assumes "sorted (map k xs)"
  shows "filter (\<lambda>x. k x < Suc i) xs = filter (\<lambda>x. k x < i) xs @ filter (\<lambda>x. k x = i) xs"
proof -
  have eq: "k x < i \<and> k x < Suc i \<longleftrightarrow> k x < i" "k x = i \<and> k x < Suc i \<longleftrightarrow> k x = i"
    "i < k x \<and> k x < Suc i \<longleftrightarrow> False" for x by auto
  have "filter (\<lambda>x. k x < Suc i) (filter (\<lambda>x. k x < i) xs @ filter (\<lambda>x. k x = i) xs @ filter (\<lambda>x. i < k x) xs) =
      filter (\<lambda>x. k x < i) xs @ filter (\<lambda>x. k x = i) xs"
    by (simp add: eq)
  then show ?thesis by (simp only: sorted_filter_less [OF assms])
qed

lemma fill_sources_spec:
  assumes es: "sorted es"
    and a: "unat lo \<le> a" "a \<le> b" "b \<le> 2 ^ 32" "b - unat lo < length offs"
    and m: "bt_wf m" "\<forall>s. a \<le> unat s \<longrightarrow> bt_get m s =
      (let l = filter (\<lambda>e. ek_src e = s) es in if l = [] then None else Some (map fwd_record l))"
    and offs: "\<forall>i < a - unat lo. offs ! i = of_nat (length (filter (\<lambda>e. unat (ek_src e) < unat lo + i) es))"
  shows "\<exists>offs'. fill_sources lo (map of_nat [a..<b]) m offs (map fwd_record (filter (\<lambda>e. unat (ek_src e) < a) es))
        (of_nat (length (filter (\<lambda>e. unat (ek_src e) < a) es))) =
      Inr (offs', map fwd_record (filter (\<lambda>e. unat (ek_src e) < b) es), of_nat (length (filter (\<lambda>e. unat (ek_src e) < b) es))) \<and>
    length offs' = length offs \<and>
    (\<forall>i < b - unat lo. offs' ! i = of_nat (length (filter (\<lambda>e. unat (ek_src e) < unat lo + i) es)))"
  using a m offs
proof (induction "b - a" arbitrary: a m offs)
  case 0
  then show ?case by auto
next
  case (Suc n)
  let ?s = "of_nat a :: u32" and ?f = "\<lambda>i. filter (\<lambda>e. unat (ek_src e) < i) es"
  have ab: "a < b" using Suc.hyps(2) by simp
  have ua: "unat ?s = a" using ab Suc.prems(3) by (intro unat_word_of_nat_less) simp
  have ix: "unat (?s - lo) = a - unat lo" using Suc.prems(1) ua by (simp add: unat_sub word_le_nat_alt)
  let ?l = "filter (\<lambda>e. ek_src e = ?s) es" and ?o = "offs[a - unat lo := of_nat (length (?f a))]"
  have st: "vec_set offs (unat (?s - lo)) (of_nat (length (?f a))) = Inr ?o"
    using Suc.prems(4) ab by (simp add: vec_set_def ix)
  have fS: "?f (Suc a) = ?f a @ ?l"
    using filter_less_Suc [OF sorted_src [OF es], of a] by (simp add: word_unat_eq_iff ua)
  have o: "\<forall>i < Suc a - unat lo. ?o ! i = of_nat (length (?f (unat lo + i)))"
  proof (intro allI impI)
    fix i assume "i < Suc a - unat lo"
    then consider "i < a - unat lo" | "i = a - unat lo" by linarith
    then show "?o ! i = of_nat (length (?f (unat lo + i)))"
      using Suc.prems(1,4,7) ab by cases simp_all
  qed
  have upt: "[a..<b] = a # [Suc a..<b]" using ab by (simp add: upt_conv_Cons)
  have get: "bt_get m ?s = (if ?l = [] then None else Some (map fwd_record ?l))"
    using Suc.prems(6) ua by (simp add: Let_def)
  have rm: "\<forall>s. Suc a \<le> unat s \<longrightarrow> bt_get (bt_remove ?s m) s =
      (let l = filter (\<lambda>e. ek_src e = s) es in if l = [] then None else Some (map fwd_record l))"
    using Suc.prems(6) ua by (auto simp: bt_get_remove)
  have IH: "bt_wf m' \<Longrightarrow> \<forall>s. Suc a \<le> unat s \<longrightarrow> bt_get m' s =
      (let l = filter (\<lambda>e. ek_src e = s) es in if l = [] then None else Some (map fwd_record l)) \<Longrightarrow>
    \<exists>offs'. fill_sources lo (map of_nat [Suc a..<b]) m' ?o (map fwd_record (?f (Suc a))) (of_nat (length (?f (Suc a)))) =
        Inr (offs', map fwd_record (?f b), of_nat (length (?f b))) \<and> length offs' = length ?o \<and>
      (\<forall>i < b - unat lo. offs' ! i = of_nat (length (?f (unat lo + i))))" for m'
    using Suc.hyps(2) Suc.prems ab o by (intro Suc.hyps(1)) simp_all
  show ?case
  proof (cases "?l = []")
    case True
    from IH [OF Suc.prems(5)] Suc.prems(6) show ?thesis
      by (simp add: upt st get True fS)
  next
    case False
    have srt: "sort_key record_key (map fwd_record ?l) = map fwd_record ?l"
      by (rule record_key_sorted [of _ ?s]) (use es in \<open>simp_all add: sorted_filter [of id, simplified]\<close>)
    from IH [OF bt_wf_remove [OF Suc.prems(5)] rm] show ?thesis
      by (simp add: upt st get False fS srt)
  qed
qed

lemma fold_min_max:
  "fold (\<lambda>e (lo, hi). (min lo (ek_src e), max hi (ek_src e))) es (lo0, hi0) = (lo, hi) \<Longrightarrow>
   lo \<le> lo0 \<and> hi0 \<le> hi \<and> (\<forall>e \<in> set es. lo \<le> ek_src e \<and> ek_src e \<le> hi)"
proof (induction es arbitrary: lo0 hi0)
  case (Cons e es)
  from Cons.IH [of "min lo0 (ek_src e)" "max hi0 (ek_src e)"] Cons.prems show ?case by auto
qed simp

lemma build_segment_fwd:
  assumes len: "length (surviving_edges runs {} {}) < 2 ^ 64"
  obtains seg where "build_segment_from_runs seg_id runs = Inr seg" "csr_fwd seg (sort (surviving_edges runs {} {}))"
    "cs_in_edges seg = []" "cs_in_offsets seg = []" "cs_min_dst seg = 0" "cs_max_dst seg = 0"
proof -
  define es where "es = sort (surviving_edges runs {} {})"
  have es: "sorted es" "length es < 2 ^ 64" using len by (simp_all add: es_def)
  show thesis
  proof (cases "es = []")
    case True
    let ?seg = "\<lparr>cs_id = seg_id, cs_meta_page_id = 0, cs_min_src = 0, cs_max_src = 0, cs_min_dst = 0, cs_max_dst = 0,
      cs_offsets = [0, 0], cs_edges = [], cs_in_offsets = [], cs_in_edges = []\<rparr>"
    have r: "build_segment_from_runs seg_id runs = Inr ?seg"
      using True unfolding build_segment_from_runs_def Let_def es_def [symmetric] by (simp add: case_prod_beta)
    have "csr_fwd ?seg es" by (simp add: csr_fwd_def index_ok_def True le_Suc_eq)
    then show thesis using that [OF r] by (simp add: es_def)
  next
    case False
    obtain lo hi where mm: "fold (\<lambda>e (lo, hi). (min lo (ek_src e), max hi (ek_src e))) es (- 1, 0) = (lo, hi)"
      by (cases "fold (\<lambda>e (lo, hi). (min lo (ek_src e), max hi (ek_src e))) es (- 1, 0)")
    have b: "\<And>e. e \<in> set es \<Longrightarrow> lo \<le> ek_src e \<and> ek_src e \<le> hi" using fold_min_max [OF mm] by blast
    then have lh: "lo \<le> hi" using False by (metis last_in_set order_trans)
    have ix: "unat (hi - lo) = unat hi - unat lo" using lh by (simp add: unat_sub)
    let ?f = "\<lambda>i. filter (\<lambda>e. unat (ek_src e) < i) es" and ?o = "replicate (unat (hi - lo) + 2) (0 :: u64)"
    have g: "group_ok (fold push_edge es []) es" using group_edges [of "[]" "[]" es] by (simp add: group_ok_def)
    have none: "?f (unat lo) = []" using b by (auto simp: filter_empty_conv word_le_nat_alt not_less)
    have all: "?f (Suc (unat hi)) = es" using b by (auto simp: filter_id_conv word_le_nat_alt less_Suc_eq_le)
    have "unat hi < 2 ^ 32" using unat_bound [of hi] by simp
    moreover have "unat lo \<le> unat hi" using lh by (simp add: word_le_nat_alt)
    ultimately have r: "unat lo \<le> unat lo" "unat lo \<le> Suc (unat hi)" "Suc (unat hi) \<le> 2 ^ 32"
      "Suc (unat hi) - unat lo < length ?o" by (simp_all add: ix)
    have m: "bt_wf (fold push_edge es [])" "\<forall>s. unat lo \<le> unat s \<longrightarrow> bt_get (fold push_edge es []) s =
        (let l = filter (\<lambda>e. ek_src e = s) es in if l = [] then None else Some (map fwd_record l))"
      using g by (simp_all add: group_ok_def)
    have "\<forall>i < unat lo - unat lo. ?o ! i = of_nat (length (?f (unat lo + i)))" by simp
    from fill_sources_spec [OF es(1) r m this] obtain o1 where
      f: "fill_sources lo (map of_nat [unat lo..<Suc (unat hi)]) (fold push_edge es []) ?o [] 0 =
        Inr (o1, map fwd_record es, of_nat (length es))"
      and l1: "length o1 = unat (hi - lo) + 2"
      and o1: "\<forall>i < Suc (unat hi) - unat lo. o1 ! i = of_nat (length (?f (unat lo + i)))"
      unfolding none all by auto
    have "unat lo \<le> unat hi" using lh by (simp add: word_le_nat_alt)
    let ?o2 = "o1[unat (hi - lo) + 1 := of_nat (length es)]"
    let ?seg = "\<lparr>cs_id = seg_id, cs_meta_page_id = 0, cs_min_src = lo, cs_max_src = hi, cs_min_dst = 0, cs_max_dst = 0,
      cs_offsets = ?o2, cs_edges = map fwd_record es, cs_in_offsets = [], cs_in_edges = []\<rparr>"
    have "vec_set o1 (unat (hi - lo) + 1) (of_nat (length es)) = Inr ?o2" using l1 by (simp add: vec_set_def)
    then have bld: "build_segment_from_runs seg_id runs = Inr ?seg"
      using f False unfolding build_segment_from_runs_def Let_def es_def [symmetric] mm by simp
    have "unat (?o2 ! i) = length (?f (unat lo + i))" if i: "i \<le> unat hi - unat lo + 1" for i
    proof (cases "i = unat hi - unat lo + 1")
      case True
      have "?f (unat lo + i) = es" using all True \<open>unat lo \<le> unat hi\<close> by simp
      then show ?thesis using True l1 es(2) by (simp add: ix unat_word_of_nat_less)
    next
      case False
      have "length (?f (unat lo + i)) < 2 ^ 64" using length_filter_le es(2) by (rule order_le_less_trans)
      then show ?thesis using False o1 i \<open>unat lo \<le> unat hi\<close> by (simp add: ix unat_word_of_nat_less)
    qed
    then have "csr_fwd ?seg es"
      using lh b es sorted_src [OF es(1)] l1 by (simp add: csr_fwd_def index_ok_def ix)
    then show thesis using that [OF bld] by (simp add: es_def)
  qed
qed

section \<open>Reads after a compaction\<close>

lemma filter_concat_keyed:
  assumes "distinct (map fst m)" "\<forall>(k, es) \<in> set m. \<forall>e \<in> set es. sel e = k"
  shows "filter (\<lambda>e. sel e = s) (concat (map snd m)) = (case map_of m s of None \<Rightarrow> [] | Some es \<Rightarrow> es)"
  using assms
proof (induction m)
  case (Cons p m)
  obtain k es where p: "p = (k, es)" by (cases p)
  show ?case
  proof (cases "k = s")
    case True
    then have "map_of m s = None" using Cons.prems(1) by (simp add: p map_of_eq_None_iff)
    moreover have "filter (\<lambda>e. sel e = s) es = es" using Cons.prems(2) True by (auto simp: p filter_id_conv)
    ultimately show ?thesis using Cons True by (simp add: p)
  next
    case False
    then have "filter (\<lambda>e. sel e = s) es = []" using Cons.prems(2) by (auto simp: p filter_empty_conv)
    with Cons False show ?thesis by (simp add: p)
  qed
qed simp

lemma run_edges_of_src:
  assumes "run_inv r"
  shows "edges_for_src (run_edges_by_src r) s = filter (\<lambda>e. ek_src e = s) (iter_edges r)"
proof -
  have wf: "bt_wf (run_edges_by_src r)"
    and k: "\<forall>k es. bt_get (run_edges_by_src r) k = Some es \<longrightarrow> (\<forall>e \<in> set es. ek_src e = k)"
    using assms by (simp_all add: run_inv_def run_edges_inv_def)
  have "\<forall>(k, es) \<in> set (run_edges_by_src r). \<forall>e \<in> set es. ek_src e = k"
    using k by (auto simp: bt_mem_iff [OF wf])
  from filter_concat_keyed [OF bt_wf_distinct [OF wf] this]
  show ?thesis by (simp add: iter_edges_def edges_for_src_def bt_get_def)
qed

lemma surviving_src: "e \<in> set (surviving_edges rs bn be) \<Longrightarrow> ek_src e \<notin> bn"
  by (induction rs arbitrary: bn be) (auto simp: Let_def)

text \<open>No edge of the run is deleted, or has an end deleted, by the same transaction.\<close>

definition self_consistent :: "l0_run \<Rightarrow> bool" where
  "self_consistent r \<longleftrightarrow> list_all (\<lambda>e. ek_src e \<notin> set (run_tombstoned_nodes r) \<and>
     ek_dst e \<notin> set (run_tombstoned_nodes r) \<and> e \<notin> set (run_tombstoned_edges r)) (iter_edges r)"

lemma visible_surviving:
  assumes "\<forall>r \<in> set runs. run_inv r \<and> self_consistent r"
  shows "visible_runs outgoing src rel bn be runs (\<lambda>_ _. []) =
    (if src \<in> bn then []
     else filter (\<lambda>e. ek_src e = src \<and> rel_matches rel (ek_rel e)) (surviving_edges runs bn be))"
  using assms
proof (induction runs arbitrary: bn be)
  case (Cons r runs)
  have inv: "run_inv r" and sc: "self_consistent r" using Cons.prems by simp_all
  let ?N = "set (run_tombstoned_nodes r)" and ?E = "set (run_tombstoned_edges r)"
  have here: "(if src \<in> ?N then [] else filter (\<lambda>e. rel_matches rel (ek_rel e) \<and> \<not> edge_blocked_outgoing e bn be)
        (edges_for_src (run_edges_by_src r) src)) =
      filter (\<lambda>e. ek_src e = src \<and> rel_matches rel (ek_rel e))
        (filter (\<lambda>e. \<not> (ek_src e \<in> bn \<union> ?N \<or> ek_dst e \<in> bn \<union> ?N) \<and> e \<notin> be \<union> ?E) (iter_edges r))"
    if "src \<notin> bn"
    using sc that unfolding run_edges_of_src [OF inv] self_consistent_def
    by (auto simp: filter_empty_conv edge_blocked_outgoing_def list_all_iff intro!: filter_cong)
  have gone: "filter (\<lambda>e. ek_src e = src \<and> rel_matches rel (ek_rel e)) (surviving_edges rs b' e') = []"
    if "src \<in> b'" for rs b' e'
    using that surviving_src [of _ rs b' e'] by (auto simp: filter_empty_conv)
  show ?case
    using Cons here gone
    by (auto simp: outgoing_def load_outgoing_run_edges_def iter_tombstoned_nodes_def iter_tombstoned_edges_def Let_def)
qed (simp add: outgoing_def)

text \<open>The table by target lists the same edges, in another order.\<close>

lemma run_edges_of_dst:
  assumes "run_inv r"
  shows "mset (edges_for_dst (run_edges_by_dst r) d) = mset (filter (\<lambda>e. ek_dst e = d) (iter_edges r))"
proof (rule multiset_eqI)
  fix e
  have c: "count_list (edges_for_src (run_edges_by_src r) (ek_src e)) e = count_list (edges_for_dst (run_edges_by_dst r) (ek_dst e)) e"
    and k: "\<forall>k es. bt_get (run_edges_by_dst r) k = Some es \<longrightarrow> (\<forall>e \<in> set es. ek_dst e = k)"
    using assms by (simp_all add: run_inv_def run_edges_inv_def)
  have "count_list (iter_edges r) e = count_list (edges_for_src (run_edges_by_src r) (ek_src e)) e"
    using count_iter_edges [OF assms] by (simp add: run_abs_def)
  moreover have "e \<notin> set (edges_for_dst (run_edges_by_dst r) d)" if "ek_dst e \<noteq> d"
    using that k by (cases "bt_get (run_edges_by_dst r) d") (auto simp: edges_for_dst_def)
  ultimately show "count (mset (edges_for_dst (run_edges_by_dst r) d)) e = count (mset (filter (\<lambda>e. ek_dst e = d) (iter_edges r))) e"
    unfolding mset_filter count_filter_mset count_mset using c by (cases "ek_dst e = d") (simp_all add: count_list_0_iff)
qed

lemma surviving_dst: "e \<in> set (surviving_edges rs bn be) \<Longrightarrow> ek_dst e \<notin> bn"
  by (induction rs arbitrary: bn be) (auto simp: Let_def)

lemma visible_surviving_incoming:
  assumes "\<forall>r \<in> set runs. run_inv r \<and> self_consistent r"
  shows "mset (visible_runs incoming dst rel bn be runs (\<lambda>_ _. [])) =
    (if dst \<in> bn then {#}
     else mset (filter (\<lambda>e. ek_dst e = dst \<and> rel_matches rel (ek_rel e)) (surviving_edges runs bn be)))"
  using assms
proof (induction runs arbitrary: bn be)
  case (Cons r runs)
  have inv: "run_inv r" and sc: "self_consistent r" using Cons.prems by simp_all
  let ?N = "set (run_tombstoned_nodes r)" and ?E = "set (run_tombstoned_edges r)"
  let ?P = "\<lambda>e. rel_matches rel (ek_rel e) \<and> \<not> edge_blocked_incoming e bn be"
  have same: "mset (filter ?P (edges_for_dst (run_edges_by_dst r) dst)) = mset (filter ?P (filter (\<lambda>e. ek_dst e = dst) (iter_edges r)))"
    unfolding mset_filter run_edges_of_dst [OF inv] ..
  have list: "(if dst \<in> ?N then [] else filter ?P (filter (\<lambda>e. ek_dst e = dst) (iter_edges r))) =
      filter (\<lambda>e. ek_dst e = dst \<and> rel_matches rel (ek_rel e))
        (filter (\<lambda>e. \<not> (ek_src e \<in> bn \<union> ?N \<or> ek_dst e \<in> bn \<union> ?N) \<and> e \<notin> be \<union> ?E) (iter_edges r))"
    if "dst \<notin> bn"
    using sc that unfolding self_consistent_def
    by (auto simp: filter_empty_conv edge_blocked_incoming_def list_all_iff intro!: filter_cong)
  have here: "mset (if dst \<in> ?N then [] else filter ?P (edges_for_dst (run_edges_by_dst r) dst)) =
      mset (filter (\<lambda>e. ek_dst e = dst \<and> rel_matches rel (ek_rel e))
        (filter (\<lambda>e. \<not> (ek_src e \<in> bn \<union> ?N \<or> ek_dst e \<in> bn \<union> ?N) \<and> e \<notin> be \<union> ?E) (iter_edges r)))"
    if "dst \<notin> bn"
    using that arg_cong [OF list [OF that], of mset] by (cases "dst \<in> ?N") (simp_all only: same if_True if_False)
  have gone: "filter (\<lambda>e. ek_dst e = dst \<and> rel_matches rel (ek_rel e)) (surviving_edges rs b' e') = []"
    if "dst \<in> b'" for rs b' e'
    using that surviving_dst [of _ rs b' e'] by (auto simp: filter_empty_conv)
  show ?case
  proof (cases "dst \<in> bn")
    case False
    let ?rest = "visible_runs incoming dst rel (bn \<union> ?N) (be \<union> ?E) runs (\<lambda>_ _. [])"
    have "visible_runs incoming dst rel bn be (r # runs) (\<lambda>_ _. []) =
        (if dst \<in> ?N then [] else filter ?P (edges_for_dst (run_edges_by_dst r) dst)) @ ?rest"
      using False by (simp add: incoming_def load_incoming_run_edges_def)
    moreover have "mset ?rest = mset (filter (\<lambda>e. ek_dst e = dst \<and> rel_matches rel (ek_rel e)) (surviving_edges runs (bn \<union> ?N) (be \<union> ?E)))"
      using Cons.IH [of "bn \<union> ?N" "be \<union> ?E"] Cons.prems gone [of "bn \<union> ?N"] by (cases "dst \<in> bn \<union> ?N") simp_all
    ultimately show ?thesis
      using False here [OF False] by (simp only: mset_append if_False) (simp add: iter_tombstoned_nodes_def iter_tombstoned_edges_def Let_def)
  qed simp
qed (simp add: incoming_def)

definition snapshot_of :: "l0_run list \<Rightarrow> csr_segment list \<Rightarrow> snapshot" where
  "snapshot_of runs segments = \<lparr>sn_runs = runs, sn_segments = segments, sn_labels = ls_new [] [],
     sn_node_labels = [], sn_properties_root = 0, sn_stats_root = 0\<rparr>"

lemma tombstone_run:
  "run_tombstoned_edges (run_of t [TombstoneEdge s r d]) = [EdgeKey s r d]"
  "run_tombstoned_nodes (run_of t [TombstoneEdge s r d]) = []"
  "run_edges_by_src (run_of t [TombstoneEdge s r d]) = []"
  by (simp_all add: run_of_def buffer_of_def freeze_into_run_def mt_op_defs mt_default_def retain_edges_def
      bt_collect_def bs_insert_def insort_insert_key_def Let_def)

text \<open>
  C34. Compaction undoes deletions of edges that are already in a segment. Deleting such an edge
  hides it while the deletion is in a run; compaction builds the new segment from the runs
  alone and drops their deletions, so the edge of the old segment is listed again.
\<close>

theorem compaction_undeletes_edge:
  assumes old: "csr_fwd old es" and e: "e \<in> set es"
    and snap: "snap = snapshot_of [run_of txid [TombstoneEdge (ek_src e) (ek_rel e) (ek_dst e)]] [old]"
  shows "\<exists>seg L L'. build_segment_from_runs seg_id (sn_runs snap) = Inr seg \<and>
    drain outgoing (sn_neighbors snap (ek_src e) None) = Inr L \<and> e \<notin> set L \<and>
    drain outgoing (sn_neighbors (publish_segment seg snap) (ek_src e) None) = Inr L' \<and> e \<in> set L'"
proof (rule build_segment_fwd [of "sn_runs snap" seg_id])
  let ?r = "run_of txid [TombstoneEdge (ek_src e) (ek_rel e) (ek_dst e)]"
  have none: "surviving_edges (sn_runs snap) {} {} = []"
    by (simp add: snap snapshot_of_def iter_edges_def tombstone_run Let_def)
  then show "length (surviving_edges (sn_runs snap) {} {}) < 2 ^ 64" by simp
  fix seg assume seg: "build_segment_from_runs seg_id (sn_runs snap) = Inr seg"
    "csr_fwd seg (sort (surviving_edges (sn_runs snap) {} {}))"
  define segf where "segf s = filter (\<lambda>x. ek_src x = ek_src e) (if s = old then es else [])" for s
  have lk: "dir_segment_edges outgoing old (ek_src e) None = Inr (segf old)"
    using csr_neighbors_fwd [OF old] by (simp add: outgoing_def load_outgoing_segment_edges_def segf_def rel_matches_def)
  obtain f where f: "dir_segment_edges outgoing seg (ek_src e) None = Inr f"
    using csr_neighbors_fwd [OF seg(2)] by (simp add: outgoing_def load_outgoing_segment_edges_def)
  have "drain outgoing (sn_neighbors snap (ek_src e) None) =
      Inr (visible_runs outgoing (ek_src e) None {} {} [?r] (visible_segments outgoing segf [old]))"
    using drain_new [of "[old]" outgoing "ek_src e" None segf "[?r]"] lk by (simp add: snap snapshot_of_def sn_neighbors_def)
  moreover have "e \<notin> set (visible_runs outgoing (ek_src e) None {} {} [?r] (visible_segments outgoing segf [old]))"
    by (auto simp: visible_runs_iff outgoing_def load_outgoing_run_edges_def edges_for_src_def tombstone_run
        visible_segments_def edge_blocked_outgoing_def dead_edges_def dead_nodes_def)
  moreover define g where "g s = (if s = seg then f else segf s)" for s
  have gg: "g seg = f" "g old = segf old" using lk f by (auto simp: g_def)
  have "drain outgoing (sn_neighbors (publish_segment seg snap) (ek_src e) None) =
      Inr (visible_runs outgoing (ek_src e) None {} {} [] (visible_segments outgoing g [seg, old]))"
    using drain_new [of "[seg, old]" outgoing "ek_src e" None g "[]"] lk f
    by (simp add: snap snapshot_of_def sn_neighbors_def publish_segment_def gg)
  moreover have "e \<in> set (visible_runs outgoing (ek_src e) None {} {} [] (visible_segments outgoing g [seg, old]))"
    using e by (simp add: visible_segments_def outgoing_def edge_blocked_outgoing_def gg segf_def)
  ultimately show ?thesis using seg(1) by blast
qed

theorem compaction_undeletes_edge_witness:
  "\<exists>seg L L'. build_segment_from_runs 2 [run_of 9 [TombstoneEdge 1 7 3]] = Inr seg \<and>
     drain outgoing (sn_neighbors (snapshot_of [run_of 9 [TombstoneEdge 1 7 3]] [ex_segment]) 1 None) = Inr L \<and>
     EdgeKey 1 7 3 \<notin> set L \<and>
     drain outgoing (sn_neighbors (publish_segment seg (snapshot_of [run_of 9 [TombstoneEdge 1 7 3]] [ex_segment])) 1 None) = Inr L' \<and>
     EdgeKey 1 7 3 \<in> set L'"
  using compaction_undeletes_edge [OF ex_segment_fwd _ refl, of "EdgeKey 1 7 3" 2 9]
  by (simp add: ex_edges_def) (simp add: snapshot_of_def)

text \<open>
  C35. Compacting runs without a surviving edge (only properties, say) publishes a segment whose
  target range is 0 to 0 but whose table by target is empty, and persisting does not change it:
  from then on asking for the incoming edges of node 0 panics.
\<close>

theorem empty_segment_incoming_panics:
  assumes "surviving_edges runs {} {} = []"
  shows "\<exists>seg. build_segment_from_runs seg_id runs = Inr seg \<and> build_reverse seg = Inr seg \<and>
    drain incoming (neighbors_iter_new [] (seg # segs) 0 rel) = Inl (Panic ''index out of bounds'')"
proof (rule build_segment_fwd [of runs seg_id])
  show "length (surviving_edges runs {} {}) < 2 ^ 64" using assms by simp
  fix seg assume seg: "build_segment_from_runs seg_id runs = Inr seg" "csr_fwd seg (sort (surviving_edges runs {} {}))"
    "cs_in_offsets seg = []" "cs_min_dst seg = 0" "cs_max_dst seg = 0"
  have "build_reverse seg = Inr seg" using seg(2) assms by (simp add: build_reverse_def csr_fwd_def)
  moreover have "csr_incoming_neighbors seg 0 rel = Inl (Panic ''index out of bounds'')"
    using seg(3-5) by (simp add: csr_incoming_neighbors_def vec_index_def vec_get_def)
  then have "iter_step incoming (neighbors_iter_new [] (seg # segs) 0 rel) = Inl (Panic ''index out of bounds'')"
    by (simp add: iter_step_def neighbors_iter_new_def apply_pending_tombstones_def load_segment_def vec_get_def
        incoming_def load_incoming_segment_edges_def Let_def)
  then have "drain incoming (neighbors_iter_new [] (seg # segs) 0 rel) = Inl (Panic ''index out of bounds'')"
    by (subst drain.simps, simp add: iter_next_def, subst next_loop.simps) (simp add: neighbors_iter_new_def)
  ultimately show ?thesis using seg(1) by blast
qed

theorem empty_segment_incoming_panics_witness:
  "\<exists>seg. build_segment_from_runs 1 [run_of 1 [SetNodeProperty 0 [97] (PInt 5)]] = Inr seg \<and>
     drain incoming (neighbors_iter_new [] [seg] 0 None) = Inl (Panic ''index out of bounds'')"
proof -
  have "surviving_edges [run_of 1 [SetNodeProperty 0 [97] (PInt 5)]] {} {} = []" by code_simp
  from empty_segment_incoming_panics [OF this, of 1 "[]" None] show ?thesis by blast
qed

end
