(* ===== verification/IdMap.thy ===== *)
theory IdMap
  imports Pager Dicts
begin

text \<open>
  The node table of nervusdb-storage/src/idmap.rs: external to internal node ids in memory, and
  one 16-byte record per node in consecutive pages of the file.
\<close>

section \<open>Definitions\<close>

definition I2E_RECORD_SIZE :: nat where "I2E_RECORD_SIZE = 16"

definition I2E_RECORDS_PER_PAGE :: nat where
  "I2E_RECORDS_PER_PAGE = PAGE_SIZE div I2E_RECORD_SIZE"

record i2e_record =
  ie_external_id :: u64
  ie_label_id :: u32
  ie_flags :: u32

definition i2e_encode :: "i2e_record \<Rightarrow> bytes" where
  "i2e_encode r =
    (let out = replicate I2E_RECORD_SIZE 0;
         out = overwrite 0 (to_le (ie_external_id r)) out;
         out = overwrite 8 (to_le (ie_label_id r)) out
     in overwrite 12 (to_le (ie_flags r)) out)"

definition i2e_decode :: "bytes \<Rightarrow> i2e_record" where
  "i2e_decode bs = \<lparr>ie_external_id = from_le (subslice 0 8 bs),
     ie_label_id = from_le (subslice 8 4 bs), ie_flags = from_le (subslice 12 4 bs)\<rparr>"

record id_map =
  im_e2i :: "(u64, u32) hmap"
  im_i2l :: "u32 list list"
  im_i2e :: "i2e_record list"
  im_i2e_start :: "u64 option"
  im_i2e_len :: u64

definition i2e_location :: "u64 \<Rightarrow> nat \<Rightarrow> u64 \<times> nat" where
  "i2e_location start index =
    (let page_offset = index div I2E_RECORDS_PER_PAGE;
         in_page_index = index mod I2E_RECORDS_PER_PAGE
     in (start + of_nat page_offset, in_page_index * I2E_RECORD_SIZE))"

definition read_i2e_record :: "pager \<Rightarrow> u64 \<Rightarrow> nat \<Rightarrow> i2e_record result" where
  "read_i2e_record p start index =
    (let (page_id, offset) = i2e_location start index
     in rbind (read_page p page_id) (\<lambda>page.
        Inr (i2e_decode (subslice offset I2E_RECORD_SIZE page))))"

definition write_i2e_record :: "u64 \<Rightarrow> nat \<Rightarrow> i2e_record \<Rightarrow> pager \<Rightarrow> pager result" where
  "write_i2e_record start index r p =
    (let (page_id, offset) = i2e_location start index
     in rbind (ensure_allocated page_id p) (\<lambda>p.
        rbind (read_page p page_id) (\<lambda>page.
        write_page page_id (overwrite offset (i2e_encode r) page) p)))"

fun idmap_load_records :: "pager \<Rightarrow> u64 \<Rightarrow> nat list \<Rightarrow> id_map \<Rightarrow> id_map result" where
  "idmap_load_records p start [] im = Inr im"
| "idmap_load_records p start (k # ks) im =
     rbind (read_i2e_record p start k) (\<lambda>r.
       idmap_load_records p start ks
         (im\<lparr>im_i2e := im_i2e im @ [r],
             im_e2i := (if ie_external_id r \<noteq> 0
                        then hm_insert (ie_external_id r) (of_nat k) (im_e2i im) else im_e2i im),
             im_i2l := im_i2l im @ [[ie_label_id r]]\<rparr>))"

definition idmap_load :: "pager \<Rightarrow> id_map result" where
  "idmap_load p =
    (let i2e_start = i2e_start_page p; len = pager_i2e_len p;
         im = \<lparr>im_e2i = [], im_i2l = [], im_i2e = [], im_i2e_start = i2e_start, im_i2e_len = len\<rparr>
     in case i2e_start of
          None \<Rightarrow> Inr im
        | Some start \<Rightarrow> idmap_load_records p start [0..<unat len] im)"

definition idmap_len :: "id_map \<Rightarrow> u64" where
  "idmap_len im = im_i2e_len im"

definition idmap_is_empty :: "id_map \<Rightarrow> bool" where
  "idmap_is_empty im \<longleftrightarrow> im_i2e_len im = 0"

definition idmap_next_internal_id :: "id_map \<Rightarrow> u32" where
  "idmap_next_internal_id im = u32_saturate (im_i2e_len im)"

definition idmap_lookup :: "id_map \<Rightarrow> u64 \<Rightarrow> u32 option" where
  "idmap_lookup im external_id = hm_get (im_e2i im) external_id"

definition idmap_get_label :: "id_map \<Rightarrow> u32 \<Rightarrow> u32 option" where
  "idmap_get_label im i =
     (case vec_get (im_i2l im) (unat i) of None \<Rightarrow> None | Some ls \<Rightarrow> vec_get ls 0)"

definition idmap_get_labels :: "id_map \<Rightarrow> u32 \<Rightarrow> u32 list option" where
  "idmap_get_labels im i = vec_get (im_i2l im) (unat i)"

definition apply_create_node_multi_label ::
  "u64 \<Rightarrow> u32 list \<Rightarrow> u32 \<Rightarrow> id_map \<Rightarrow> pager \<Rightarrow> (id_map \<times> pager) result" where
  "apply_create_node_multi_label external_id labels internal_id im p =
    (let expected = idmap_next_internal_id im
     in if internal_id \<noteq> expected then Inl (WalProtocol ''non-dense internal id'')
     else if hm_get (im_e2i im) external_id \<noteq> None then Inl (WalProtocol ''duplicate external id'')
     else
       let labels = remdups_adj (sort labels)
       in rbind (case im_i2e_start im of
                   Some s \<Rightarrow> Inr (s, im, p)
                 | None \<Rightarrow> rbind (allocate_page p) (\<lambda>(s, p).
                     Inr (s, im\<lparr>im_i2e_start := Some s\<rparr>, set_i2e_start_page (Some s) p))) (\<lambda>(start, im, p).
       let first_label = (case labels of [] \<Rightarrow> 0 | l # _ \<Rightarrow> l);
           r = \<lparr>ie_external_id = external_id, ie_label_id = first_label, ie_flags = 0\<rparr>
       in rbind (write_i2e_record start (unat internal_id) r p) (\<lambda>p.
       let im = im\<lparr>im_i2e_len := im_i2e_len im + 1\<rparr>;
           p = set_i2e_len (im_i2e_len im) p;
           p = set_next_internal_id (idmap_next_internal_id im) p
       in Inr (im\<lparr>im_e2i := hm_insert external_id internal_id (im_e2i im),
                  im_i2l := im_i2l im @ [labels],
                  im_i2e := im_i2e im @ [r]\<rparr>, p))))"

definition apply_create_node ::
  "u64 \<Rightarrow> u32 \<Rightarrow> u32 \<Rightarrow> id_map \<Rightarrow> pager \<Rightarrow> (id_map \<times> pager) result" where
  "apply_create_node external_id label_id internal_id im p =
     apply_create_node_multi_label external_id [label_id] internal_id im p"

definition apply_add_label :: "u32 \<Rightarrow> u32 \<Rightarrow> id_map \<Rightarrow> id_map result" where
  "apply_add_label internal_id label im =
    (case vec_get (im_i2l im) (unat internal_id) of
       None \<Rightarrow> Inl (WalProtocol ''node not found'')
     | Some labels \<Rightarrow>
         Inr (if label \<in> set labels then im
              else im\<lparr>im_i2l := (im_i2l im)[unat internal_id := sort (labels @ [label])]\<rparr>))"

definition apply_remove_label :: "u32 \<Rightarrow> u32 \<Rightarrow> id_map \<Rightarrow> id_map result" where
  "apply_remove_label internal_id label im =
    (case vec_get (im_i2l im) (unat internal_id) of
       None \<Rightarrow> Inl (WalProtocol ''node not found'')
     | Some labels \<Rightarrow>
         Inr (im\<lparr>im_i2l := (im_i2l im)[unat internal_id := filter (\<lambda>l. l \<noteq> label) labels]\<rparr>))"

section \<open>Records\<close>

lemma i2e_encode_bytes:
  "i2e_encode r = to_le (ie_external_id r) @ to_le (ie_label_id r) @ to_le (ie_flags r)"
proof -
  have "overwrite 0 (to_le (ie_external_id r)) (replicate 16 0) =
      to_le (ie_external_id r) @ replicate 8 (0 :: u8)"
    using overwrite_pad [of "[]" 0 "to_le (ie_external_id r)" 16 0] by simp
  then show ?thesis
    unfolding i2e_encode_def Let_def I2E_RECORD_SIZE_def
    by (simp add: overwrite_pad del: replicate.simps append_assoc) simp
qed

interpretation i2e: fixed_codec i2e_encode i2e_decode I2E_RECORD_SIZE
  by unfold_locales
    (simp_all add: i2e_encode_bytes i2e_decode_def subslice_append_right I2E_RECORD_SIZE_def)

lemma I2E_RECORDS_PER_PAGE_eq: "I2E_RECORDS_PER_PAGE = 512"
  by (simp add: I2E_RECORDS_PER_PAGE_def I2E_RECORD_SIZE_def PAGE_SIZE_def)

lemma i2e_offset_fits: "snd (i2e_location s k) + I2E_RECORD_SIZE \<le> PAGE_SIZE"
proof -
  have "k mod 512 < 512" by simp
  then have "k mod 512 * 16 + 16 \<le> 8192" by linarith
  then show ?thesis
    by (simp add: i2e_location_def Let_def I2E_RECORDS_PER_PAGE_eq I2E_RECORD_SIZE_def PAGE_SIZE_def)
qed

lemma i2e_location_inj:
  assumes "k < 2 ^ 32" "j < 2 ^ 32" "k \<noteq> j" "fst (i2e_location s k) = fst (i2e_location s j)"
  shows "snd (i2e_location s j) + I2E_RECORD_SIZE \<le> snd (i2e_location s k) \<or>
    snd (i2e_location s k) + I2E_RECORD_SIZE \<le> snd (i2e_location s j)"
proof -
  have u: "unat (of_nat (n div 512) :: u64) = n div 512" if "n < 2 ^ 32" for n
    using that by (intro unat_word_of_nat_less) (simp add: div_less_dividend less_mult_imp_div_less)
  from assms(4) have "(of_nat (k div 512) :: u64) = of_nat (j div 512)"
    by (simp add: i2e_location_def Let_def I2E_RECORDS_PER_PAGE_eq)
  then have "k div 512 = j div 512" using u [OF assms(1)] u [OF assms(2)] by metis
  then have "k mod 512 \<noteq> j mod 512" using assms(3) by (metis div_mult_mod_eq)
  then have "j mod 512 * 16 + 16 \<le> k mod 512 * 16 \<or> k mod 512 * 16 + 16 \<le> j mod 512 * 16" by linarith
  then show ?thesis
    by (simp add: i2e_location_def Let_def I2E_RECORDS_PER_PAGE_eq I2E_RECORD_SIZE_def)
qed

definition i2e_at :: "pager \<Rightarrow> u64 \<Rightarrow> nat \<Rightarrow> i2e_record option" where
  "i2e_at p s k = (case pg_pages p (fst (i2e_location s k)) of
     None \<Rightarrow> None
   | Some b \<Rightarrow> Some (i2e_decode (subslice (snd (i2e_location s k)) I2E_RECORD_SIZE b)))"

lemma read_i2e_record_at:
  assumes "pager_inv p"
  shows "read_i2e_record p s k = Inr r \<longleftrightarrow> i2e_at p s k = Some r"
  by (auto simp: read_i2e_record_def i2e_at_def rbind_Inr_iff pgs.read_iff [OF assms]
      split: prod.split option.splits)

lemma ensure_allocated_meta:
  assumes "pager_inv p" "ensure_allocated i p = Inr p'"
  shows "\<exists>n. pg_meta p' = (pg_meta p)\<lparr>mt_next_page_id := n\<rparr>"
proof -
  have d: "data_page i"
    using assms(2) by (auto simp: ensure_allocated_def validate_data_page_id_iff split: if_splits)
  show ?thesis
    using ensure_allocated_ok [OF pager_invD [OF assms(1)] d] assms(2) by (metis sum.inject(2))
qed

lemma allocate_page_meta:
  assumes "pager_inv p" "allocate_page p = Inr (i, p')"
  shows "\<exists>n. pg_meta p' = (pg_meta p)\<lparr>mt_next_page_id := n\<rparr>"
proof -
  from assms(2) have "ensure_allocated i p = Inr p'"
    by (auto simp: allocate_page_least [OF pager_invD [OF assms(1)]] rbind_Inr_iff split: if_splits)
  with ensure_allocated_meta [OF assms(1)] show ?thesis .
qed

lemma write_page_meta: "write_page i b p = Inr p' \<Longrightarrow> pg_meta p' = pg_meta p"
  by (auto simp: write_page_def rbind_Inr_iff split: if_splits)

lemma write_i2e_record_at:
  assumes inv: "pager_inv p" and w: "write_i2e_record s k r p = Inr p'" and k: "k < 2 ^ 32"
  obtains n b where "pager_inv p'" "i2e_at p' s k = Some r"
    "\<And>j x. j < 2 ^ 32 \<Longrightarrow> j \<noteq> k \<Longrightarrow> i2e_at p s j = Some x \<Longrightarrow> i2e_at p' s j = Some x"
    "pg_pages p' = (pg_pages p)(fst (i2e_location s k) \<mapsto>
        overwrite (snd (i2e_location s k)) (i2e_encode r) b)"
    "\<And>c. pg_pages p (fst (i2e_location s k)) = Some c \<Longrightarrow> c = b"
    "pg_meta p' = (pg_meta p)\<lparr>mt_next_page_id := n\<rparr>"
proof -
  let ?i = "fst (i2e_location s k)" and ?o = "snd (i2e_location s k)"
  let ?g = "overwrite ?o (i2e_encode r)"
  have fit: "?o + length (i2e_encode r) \<le> PAGE_SIZE"
    using i2e_offset_fits [of s k] by (simp add: i2e.length_enc)
  from w obtain p1 b where e: "ensure_allocated ?i p = Inr p1" and b: "read_page p1 ?i = Inr b"
    and wr: "write_page ?i (?g b) p1 = Inr p'"
    by (auto simp: write_i2e_record_def rbind_Inr_iff split: prod.splits)
  obtain b' p2 where u: "read_page p1 ?i = Inr b'" "length b' = PAGE_SIZE"
    "write_page ?i (?g b') p1 = Inr p2" "pager_inv p2" "pg_pages p2 = (pg_pages p)(?i \<mapsto> ?g b')"
    "\<And>c. pg_pages p ?i = Some c \<Longrightarrow> c = b'"
  proof (rule pgs.ensure_update [OF inv e, of ?g])
    show "length (?g c) = PAGE_SIZE" if "length c = PAGE_SIZE" for c using fit that by simp
  qed blast
  have "b' = b" using b u(1) by simp
  then have "p2 = p'" using wr u(3) by simp
  note u = u(2,4,5,6) [unfolded \<open>b' = b\<close> \<open>p2 = p'\<close>]
  obtain n where n: "pg_meta p' = (pg_meta p)\<lparr>mt_next_page_id := n\<rparr>"
    using ensure_allocated_meta [OF inv e] write_page_meta [OF wr] by auto
  have sl: "subslice ?o I2E_RECORD_SIZE (?g b) = i2e_encode r"
    using fit u(1) by (intro subslice_overwrite_same) (simp_all add: i2e.length_enc)
  have "i2e_at p' s k = Some r" by (simp add: i2e_at_def u(3) sl i2e.dec_enc)
  moreover have "i2e_at p' s j = Some x" if "j < 2 ^ 32" "j \<noteq> k" "i2e_at p s j = Some x" for j x
  proof (cases "fst (i2e_location s j) = ?i")
    case True
    have "subslice (snd (i2e_location s j)) I2E_RECORD_SIZE (?g b) =
        subslice (snd (i2e_location s j)) I2E_RECORD_SIZE b"
      using i2e_location_inj [OF that(1) k that(2) True] fit u(1)
      by (intro subslice_overwrite_other) (auto simp: i2e.length_enc)
    with that(3) True u(4) show ?thesis by (auto simp: i2e_at_def u(3) split: option.splits)
  next
    case False
    with that(3) show ?thesis by (simp add: i2e_at_def u(3))
  qed
  ultimately show thesis using that [OF u(2)] u(3,4) n by blast
qed

section \<open>The invariant\<close>

definition idmap_inv :: "id_map \<Rightarrow> pager \<Rightarrow> bool" where
  "idmap_inv im p \<longleftrightarrow>
     pager_inv p \<and> im_i2e_start im = i2e_start_page p \<and> im_i2e_len im = pager_i2e_len p \<and>
     length (im_i2e im) = unat (im_i2e_len im) \<and> length (im_i2l im) = length (im_i2e im) \<and>
     length (im_i2e im) < 2 ^ 32 \<and>
     (\<forall>k < length (im_i2e im). \<exists>s. im_i2e_start im = Some s \<and> i2e_at p s k = Some (im_i2e im ! k)) \<and>
     hm_wf (im_e2i im) \<and>
     (\<forall>x i. idmap_lookup im x = Some i \<longleftrightarrow>
        unat i < length (im_i2e im) \<and> ie_external_id (im_i2e im ! unat i) = x)"

lemma idmap_invD:
  assumes "idmap_inv im p"
  shows "pager_inv p" "im_i2e_start im = i2e_start_page p" "im_i2e_len im = pager_i2e_len p"
    "length (im_i2e im) = unat (im_i2e_len im)" "length (im_i2l im) = length (im_i2e im)"
    "length (im_i2e im) < 2 ^ 32" "hm_wf (im_e2i im)"
    "k < length (im_i2e im) \<Longrightarrow> \<exists>s. im_i2e_start im = Some s \<and> i2e_at p s k = Some (im_i2e im ! k)"
    "idmap_lookup im x = Some i \<longleftrightarrow>
       unat i < length (im_i2e im) \<and> ie_external_id (im_i2e im ! unat i) = x"
  using assms unfolding idmap_inv_def by blast+

definition next_id :: "id_map \<Rightarrow> u32" where
  "next_id im = of_nat (length (im_i2e im))"

lemma idmap_next: "idmap_inv im p \<Longrightarrow> idmap_next_internal_id im = next_id im"
  by (auto simp: idmap_inv_def idmap_next_internal_id_def u32_saturate_def next_id_def
      unsigned_ucast_eq word_unat_eq_iff)

text \<open>Finding or allocating the first page of the table.\<close>

definition create_start :: "id_map \<Rightarrow> pager \<Rightarrow> (u64 \<times> id_map \<times> pager) result" where
  "create_start im p =
    (case im_i2e_start im of
       Some s \<Rightarrow> Inr (s, im, p)
     | None \<Rightarrow> rbind (allocate_page p) (\<lambda>(s, p).
         Inr (s, im\<lparr>im_i2e_start := Some s\<rparr>, set_i2e_start_page (Some s) p)))"

lemma create_start_ok:
  assumes inv: "idmap_inv im p" and c: "create_start im p = Inr (s, im1, p1)"
  shows "im1 = im\<lparr>im_i2e_start := Some s\<rparr>" "pager_inv p1" "i2e_start_page p1 = Some s"
    "pager_i2e_len p1 = pager_i2e_len p" "pg_pages p \<subseteq>\<^sub>m pg_pages p1"
    "k < length (im_i2e im) \<Longrightarrow> i2e_at p1 s k = Some (im_i2e im ! k)"
proof -
  have pinv: "pager_inv p" using inv by (simp add: idmap_inv_def)
  have "im1 = im\<lparr>im_i2e_start := Some s\<rparr> \<and> pager_inv p1 \<and> i2e_start_page p1 = Some s \<and>
    pager_i2e_len p1 = pager_i2e_len p \<and> pg_pages p \<subseteq>\<^sub>m pg_pages p1 \<and>
    (\<forall>k < length (im_i2e im). i2e_at p1 s k = Some (im_i2e im ! k))"
  proof (cases "im_i2e_start im")
    case (Some s')
    with c inv pinv show ?thesis by (auto simp: create_start_def idmap_inv_def)
  next
    case None
    with c obtain p0 where a: "allocate_page p = Inr (s, p0)"
      and e: "im1 = im\<lparr>im_i2e_start := Some s\<rparr>" "p1 = set_i2e_start_page (Some s) p0"
      by (auto simp: create_start_def rbind_Inr_iff)
    from pgs.alloc_law [OF pinv a] obtain b where
      p0: "pager_inv p0" "pg_pages p s = None" "pg_pages p0 = (pg_pages p)(s \<mapsto> b)" by blast
    obtain n where "pg_meta p0 = (pg_meta p)\<lparr>mt_next_page_id := n\<rparr>"
      using allocate_page_meta [OF pinv a] by blast
    then have "i2e_start_page p1 = Some s" "pager_i2e_len p1 = pager_i2e_len p"
      using pgs.alloc_nonzero [OF pinv a] setters_meta(1) [OF p0(1), of "Some s"]
      by (simp_all add: e i2e_start_page_def pager_i2e_len_def opt_page_def)
    moreover have "pg_pages p \<subseteq>\<^sub>m pg_pages p1"
      unfolding e setters_pages(1) [OF p0(1)] p0(3) using p0(2) by (auto simp: map_le_def)
    moreover have "im_i2e im = []" using inv None by (fastforce simp: idmap_inv_def)
    ultimately show ?thesis using e setters_inv(1) [OF p0(1)] by simp
  qed
  then show "im1 = im\<lparr>im_i2e_start := Some s\<rparr>" "pager_inv p1" "i2e_start_page p1 = Some s"
    "pager_i2e_len p1 = pager_i2e_len p" "pg_pages p \<subseteq>\<^sub>m pg_pages p1"
    "k < length (im_i2e im) \<Longrightarrow> i2e_at p1 s k = Some (im_i2e im ! k)"
    by blast+
qed

definition new_record :: "u64 \<Rightarrow> u32 list \<Rightarrow> i2e_record" where
  "new_record external_id labels =
     \<lparr>ie_external_id = external_id,
      ie_label_id = (case remdups_adj (sort labels) of [] \<Rightarrow> 0 | l # _ \<Rightarrow> l), ie_flags = 0\<rparr>"

lemma create_cases:
  assumes inv: "idmap_inv im p"
    and c: "apply_create_node_multi_label x ls i im p = Inr (im', p')"
  obtains s im1 p1 p2 where "i = next_id im" "idmap_lookup im x = None"
    "create_start im p = Inr (s, im1, p1)" "write_i2e_record s (unat i) (new_record x ls) p1 = Inr p2"
    "im' = im1\<lparr>im_i2e_len := im_i2e_len im1 + 1, im_e2i := hm_insert x i (im_e2i im1),
       im_i2l := im_i2l im1 @ [remdups_adj (sort ls)], im_i2e := im_i2e im1 @ [new_record x ls]\<rparr>"
    "p' = set_next_internal_id (u32_saturate (im_i2e_len im1 + 1)) (set_i2e_len (im_i2e_len im1 + 1) p2)"
  using c idmap_next [OF inv]
  unfolding apply_create_node_multi_label_def Let_def create_start_def [symmetric]
  by (auto simp: rbind_Inr_iff idmap_lookup_def new_record_def idmap_next_internal_id_def
      split: if_splits)

text \<open>The lookup table after one more node.\<close>

lemma lookup_extend:
  assumes look: "\<And>y j. f y = Some j \<longleftrightarrow> unat j < length rs \<and> ie_external_id (rs ! unat j) = y"
    and fresh: "f (ie_external_id r) = None" and i: "unat (i :: u32) = length rs"
  shows "(if y = ie_external_id r then Some i else f y) = Some j \<longleftrightarrow>
    unat j < length (rs @ [r]) \<and> ie_external_id ((rs @ [r]) ! unat j) = y"
proof (cases "unat j < length rs")
  case True
  then have "ie_external_id (rs ! unat j) \<noteq> ie_external_id r" using look fresh by force
  then show ?thesis using True look [of y j] i by (auto simp: nth_append)
next
  case False
  then have "f y \<noteq> Some j" using look by blast
  moreover have "unat j = length rs \<longleftrightarrow> i = j" using i by (metis word_unat_eq_iff)
  ultimately show ?thesis using False by (auto simp: nth_append less_Suc_eq)
qed

lemma create_inv:
  assumes inv: "idmap_inv im p" and room: "Suc (length (im_i2e im)) < 2 ^ 32"
    and c: "apply_create_node_multi_label x ls i im p = Inr (im', p')"
  shows "idmap_inv im' p'"
proof (rule create_cases [OF inv c])
  let ?n = "length (im_i2e im)" and ?r = "new_record x ls"
  fix s im1 p1 p2 assume i: "i = next_id im" and fresh: "idmap_lookup im x = None"
    and st: "create_start im p = Inr (s, im1, p1)"
    and w: "write_i2e_record s (unat i) ?r p1 = Inr p2"
    and im': "im' = im1\<lparr>im_i2e_len := im_i2e_len im1 + 1, im_e2i := hm_insert x i (im_e2i im1),
       im_i2l := im_i2l im1 @ [remdups_adj (sort ls)], im_i2e := im_i2e im1 @ [?r]\<rparr>"
    and p': "p' = set_next_internal_id (u32_saturate (im_i2e_len im1 + 1)) (set_i2e_len (im_i2e_len im1 + 1) p2)"
  note st = create_start_ok [OF inv st]
  have n: "unat i = ?n" using room i by (simp add: next_id_def unat_word_of_nat_less)
  have ilt: "unat i < 2 ^ 32" using room n by simp
  obtain m b where p2: "pager_inv p2" "i2e_at p2 s (unat i) = Some ?r"
    "\<And>j x. j < 2 ^ 32 \<Longrightarrow> j \<noteq> unat i \<Longrightarrow> i2e_at p1 s j = Some x \<Longrightarrow> i2e_at p2 s j = Some x"
    "pg_meta p2 = (pg_meta p1)\<lparr>mt_next_page_id := m\<rparr>"
    using write_i2e_record_at [OF st(2) w ilt] by metis
  note q = setters_inv(2) [OF p2(1), of "im_i2e_len im1 + 1"]
  have pinv: "pager_inv p'" unfolding p' by (rule setters_inv(3) [OF q])
  have meta: "i2e_start_page p' = Some s" "pager_i2e_len p' = im_i2e_len im + 1"
    using st(1,3)
    unfolding p' i2e_start_page_def pager_i2e_len_def setters_meta(3) [OF q] setters_meta(2) [OF p2(1)] p2(4)
    by (simp_all split: if_splits)
  have at: "i2e_at p' = i2e_at p2"
    unfolding p' i2e_at_def fun_eq_iff setters_pages(3) [OF q] setters_pages(2) [OF p2(1)] by simp
  have len: "?n = unat (im_i2e_len im)" "?n = length (im_i2l im)" "hm_wf (im_e2i im)"
    using inv by (auto simp: idmap_inv_def)
  then have len': "unat (im_i2e_len im + 1) = Suc ?n" using room by (simp add: unat_word_ariths)
  have recs: "i2e_at p2 s k = Some ((im_i2e im @ [?r]) ! k)" if "k < Suc ?n" for k
  proof (cases "k = ?n")
    case False
    then have "k < ?n" "k < 2 ^ 32" using that room by simp_all
    with p2(3) [of k] st(6) [of k] n show ?thesis by (simp add: nth_append)
  qed (use p2(2) n in simp)
  have "idmap_lookup im' y = Some j \<longleftrightarrow>
      unat j < length (im_i2e im @ [?r]) \<and> ie_external_id ((im_i2e im @ [?r]) ! unat j) = y" for y j
  proof -
    have ex: "ie_external_id ?r = x" by (simp add: new_record_def)
    have lk: "idmap_lookup im' y = (if y = ie_external_id ?r then Some i else idmap_lookup im y)"
      by (simp add: im' st(1) idmap_lookup_def ex)
    have look: "idmap_lookup im y = Some j \<longleftrightarrow>
        unat j < ?n \<and> ie_external_id (im_i2e im ! unat j) = y" for y j
      using inv by (simp add: idmap_inv_def)
    show ?thesis unfolding lk by (rule lookup_extend [OF look _ n]) (simp add: ex fresh)
  qed
  with pinv meta recs len len' room show ?thesis
    unfolding idmap_inv_def by (simp add: im' st(1) at)
qed

section \<open>Loading\<close>

lemma option_eqI: "(\<And>k. a = Some k \<longleftrightarrow> b = Some k) \<Longrightarrow> a = b"
  by (cases a; cases b) auto

definition loaded_entries :: "i2e_record list \<Rightarrow> nat list \<Rightarrow> (u64 \<times> u32) list" where
  "loaded_entries rs ks =
     map (\<lambda>k. (ie_external_id (rs ! k), of_nat k)) (filter (\<lambda>k. ie_external_id (rs ! k) \<noteq> 0) ks)"

lemma load_records:
  assumes inv: "pager_inv p"
  shows "\<forall>k \<in> set ks. i2e_at p s k = Some (rs ! k) \<Longrightarrow>
    idmap_load_records p s ks im =
      Inr (im\<lparr>im_i2e := im_i2e im @ map ((!) rs) ks,
              im_e2i := fold (\<lambda>(x, i). hm_insert x i) (loaded_entries rs ks) (im_e2i im),
              im_i2l := im_i2l im @ map (\<lambda>k. [ie_label_id (rs ! k)]) ks\<rparr>)"
proof (induction ks arbitrary: im)
  case (Cons k ks)
  then have "read_i2e_record p s k = Inr (rs ! k)" by (simp add: read_i2e_record_at [OF inv])
  with Cons show ?case by (simp add: loaded_entries_def)
qed (simp add: loaded_entries_def)

lemma loaded_entries_lookup:
  assumes inj: "\<And>j k. j < length rs \<Longrightarrow> k < length rs \<Longrightarrow>
      ie_external_id (rs ! j) = ie_external_id (rs ! k) \<Longrightarrow> j = k"
    and len: "length rs < 2 ^ 32"
  shows "hm_get (fold (\<lambda>(x, i). hm_insert x i) (loaded_entries rs [0..<length rs]) []) x = Some i \<longleftrightarrow>
    x \<noteq> 0 \<and> unat i < length rs \<and> ie_external_id (rs ! unat i) = x"
proof -
  let ?l = "loaded_entries rs [0..<length rs]"
  have "distinct (map fst ?l)"
    by (auto simp: loaded_entries_def distinct_map comp_def inj_on_def dest: inj)
  then have "hm_get (fold (\<lambda>(x, i). hm_insert x i) ?l []) x = Some i \<longleftrightarrow> (x, i) \<in> set ?l"
    using map_of_eq_Some_iff [of ?l x i]
    by (cases "map_of ?l x") (simp_all add: hm.lookup_fold_put_distinct)
  also have "\<dots> \<longleftrightarrow> (\<exists>k < length rs. ie_external_id (rs ! k) \<noteq> 0 \<and> x = ie_external_id (rs ! k) \<and> i = of_nat k)"
    by (auto simp: loaded_entries_def)
  also have "\<dots> \<longleftrightarrow> x \<noteq> 0 \<and> unat i < length rs \<and> ie_external_id (rs ! unat i) = x"
    using len by (auto simp: unat_word_of_nat_less intro!: exI [of _ "unat i"])
  finally show ?thesis .
qed

lemma idmap_inv_inj:
  assumes inv: "idmap_inv im p" and "j < length (im_i2e im)" "k < length (im_i2e im)"
    and "ie_external_id (im_i2e im ! j) = ie_external_id (im_i2e im ! k)"
  shows "j = k"
proof -
  note n = idmap_invD(6) [OF inv]
  have u: "unat (of_nat m :: u32) = m" if "m < length (im_i2e im)" for m
    using that n by (intro unat_word_of_nat_less) simp
  have "idmap_lookup im (ie_external_id (im_i2e im ! m)) = Some (of_nat m)" if "m < length (im_i2e im)" for m
    using that u [OF that] by (simp add: idmap_invD(9) [OF inv])
  from this [of j] this [of k] assms(2-4) have "(of_nat j :: u32) = of_nat k" by simp
  with u assms(2,3) show ?thesis by metis
qed

lemma idmap_load_ok:
  assumes inv: "idmap_inv im p"
  shows "\<exists>im'. idmap_load p = Inr im' \<and> im_i2e im' = im_i2e im \<and>
    im_i2e_start im' = im_i2e_start im \<and> im_i2e_len im' = im_i2e_len im \<and>
    im_i2l im' = map (\<lambda>r. [ie_label_id r]) (im_i2e im) \<and>
    (\<forall>x. idmap_lookup im' x = (if x = 0 then None else idmap_lookup im x))"
proof (cases "im_i2e_start im")
  case None
  then have e: "im_i2e im = []" using idmap_invD(8) [OF inv, of 0] by fastforce
  then have "idmap_lookup im x \<noteq> Some i" for x i by (simp add: idmap_invD(9) [OF inv])
  then have "idmap_lookup im x = None" for x by (metis not_None_eq)
  moreover have "i2e_start_page p = None" "pager_i2e_len p = im_i2e_len im"
    using idmap_invD(2,3) [OF inv] None by simp_all
  ultimately show ?thesis by (simp add: idmap_load_def e None idmap_lookup_def)
next
  case (Some s)
  let ?rs = "im_i2e im" and ?n = "length (im_i2e im)"
  note i = idmap_invD [OF inv]
  have st: "i2e_start_page p = Some s" "unat (pager_i2e_len p) = ?n" using i(2,3,4) Some by simp_all
  have at: "\<forall>k \<in> set [0..<?n]. i2e_at p s k = Some (?rs ! k)" using i(8) Some by fastforce
  have labels: "map (\<lambda>k. [ie_label_id (?rs ! k)]) [0..<?n] = map (\<lambda>r. [ie_label_id r]) ?rs"
    by (rule nth_equalityI) simp_all
  let ?e = "fold (\<lambda>(x, i). hm_insert x i) (loaded_entries ?rs [0..<?n]) []"
  have le: "hm_get ?e x = Some k \<longleftrightarrow> x \<noteq> 0 \<and> unat k < ?n \<and> ie_external_id (?rs ! unat k) = x" for x k
    by (rule loaded_entries_lookup) (rule idmap_inv_inj [OF inv], assumption+, rule i(6))
  have e: "hm_get ?e x = (if x = 0 then None else idmap_lookup im x)" for x
  proof (rule option_eqI)
    fix k show "hm_get ?e x = Some k \<longleftrightarrow> (if x = 0 then None else idmap_lookup im x) = Some k"
      by (simp add: le i(9))
  qed
  have "idmap_load p = Inr \<lparr>im_e2i = ?e, im_i2l = map (\<lambda>r. [ie_label_id r]) ?rs,
      im_i2e = ?rs, im_i2e_start = Some s, im_i2e_len = im_i2e_len im\<rparr>"
    unfolding idmap_load_def Let_def st option.case load_records [OF i(1) at]
    by (simp add: map_nth labels i(3))
  then show ?thesis using Some by (simp add: idmap_lookup_def e)
qed

lemma i2e_update_length:
  "length b = PAGE_SIZE \<Longrightarrow> length (overwrite (snd (i2e_location s k)) (i2e_encode r) b) = PAGE_SIZE"
  by (metis i2e.length_enc i2e_offset_fits length_overwrite)

lemma write_i2e_record_succeeds:
  assumes inv: "pager_inv p" and d: "data_page (fst (i2e_location s k))"
  shows "\<exists>p'. write_i2e_record s k r p = Inr p'"
proof -
  let ?i = "fst (i2e_location s k)"
  obtain p1 where e: "ensure_allocated ?i p = Inr p1"
    by (rule ensure_allocated_ok [OF pager_invD [OF inv] d])
  from pgs.ensure_law [OF inv e] obtain b where b: "pager_inv p1" "length b = PAGE_SIZE" "pg_pages p1 ?i = Some b"
    by auto
  from pgs.write_law [OF b(1,3) i2e_update_length [OF b(2)]] obtain p2 where
    "write_page ?i (overwrite (snd (i2e_location s k)) (i2e_encode r) b) p1 = Inr p2" by blast
  with pgs.read_law [OF b(1,3)] show ?thesis
    unfolding write_i2e_record_def Let_def case_prod_beta e by simp
qed

lemma empty_create:
  obtains p im im' p' where "pager_open None = Inr p" "idmap_load p = Inr im" "idmap_inv im p"
    "im_i2e im = []" "apply_create_node_multi_label x ls 0 im p = Inr (im', p')"
proof -
  obtain p where p: "pager_open None = Inr p" "pager_inv p" "pg_pages p = (\<lambda>_. None)" "pg_meta p = meta_new"
    using pager_create by blast
  let ?im = "\<lparr>im_e2i = [], im_i2l = [], im_i2e = [], im_i2e_start = None, im_i2e_len = 0\<rparr>"
  have l: "idmap_load p = Inr ?im"
    by (simp add: idmap_load_def i2e_start_page_def pager_i2e_len_def p(4) meta_new_def)
  have inv: "idmap_inv ?im p"
    by (simp add: idmap_inv_def p(2,4) i2e_start_page_def pager_i2e_len_def meta_new_def idmap_lookup_def)
  obtain s p0 where a: "allocate_page p = Inr (s, p0)"
    using allocate_page_succeeds [OF p(2), of 2] p(3) by (auto simp: data_page_def)
  from pgs.alloc_law [OF p(2) a] obtain b where p0: "pager_inv p0" "pg_pages p0 s = Some b" by auto
  then have "data_page s" by (simp add: pg_pages_def split: if_splits)
  then have d: "data_page (fst (i2e_location s 0))" by (simp add: i2e_location_def)
  obtain p2 where "write_i2e_record s 0 (new_record x ls) (set_i2e_start_page (Some s) p0) = Inr p2"
    using write_i2e_record_succeeds [OF setters_inv(1) [OF p0(1)] d] by blast
  then have "\<exists>im' p'. apply_create_node_multi_label x ls 0 ?im p = Inr (im', p')"
    by (simp add: apply_create_node_multi_label_def idmap_next_internal_id_def u32_saturate_def
        Let_def a new_record_def)
  with that [OF p(1) l inv] show thesis by auto
qed

lemma reopen_idmap_inv:
  assumes inv: "idmap_inv im p"
  shows "idmap_inv im (p\<lparr>pg_meta := meta_normal (pg_meta p)\<rparr>)"
proof -
  let ?q = "p\<lparr>pg_meta := meta_normal (pg_meta p)\<rparr>"
  have at: "i2e_at ?q = i2e_at p" by (simp add: fun_eq_iff i2e_at_def pg_pages_def)
  have st: "i2e_start_page ?q = i2e_start_page p" and len: "pager_i2e_len ?q = pager_i2e_len p"
    by (simp_all add: i2e_start_page_def pager_i2e_len_def meta_normal_def)
  show ?thesis
    using inv reopen_inv [OF idmap_invD(1) [OF inv]] unfolding idmap_inv_def at st len by blast
qed

section \<open>Properties\<close>

text \<open>
  C10. Creating a node assigns the next dense internal id, rejects a known external id or a
  gap, makes exactly the new external id resolvable, stores the sorted label set, keeps the
  table on disk equal to the table in memory, and changes no page that was in use other than
  the one the record falls in.
\<close>

theorem create_node_spec:
  assumes inv: "idmap_inv im p" and room: "Suc (length (im_i2e im)) < 2 ^ 32"
    and c: "apply_create_node_multi_label x ls i im p = Inr (im', p')"
  shows "idmap_inv im' p' \<and> i = next_id im \<and> idmap_lookup im x = None \<and>
    idmap_lookup im' = (idmap_lookup im)(x \<mapsto> i) \<and>
    idmap_get_labels im' i = Some (remdups_adj (sort ls)) \<and>
    (\<forall>j. j \<noteq> i \<longrightarrow> idmap_get_labels im' j = idmap_get_labels im j) \<and>
    (\<forall>s q. im_i2e_start im' = Some s \<and> q \<noteq> fst (i2e_location s (unat i)) \<and> pg_pages p q \<noteq> None
        \<longrightarrow> pg_pages p' q = pg_pages p q)"
proof (rule create_cases [OF inv c])
  fix s im1 p1 p2 assume i: "i = next_id im" and fresh: "idmap_lookup im x = None"
    and st: "create_start im p = Inr (s, im1, p1)"
    and w: "write_i2e_record s (unat i) (new_record x ls) p1 = Inr p2"
    and im': "im' = im1\<lparr>im_i2e_len := im_i2e_len im1 + 1, im_e2i := hm_insert x i (im_e2i im1),
       im_i2l := im_i2l im1 @ [remdups_adj (sort ls)], im_i2e := im_i2e im1 @ [new_record x ls]\<rparr>"
    and p': "p' = set_next_internal_id (u32_saturate (im_i2e_len im1 + 1)) (set_i2e_len (im_i2e_len im1 + 1) p2)"
  note st = create_start_ok [OF inv st]
  have n: "unat i = length (im_i2l im)"
    using room i idmap_invD(5) [OF inv] by (simp add: next_id_def unat_word_of_nat_less)
  have ilt: "unat i < 2 ^ 32" using room n idmap_invD(5) [OF inv] by simp
  obtain b where p2: "pager_inv p2" "pg_pages p2 = (pg_pages p1)(fst (i2e_location s (unat i)) \<mapsto> b)"
    using write_i2e_record_at [OF st(2) w ilt] by metis
  have pages: "pg_pages p' = pg_pages p2"
    unfolding p' setters_pages(3) [OF setters_inv(2) [OF p2(1)]] setters_pages(2) [OF p2(1)] ..
  have "pg_pages p' q = pg_pages p q"
    if "q \<noteq> fst (i2e_location s (unat i))" "pg_pages p q \<noteq> None" for q
    using that st(5) by (auto simp: pages p2(2) map_le_def dom_def)
  moreover have "idmap_lookup im' = (idmap_lookup im)(x \<mapsto> i)"
    by (simp add: fun_eq_iff im' st(1) idmap_lookup_def)
  moreover have "idmap_get_labels im' j =
      (if j = i then Some (remdups_adj (sort ls)) else idmap_get_labels im j)" for j
    using n by (auto simp: im' st(1) idmap_get_labels_def word_unat_eq_iff)
  moreover have "im_i2e_start im' = Some s" by (simp add: im' st(1))
  ultimately show ?thesis using create_inv [OF inv room c] i fresh by simp
qed

theorem create_node_spec_witness:
  "\<exists>im p im' p'. idmap_inv im p \<and> Suc (length (im_i2e im)) < 2 ^ 32 \<and>
     apply_create_node_multi_label 100 [9, 7, 9] 0 im p = Inr (im', p') \<and>
     idmap_lookup im' 100 = Some 0 \<and> idmap_get_labels im' 0 = Some [7, 9]"
proof -
  obtain p im im' p' where c: "idmap_inv im p" "im_i2e im = []"
    "apply_create_node_multi_label 100 [9, 7, 9] 0 im p = Inr (im', p')"
    using empty_create [of 100 "[9, 7, 9]"] by metis
  have room: "Suc (length (im_i2e im)) < 2 ^ 32" by (simp add: c(2))
  have "remdups_adj (sort [9, 7, 9]) = [7, 9 :: u32]" by code_simp
  then have "idmap_lookup im' 100 = Some 0 \<and> idmap_get_labels im' 0 = Some [7, 9]"
    using create_node_spec [OF c(1) room c(3)] by simp
  with c room show ?thesis by blast
qed

text \<open>
  C27. Reopening the file and loading the table gives every record back, and with it every
  lookup of a non-zero external id. Two things are not persisted: external id 0, which the
  loader reads as an empty slot, and all labels of a node but the first.
\<close>

theorem idmap_reload:
  assumes inv: "idmap_inv im p"
  shows "\<exists>q im'. pager_open (Some (pg_file p)) = Inr q \<and> idmap_load q = Inr im' \<and>
    im_i2e im' = im_i2e im \<and> im_i2e_start im' = im_i2e_start im \<and> idmap_len im' = idmap_len im \<and>
    (\<forall>x. idmap_lookup im' x = (if x = 0 then None else idmap_lookup im x)) \<and>
    im_i2l im' = map (\<lambda>r. [ie_label_id r]) (im_i2e im)"
  using pager_reopen [OF idmap_invD(1) [OF inv]] idmap_load_ok [OF reopen_idmap_inv [OF inv]]
  unfolding idmap_len_def by blast

theorem idmap_reload_witness:
  "\<exists>im p q im'. idmap_inv im p \<and> idmap_lookup im 0 = Some 0 \<and> idmap_get_labels im 0 = Some [7, 9] \<and>
     pager_open (Some (pg_file p)) = Inr q \<and> idmap_load q = Inr im' \<and>
     idmap_lookup im' 0 = None \<and> idmap_get_labels im' 0 = Some [7]"
proof -
  obtain p0 im0 im p where c: "idmap_inv im0 p0" "im_i2e im0 = []"
    "apply_create_node_multi_label 0 [9, 7, 9] 0 im0 p0 = Inr (im, p)"
    using empty_create [of 0 "[9, 7, 9]"] by metis
  have inv: "idmap_inv im p" using create_inv [OF c(1) _ c(3)] c(2) by simp
  have s: "remdups_adj (sort [9, 7, 9]) = [7, 9 :: u32]" by code_simp
  have im: "im_i2e im = [new_record 0 [9, 7, 9]] \<and> im_i2l im = [[7, 9]] \<and> idmap_lookup im 0 = Some 0"
  proof (rule create_cases [OF c(1,3)])
    fix s' im1 p1 p2 assume "create_start im0 p0 = Inr (s', im1, p1)" and
      "im = im1\<lparr>im_i2e_len := im_i2e_len im1 + 1, im_e2i := hm_insert 0 0 (im_e2i im1),
         im_i2l := im_i2l im1 @ [remdups_adj (sort [9, 7, 9])], im_i2e := im_i2e im1 @ [new_record 0 [9, 7, 9]]\<rparr>"
    with create_start_ok(1) [OF c(1)] c(2) idmap_invD(5) [OF c(1)]
    show "im_i2e im = [new_record 0 [9, 7, 9]] \<and> im_i2l im = [[7, 9]] \<and> idmap_lookup im 0 = Some 0"
      by (simp add: s idmap_lookup_def)
  qed
  obtain q im' where r: "pager_open (Some (pg_file p)) = Inr q" "idmap_load q = Inr im'"
    "idmap_lookup im' 0 = None" "im_i2l im' = map (\<lambda>r. [ie_label_id r]) (im_i2e im)"
    using idmap_reload [OF inv] by auto
  with im have "idmap_get_labels im 0 = Some [7, 9]" "idmap_get_labels im' 0 = Some [7]"
    by (simp_all add: idmap_get_labels_def vec_get_def new_record_def s)
  with im r inv show ?thesis by blast
qed

text \<open>
  C28. The table occupies consecutive pages from its first one, and growing into the next page
  does not ask whether that page is free: creating node 512 writes its record over the first
  16 bytes of whatever page follows the first table page, also when the page belongs to another
  structure (a blob, a segment, an index).
\<close>

theorem create_node_overwrites_foreign_page:
  assumes inv: "pager_inv p" and im: "im_i2e_start im = Some s" "im_i2e_len im = 512"
    and foreign: "pg_pages p (s + 1) = Some b"
    and c: "apply_create_node_multi_label x [l] 512 im p = Inr (im', p')"
  shows "pg_pages p' (s + 1) =
    Some (overwrite 0 (i2e_encode \<lparr>ie_external_id = x, ie_label_id = l, ie_flags = 0\<rparr>) b)"
proof -
  let ?r = "\<lparr>ie_external_id = x, ie_label_id = l, ie_flags = 0\<rparr>"
  have loc: "i2e_location s 512 = (s + 1, 0)" by (simp add: i2e_location_def I2E_RECORDS_PER_PAGE_eq)
  from c im obtain p2 where w: "write_i2e_record s 512 ?r p = Inr p2"
    and p': "p' = set_next_internal_id (u32_saturate 513) (set_i2e_len 513 p2)"
    by (auto simp: apply_create_node_multi_label_def Let_def rbind_Inr_iff idmap_next_internal_id_def
        split: if_splits)
  obtain b' where p2: "pager_inv p2" "pg_pages p2 = (pg_pages p)(s + 1 \<mapsto> overwrite 0 (i2e_encode ?r) b')"
    "\<And>c. pg_pages p (s + 1) = Some c \<Longrightarrow> c = b'"
    using write_i2e_record_at [OF inv w] by (simp add: loc) metis
  have "b' = b" using p2(3) [OF foreign] by simp
  with p2(2) show ?thesis
    unfolding p' setters_pages(3) [OF setters_inv(2) [OF p2(1)]] setters_pages(2) [OF p2(1)] by simp
qed

theorem create_node_overwrites_foreign_page_witness:
  "\<exists>p im b im' p'. pager_inv p \<and> im_i2e_start im = Some 2 \<and> im_i2e_len im = 512 \<and>
     pg_pages p (2 + 1) = Some b \<and> apply_create_node_multi_label 77 [5] 512 im p = Inr (im', p') \<and>
     pg_pages p' (2 + 1) =
       Some (overwrite 0 (i2e_encode \<lparr>ie_external_id = 77, ie_label_id = 5, ie_flags = 0\<rparr>) b)"
proof -
  let ?im = "\<lparr>im_e2i = [], im_i2l = [], im_i2e = [], im_i2e_start = Some 2, im_i2e_len = 512\<rparr>"
  obtain p0 where "pager_inv p0" using pager_create by blast
  moreover have three: "data_page 3" by (simp add: data_page_def)
  ultimately obtain p b where "pager_inv p" "pg_pages p 3 = Some b"
    using ensure_allocated_ok [of p0 3] pager_invD by metis
  then have p: "pager_inv p" "pg_pages p (2 + 1) = Some b" by simp_all
  have "data_page (fst (i2e_location 2 512))"
    using three by (simp add: i2e_location_def I2E_RECORDS_PER_PAGE_eq)
  from write_i2e_record_succeeds [OF p(1) this] obtain p2 where
    "write_i2e_record 2 512 \<lparr>ie_external_id = 77, ie_label_id = 5, ie_flags = 0\<rparr> p = Inr p2" by blast
  then have "\<exists>im' p'. apply_create_node_multi_label 77 [5] 512 ?im p = Inr (im', p')"
    by (simp add: apply_create_node_multi_label_def Let_def idmap_next_internal_id_def u32_saturate_def)
  then obtain im' p' where c: "apply_create_node_multi_label 77 [5] 512 ?im p = Inr (im', p')" by blast
  have im: "im_i2e_start ?im = Some 2" "im_i2e_len ?im = 512" by simp_all
  from create_node_overwrites_foreign_page [OF p(1) im p(2) c] p im c show ?thesis by blast
qed

end
