(* ===== verification/Recovery.thy ===== *)
theory Recovery
  imports Wal Compaction IdMap
begin

text \<open>
  What \<open>GraphEngine::open\<close> in nervusdb-storage/src/engine.rs does with the committed transactions
  of the log: find the last manifest and checkpoint, rebuild the label interner, and turn every
  transaction behind the checkpoint into a run again.
\<close>

section \<open>Definitions\<close>

record recovery_state =
  rs_manifest_epoch :: u64
  rs_manifest_segments :: "segment_pointer list"
  rs_checkpoint_txid :: u64
  rs_max_txid :: u64
  rs_properties_root :: u64
  rs_stats_root :: u64

definition recovery_state_default :: recovery_state where
  "recovery_state_default = \<lparr>rs_manifest_epoch = 0, rs_manifest_segments = [], rs_checkpoint_txid = 0,
     rs_max_txid = 0, rs_properties_root = 0, rs_stats_root = 0\<rparr>"

fun scan_op :: "wal_record \<Rightarrow> recovery_state \<Rightarrow> recovery_state" where
  "scan_op (ManifestSwitch epoch segments properties_root stats_root) state =
    (if rs_manifest_epoch state \<le> epoch
     then state\<lparr>rs_manifest_epoch := epoch, rs_manifest_segments := segments, rs_checkpoint_txid := 0,
            rs_properties_root := properties_root, rs_stats_root := stats_root\<rparr>
     else state)"
| "scan_op (Checkpoint up_to_txid epoch properties_root stats_root) state =
    (if epoch = rs_manifest_epoch state
     then state\<lparr>rs_checkpoint_txid := max (rs_checkpoint_txid state) up_to_txid,
            rs_properties_root := properties_root, rs_stats_root := stats_root\<rparr>
     else state)"
| "scan_op _ state = state"

definition scan_tx :: "committed_tx \<Rightarrow> recovery_state \<Rightarrow> recovery_state" where
  "scan_tx tx state = fold scan_op (ct_ops tx) (state\<lparr>rs_max_txid := max (rs_max_txid state) (ct_txid tx)\<rparr>)"

definition scan_recovery_state :: "committed_tx list \<Rightarrow> recovery_state" where
  "scan_recovery_state committed = fold scan_tx committed recovery_state_default"

text \<open>\<open>format!("__placeholder_{}", n)\<close>\<close>

fun decimal :: "nat \<Rightarrow> bytes" where
  "decimal n = (if n < 10 then [48 + of_nat n] else decimal (n div 10) @ [48 + of_nat (n mod 10)])"

declare decimal.simps [simp del]

definition placeholder :: "u32 \<Rightarrow> rstring" where
  "placeholder n = [95, 95, 112, 108, 97, 99, 101, 104, 111, 108, 100, 101, 114, 95] @ decimal (unat n)"

text \<open>
  The loop ends when the next id has reached the label's; a name that exists already does not
  advance it.
\<close>

partial_function (option) fill_placeholders :: "u32 \<Rightarrow> label_interner \<Rightarrow> label_interner option" where
  "fill_placeholders label_id interner =
    (if li_next_id interner < label_id
     then fill_placeholders label_id (snd (li_get_or_create (placeholder (li_next_id interner)) interner))
     else Some interner)"

fun replay_label_ops :: "wal_record list \<Rightarrow> label_interner \<Rightarrow> label_interner result option" where
  "replay_label_ops [] interner = Some (Inr interner)"
| "replay_label_ops (op # ops) interner =
    (case op of
       CreateLabel name label_id \<Rightarrow>
         (case li_get_id interner name of
            Some i \<Rightarrow> if i \<noteq> label_id then Some (Inl (WalProtocol ''label id mismatch'')) else replay_label_ops ops interner
          | None \<Rightarrow>
              (case fill_placeholders label_id interner of
                 None \<Rightarrow> None
               | Some interner \<Rightarrow> replay_label_ops ops (snd (li_get_or_create name interner))))
     | _ \<Rightarrow> replay_label_ops ops interner)"

definition replay_label_transactions :: "committed_tx list \<Rightarrow> label_interner \<Rightarrow> label_interner result option" where
  "replay_label_transactions committed interner = replay_label_ops (concat (map ct_ops committed)) interner"

text \<open>The node and label operations go to the id map, the others into the buffer.\<close>

fun replay_op :: "wal_record \<Rightarrow> memtable \<times> id_map \<times> pager \<Rightarrow> (memtable \<times> id_map \<times> pager) result" where
  "replay_op (CreateNode external_id label_id internal_id) (m, im, p) =
    (case idmap_lookup im external_id of
       Some existing \<Rightarrow>
         if existing \<noteq> internal_id then Inl (WalProtocol ''external id remapped'') else Inr (m, im, p)
     | None \<Rightarrow> rbind (apply_create_node external_id label_id internal_id im p) (\<lambda>(im, p). Inr (m, im, p)))"
| "replay_op (AddNodeLabel node label_id) (m, im, p) =
     rbind (apply_add_label node label_id im) (\<lambda>im. Inr (m, im, p))"
| "replay_op (RemoveNodeLabel node label_id) (m, im, p) =
     rbind (apply_remove_label node label_id im) (\<lambda>im. Inr (m, im, p))"
| "replay_op op (m, im, p) = Inr (mt_replay op m, im, p)"

fun replay_ops :: "wal_record list \<Rightarrow> memtable \<times> id_map \<times> pager \<Rightarrow> (memtable \<times> id_map \<times> pager) result" where
  "replay_ops [] s = Inr s"
| "replay_ops (op # ops) s = rbind (replay_op op s) (replay_ops ops)"

fun replay_graph_transactions :: "committed_tx list \<Rightarrow> u64 \<Rightarrow> id_map \<Rightarrow> pager \<Rightarrow> l0_run list \<Rightarrow>
    (id_map \<times> pager \<times> l0_run list) result" where
  "replay_graph_transactions [] checkpoint_txid im p out_runs = Inr (im, p, out_runs)"
| "replay_graph_transactions (tx # committed) checkpoint_txid im p out_runs =
    (if ct_txid tx \<le> checkpoint_txid then replay_graph_transactions committed checkpoint_txid im p out_runs
     else rbind (replay_ops (ct_ops tx) (mt_default, im, p)) (\<lambda>(m, im, p).
       let run = freeze_into_run (ct_txid tx) m
       in replay_graph_transactions committed checkpoint_txid im p
            (if run_is_empty run then out_runs else out_runs @ [run])))"

section \<open>Runs\<close>

text \<open>The records of a transaction that do not concern nodes and their labels.\<close>

fun is_graph_op :: "wal_record \<Rightarrow> bool" where
  "is_graph_op (CreateNode _ _ _) = False"
| "is_graph_op (AddNodeLabel _ _) = False"
| "is_graph_op (RemoveNodeLabel _ _) = False"
| "is_graph_op _ = True"

lemma replay_ops_graph:
  "\<forall>r \<in> set ops. is_graph_op r \<Longrightarrow> replay_ops ops (m, im, p) = Inr (fold mt_replay ops m, im, p)"
proof (induction ops arbitrary: m)
  case (Cons r ops)
  then show ?case by (cases r) simp_all
qed simp

lemma replay_graph_runs:
  assumes "\<forall>t \<in> set txs. \<forall>r \<in> set (ct_ops t). is_graph_op r"
  shows "replay_graph_transactions txs ck im p out =
    Inr (im, p, out @ filter (\<lambda>r. \<not> run_is_empty r) (map (\<lambda>t. run_of (ct_txid t) (ct_ops t)) (filter (\<lambda>t. ck < ct_txid t) txs)))"
  using assms
proof (induction txs arbitrary: out)
  case (Cons t txs)
  then show ?case by (auto simp: replay_ops_graph run_of_def buffer_of_def Let_def not_le)
qed simp

text \<open>What a transaction logs when it commits.\<close>

definition logged :: "u64 \<times> wal_record list \<Rightarrow> committed_tx" where
  "logged t = \<lparr>ct_txid = fst t, ct_ops = graph_records (buffer_of (snd t)) (run_of (fst t) (snd t))\<rparr>"

lemma graph_records_graph: "r \<in> set (graph_records m run) \<Longrightarrow> is_graph_op r"
  by (auto simp: graph_records_def)

lemma whole_txs_prefix: "\<exists>k. whole_txs crc n txs = take k txs"
proof (induction txs arbitrary: n)
  case (Cons t txs)
  show ?case
  proof (cases "length (tx_bytes crc t) \<le> n")
    case True
    obtain k where "whole_txs crc (n - length (tx_bytes crc t)) txs = take k txs" using Cons by blast
    with True have "whole_txs crc n (t # txs) = take (Suc k) (t # txs)" by simp
    then show ?thesis ..
  next
    case False
    then have "whole_txs crc n (t # txs) = take 0 (t # txs)" by simp
    then show ?thesis ..
  qed
qed simp

lemma scan_logged: "\<exists>m. scan_recovery_state (map logged h) = recovery_state_default\<lparr>rs_max_txid := m\<rparr>"
proof -
  have ops: "fold scan_op rs s = s" if "\<forall>r \<in> set rs. \<forall>s. scan_op r s = s" for rs s
    using that by (induction rs) auto
  have "scan_op r s = s" if "r \<in> set (graph_records m run)" for r s m run
    using that by (auto simp: graph_records_def)
  then have tx: "scan_tx (logged u) s = s\<lparr>rs_max_txid := max (rs_max_txid s) (fst u)\<rparr>" for u s
    by (simp add: scan_tx_def logged_def ops)
  have "\<exists>m. fold scan_tx (map logged h) s = s\<lparr>rs_max_txid := m\<rparr>" for s
  proof (induction h arbitrary: s)
    case Nil
    then show ?case by (intro exI [of _ "rs_max_txid s"]) simp
  next
    case (Cons u h)
    then obtain m where "fold scan_tx (map logged h) (scan_tx (logged u) s) = (scan_tx (logged u) s)\<lparr>rs_max_txid := m\<rparr>" by blast
    then show ?case by (intro exI [of _ m]) (simp add: tx)
  qed
  then show ?thesis unfolding scan_recovery_state_def .
qed

lemma empty_run_effect:
  assumes "run_is_empty r"
  shows "d_node_props (run_abs r) n k = None" "d_edge_props (run_abs r) e k = None"
  using assms by (simp_all add: run_is_empty_def run_abs_def run_prop_effect_def bset_has_def bt_get_def)

lemma newest_effect_filter:
  "(\<And>r. \<not> P r \<Longrightarrow> eff r = None) \<Longrightarrow> newest_effect eff (filter P runs) = newest_effect eff runs"
  by (induction runs) (auto split: option.split)

lemma newest_effect_map:
  assumes "\<forall>x \<in> set xs. eff (f x) = eff (g x)"
  shows "newest_effect eff (map f xs) = newest_effect eff (map g xs)"
  using assms by (induction xs) (auto split: option.split)

lemma replayed_effect:
  "d_node_props (run_abs (run_of t (graph_records (buffer_of rs) (run_of t rs)))) n k = d_node_props (run_abs (run_of t rs)) n k"
  "d_edge_props (run_abs (run_of t (graph_records (buffer_of rs) (run_of t rs)))) e k = d_edge_props (run_abs (run_of t rs)) e k"
  using replay_delta [OF buffer_ok(1), of rs t] by (simp_all add: run_of_ok buffer_ok flip: run_of_def)

lemma recovered_reads:
  assumes "\<forall>t \<in> set h. 0 < fst t"
  shows "\<exists>runs. replay_graph_transactions (map logged h) (rs_checkpoint_txid (scan_recovery_state (map logged h))) im p [] =
      Inr (im, p, rev runs) \<and>
    (\<forall>n k. node_property_from_runs runs n k = node_property_from_runs (runs_of h) n k) \<and>
    (\<forall>e k. edge_property_from_runs runs e k = edge_property_from_runs (runs_of h) e k)"
proof -
  define again where "again = map (\<lambda>t. run_of (ct_txid (logged t)) (ct_ops (logged t))) h"
  define runs where "runs = filter (\<lambda>r. \<not> run_is_empty r) (rev again)"
  have ck: "rs_checkpoint_txid (scan_recovery_state (map logged h)) = 0"
    using scan_logged [of h] by (auto simp: recovery_state_default_def)
  have new: "filter (\<lambda>t. 0 < ct_txid t) (map logged h) = map logged h"
    using assms by (simp add: filter_id_conv logged_def)
  have "replay_graph_transactions (map logged h) 0 im p [] = Inr (im, p, rev runs)"
    using replay_graph_runs [of "map logged h" 0 im p "[]"] unfolding new runs_def again_def
    by (auto simp: logged_def graph_records_graph rev_filter comp_def)
  moreover have "newest_effect (\<lambda>r. d_node_props (run_abs r) n k) runs = newest_effect (\<lambda>r. d_node_props (run_abs r) n k) (runs_of h)"
    "newest_effect (\<lambda>r. d_edge_props (run_abs r) e k) runs = newest_effect (\<lambda>r. d_edge_props (run_abs r) e k) (runs_of h)" for n e k
    unfolding runs_def again_def runs_of_def rev_map
    by (subst newest_effect_filter, simp add: empty_run_effect,
        rule newest_effect_map, simp add: logged_def case_prod_beta replayed_effect)+
  ultimately show ?thesis unfolding ck by (auto simp: node_property_newest edge_property_newest)
qed


definition no_nodes :: id_map where
  "no_nodes = \<lparr>im_e2i = [], im_i2l = [], im_i2e = [], im_i2e_start = None, im_i2e_len = 0\<rparr>"

lemma one_logged:
  "logged (1, [SetNodeProperty 7 [97] (PInt 3)]) = \<lparr>ct_txid = 1, ct_ops = [SetNodeProperty 7 [97] (PInt 3)]\<rparr>"
  "tx_ok (logged (1, [SetNodeProperty 7 [97] (PInt 3)]))"
  "node_property_from_runs (runs_of [(1, [SetNodeProperty 7 [97] (PInt 3)])]) 7 [97] = Some (PInt 3)"
proof -
  show l: "logged (1, [SetNodeProperty 7 [97] (PInt 3)]) = \<lparr>ct_txid = 1, ct_ops = [SetNodeProperty 7 [97] (PInt 3)]\<rparr>"
    by (simp add: logged_def run_of_def buffer_of_def freeze_into_run_def mt_op_defs mt_default_def graph_records_def set_prop_def
        unmark_removed_def iter_edges_def iter_tombstoned_nodes_def iter_tombstoned_edges_def node_properties_for_wal_def
        removed_node_properties_for_wal_def edge_properties_for_wal_def removed_edge_properties_for_wal_def
        hm_entry_def hm_insert_def hm_get_def bt_collect_def)
  show "tx_ok (logged (1, [SetNodeProperty 7 [97] (PInt 3)]))"
    unfolding l by (simp add: tx_ok_def loggable_def body_of_def encode_body_def encode_key_def key_wf_def try_u32_def
        utf8_len_def utf8_tail_def byte_in_def)
  show "node_property_from_runs (runs_of [(1, [SetNodeProperty 7 [97] (PInt 3)])]) 7 [97] = Some (PInt 3)"
    by (simp add: node_property_newest newest_history delta_empty_def upd2_def)
qed


end
