(* ===== verification/BlobStore.thy ===== *)
theory BlobStore
  imports Pager
begin

text \<open>
  Blob chains, nervusdb-storage/src/blob_store.rs: a byte string of any length spread over a
  linked list of pages. Reading and deleting follow the links of the file, so on a corrupted
  file the loop may run for ever: it is a partial function, \<open>None\<close> when it does not return.
\<close>

section \<open>Definitions\<close>

definition HEADER_SIZE :: nat where "HEADER_SIZE = 8 + 2"

definition MAX_DATA_PER_PAGE :: nat where "MAX_DATA_PER_PAGE = PAGE_SIZE - HEADER_SIZE"

definition blob_page :: "u64 \<Rightarrow> bytes \<Rightarrow> bytes" where
  "blob_page last_pid chunk =
    (let page = replicate 8192 0;
         page = overwrite 0 (to_le last_pid) page;
         chunk_len = (of_nat (length chunk) :: u16);
         page = overwrite 8 (to_le chunk_len) page
     in overwrite 10 chunk page)"

text \<open>\<open>data.chunks(MAX_DATA_PER_PAGE)\<close>\<close>

function blob_chunks :: "bytes \<Rightarrow> bytes list" where
  "blob_chunks [] = []"
| "blob_chunks (b # bs) =
     take MAX_DATA_PER_PAGE (b # bs) # blob_chunks (drop MAX_DATA_PER_PAGE (b # bs))"
  by pat_completeness auto
termination
  by (relation "measure length") (simp_all add: MAX_DATA_PER_PAGE_def HEADER_SIZE_def PAGE_SIZE_def)

text \<open>The write loop over the chunks, last one first.\<close>

fun blob_write_chunks :: "bytes list \<Rightarrow> u64 \<Rightarrow> pager \<Rightarrow> (u64 \<times> pager) result" where
  "blob_write_chunks [] last_pid p = Inr (last_pid, p)"
| "blob_write_chunks (chunk # rest) last_pid p =
     rbind (allocate_page p) (\<lambda>(pid, p).
     rbind (write_page pid (blob_page last_pid chunk) p) (\<lambda>p.
     blob_write_chunks rest pid p))"

definition blob_write_direct :: "bytes \<Rightarrow> pager \<Rightarrow> (u64 \<times> pager) result" where
  "blob_write_direct data p =
    (if data = [] then
       rbind (allocate_page p) (\<lambda>(pid, p).
       rbind (write_page pid (replicate 8192 0) p) (\<lambda>p. Inr (pid, p)))
     else blob_write_chunks (rev (blob_chunks data)) 0 p)"

definition blob_write :: "bytes \<Rightarrow> pager \<Rightarrow> (u64 \<times> pager) result" where
  "blob_write data p = blob_write_direct data p"

partial_function (option) blob_read_loop :: "pager \<Rightarrow> u64 \<Rightarrow> bytes \<Rightarrow> bytes result option" where
  "blob_read_loop p page_id out =
    (if page_id = 0 then Some (Inr out)
     else case read_page p page_id of
       Inl e \<Rightarrow> Some (Inl e)
     | Inr page \<Rightarrow>
         let next_page_id = from_le (subslice 0 8 page);
             data_len = unat (from_le (subslice 8 2 page) :: u16)
         in if MAX_DATA_PER_PAGE < data_len
            then Some (Inl (StorageCorrupted ''invalid blob page data length''))
            else blob_read_loop p next_page_id (out @ subslice 10 data_len page))"

definition blob_read_direct :: "pager \<Rightarrow> u64 \<Rightarrow> bytes result option" where
  "blob_read_direct p page_id = blob_read_loop p page_id []"

definition blob_read :: "pager \<Rightarrow> u64 \<Rightarrow> bytes result option" where
  "blob_read p page_id = blob_read_direct p page_id"

partial_function (option) blob_delete :: "u64 \<Rightarrow> pager \<Rightarrow> pager result option" where
  "blob_delete page_id p =
    (if page_id = 0 then Some (Inr p)
     else case read_page p page_id of
       Inl e \<Rightarrow> Some (Inl e)
     | Inr page \<Rightarrow>
         let next_page_id = from_le (subslice 0 8 page)
         in case free_page page_id p of
              Inl e \<Rightarrow> Some (Inl e)
            | Inr p \<Rightarrow> blob_delete next_page_id p)"

section \<open>Pages of a chain\<close>

lemmas blob_sizes = MAX_DATA_PER_PAGE_def HEADER_SIZE_def PAGE_SIZE_def

lemma blob_page_bytes:
  assumes "length c \<le> MAX_DATA_PER_PAGE"
  shows "blob_page n c =
    to_le n @ to_le (of_nat (length c) :: u16) @ c @ replicate (MAX_DATA_PER_PAGE - length c) 0"
proof -
  have "overwrite 0 (to_le n) (replicate 8192 0) = to_le n @ replicate 8184 (0 :: u8)"
    using overwrite_pad [of "[]" 0 "to_le n" 8192 0] by simp
  then show ?thesis
    using assms unfolding blob_page_def Let_def
    by (simp add: overwrite_pad blob_sizes del: replicate.simps append_assoc)
qed

lemma blob_page_simps:
  assumes "length c \<le> MAX_DATA_PER_PAGE"
  shows "length (blob_page n c) = PAGE_SIZE"
    "from_le (subslice 0 8 (blob_page n c)) = n"
    "unat (from_le (subslice 8 2 (blob_page n c)) :: u16) = length c"
    "subslice 10 (length c) (blob_page n c) = c"
proof -
  have "length c < 2 ^ LENGTH(16)" using assms by (simp add: blob_sizes)
  then have "unat (of_nat (length c) :: u16) = length c" by (rule unat_word_of_nat_less)
  with assms show "length (blob_page n c) = PAGE_SIZE"
    "from_le (subslice 0 8 (blob_page n c)) = n"
    "unat (from_le (subslice 8 2 (blob_page n c)) :: u16) = length c"
    "subslice 10 (length c) (blob_page n c) = c"
    by (simp_all add: blob_page_bytes subslice_append_right, simp_all add: blob_sizes)
qed

lemma zero_blob_page: "replicate 8192 0 = blob_page 0 []"
proof -
  have "le_bytes n 0 = replicate n 0" for n by (induction n) simp_all
  then show ?thesis by (simp add: blob_page_bytes to_le_def blob_sizes flip: replicate_add)
qed

lemma concat_blob_chunks: "concat (blob_chunks data) = data"
  by (induction data rule: blob_chunks.induct) simp_all

lemma blob_chunks_le: "c \<in> set (blob_chunks data) \<Longrightarrow> length c \<le> MAX_DATA_PER_PAGE"
  by (induction data rule: blob_chunks.induct) auto

text \<open>A chain: its pages in reading order, and the part of the page map they make up.\<close>

fun chain_next :: "(u64 \<times> bytes) list \<Rightarrow> u64" where
  "chain_next [] = 0"
| "chain_next ((i, _) # _) = i"

fun chain_pages :: "(u64 \<times> bytes) list \<Rightarrow> (u64 \<times> bytes) list" where
  "chain_pages [] = []"
| "chain_pages ((i, c) # l) = (i, blob_page (chain_next l) c) # chain_pages l"

definition chain_map :: "(u64 \<times> bytes) list \<Rightarrow> u64 \<Rightarrow> bytes option" where
  "chain_map l = map_of (chain_pages l)"

lemma chain_map_simps [simp]:
  "chain_map [] = Map.empty"
  "chain_map ((i, c) # l) = (chain_map l)(i \<mapsto> blob_page (chain_next l) c)"
  by (simp_all add: chain_map_def)

definition chain_wf :: "(u64 \<times> bytes) list \<Rightarrow> bool" where
  "chain_wf l \<longleftrightarrow> distinct (map fst l) \<and> 0 \<notin> fst ` set l \<and> (\<forall>(i, c) \<in> set l. length c \<le> MAX_DATA_PER_PAGE)"

lemma map_fst_chain_pages: "map fst (chain_pages l) = map fst l"
  by (induction l rule: chain_pages.induct) simp_all

lemma dom_chain_map: "dom (chain_map l) = fst ` set l"
  by (metis chain_map_def dom_map_of_conv_image_fst map_fst_chain_pages set_map)

lemma chain_wf_Cons:
  "chain_wf ((i, c) # l) \<longleftrightarrow>
     i \<notin> fst ` set l \<and> i \<noteq> 0 \<and> length c \<le> MAX_DATA_PER_PAGE \<and> chain_wf l"
  by (auto simp: chain_wf_def)

lemma map_le_upd_iff: "i \<notin> dom m \<Longrightarrow> m(i \<mapsto> x) \<subseteq>\<^sub>m n \<longleftrightarrow> n i = Some x \<and> m \<subseteq>\<^sub>m n"
  unfolding map_le_def by (force split: if_splits)

lemma read_loop_chain:
  assumes inv: "pager_inv p"
  shows "chain_wf l \<Longrightarrow> chain_map l \<subseteq>\<^sub>m pg_pages p \<Longrightarrow>
    blob_read_loop p (chain_next l) out = Some (Inr (out @ concat (map snd l)))"
proof (induction l arbitrary: out rule: chain_pages.induct)
  case 1
  then show ?case by (simp add: blob_read_loop.simps)
next
  case (2 i c l)
  then have c: "i \<notin> fst ` set l" "i \<noteq> 0" "length c \<le> MAX_DATA_PER_PAGE" "chain_wf l"
    by (simp_all add: chain_wf_Cons)
  have "i \<notin> dom (chain_map l)" using c(1) by (simp only: dom_chain_map not_False_eq_True)
  from map_le_upd_iff [OF this] 2(3)
  have pg: "pg_pages p i = Some (blob_page (chain_next l) c)" and le: "chain_map l \<subseteq>\<^sub>m pg_pages p"
    by (simp_all only: chain_map_simps)
  note IH = 2(1) [OF c(4) le]
  have rd: "read_page p i = Inr (blob_page (chain_next l) c)" by (rule pgs.read_law [OF inv pg])
  have "blob_read_loop p i out = blob_read_loop p (chain_next l) (out @ c)"
    using c(2,3) blob_page_simps [OF c(3), of "chain_next l"]
    by (subst blob_read_loop.simps) (simp add: Let_def rd)
  then show ?case by (simp add: IH)
qed

lemma write_chunks_chain:
  assumes "pager_inv p" "chain_wf l" "\<forall>c \<in> set cs. length c \<le> MAX_DATA_PER_PAGE"
    and "pg_pages p = m ++ chain_map l" "dom m \<inter> fst ` set l = {}"
    and "blob_write_chunks cs (chain_next l) p = Inr (pid, p')"
  shows "\<exists>k. pager_inv p' \<and> chain_wf (k @ l) \<and> map snd k = rev cs \<and> pid = chain_next (k @ l) \<and>
    pg_pages p' = m ++ chain_map (k @ l) \<and> dom m \<inter> fst ` set (k @ l) = {}"
  using assms
proof (induction cs arbitrary: l p)
  case Nil
  then show ?case by auto
next
  case (Cons c cs)
  from Cons.prems(6) obtain i p1 p2 where a: "allocate_page p = Inr (i, p1)"
    and w: "write_page i (blob_page (chain_next l) c) p1 = Inr p2"
    and r: "blob_write_chunks cs i p2 = Inr (pid, p')"
    by (auto simp: rbind_Inr_iff)
  have c: "length c \<le> MAX_DATA_PER_PAGE" using Cons.prems(3) by simp
  obtain p2' where p2': "write_page i (blob_page (chain_next l) c) p1 = Inr p2'" "pager_inv p2'"
    "pg_pages p2' = (pg_pages p)(i \<mapsto> blob_page (chain_next l) c)" "pg_pages p i = None" "i \<noteq> 0"
    using pgs.alloc_write [OF Cons.prems(1) a blob_page_simps(1) [OF c]] by blast
  then have "i \<notin> dom m" "i \<notin> fst ` set l"
    using Cons.prems(4) dom_chain_map [of l] by (auto simp: map_add_None)
  then have wf: "chain_wf ((i, c) # l)" and dj: "dom m \<inter> fst ` set ((i, c) # l) = {}"
    using Cons.prems(2,5) c p2'(5) by (auto simp: chain_wf_Cons)
  have p2: "pager_inv p2" "pg_pages p2 = m ++ chain_map ((i, c) # l)"
    using p2' w Cons.prems(4) by simp_all
  have r': "blob_write_chunks cs (chain_next ((i, c) # l)) p2 = Inr (pid, p')" using r by simp
  have cs: "\<forall>c \<in> set cs. length c \<le> MAX_DATA_PER_PAGE" using Cons.prems(3) by simp
  obtain k where "pager_inv p'" "chain_wf (k @ (i, c) # l)" "map snd k = rev cs"
    "pid = chain_next (k @ (i, c) # l)" "pg_pages p' = m ++ chain_map (k @ (i, c) # l)"
    "dom m \<inter> fst ` set (k @ (i, c) # l) = {}"
    using Cons.IH [OF p2(1) wf cs p2(2) dj r'] by blast
  then show ?case by (intro exI [of _ "k @ [(i, c)]"]) simp
qed

lemma blob_write_chain:
  assumes inv: "pager_inv p" and w: "blob_write data p = Inr (pid, p')"
  obtains l where "pager_inv p'" "chain_wf l" "concat (map snd l) = data" "pid = chain_next l"
    "pg_pages p' = pg_pages p ++ chain_map l" "dom (pg_pages p) \<inter> fst ` set l = {}" "l \<noteq> []"
proof (cases "data = []")
  case True
  with w obtain p1 where a: "allocate_page p = Inr (pid, p1)"
    and wr: "write_page pid (blob_page 0 []) p1 = Inr p'"
    by (auto simp: blob_write_def blob_write_direct_def rbind_Inr_iff simp flip: zero_blob_page)
  have "length (blob_page 0 []) = PAGE_SIZE" by (rule blob_page_simps) simp
  then obtain p2 where "write_page pid (blob_page 0 []) p1 = Inr p2" "pager_inv p2"
    "pg_pages p2 = (pg_pages p)(pid \<mapsto> blob_page 0 [])" "pg_pages p pid = None" "pid \<noteq> 0"
    using pgs.alloc_write [OF inv a] by blast
  with wr True that [of "[(pid, [])]"] show thesis by (auto simp: chain_wf_def)
next
  case False
  have w': "blob_write_chunks (rev (blob_chunks data)) (chain_next []) p = Inr (pid, p')"
    using w False by (simp add: blob_write_def blob_write_direct_def)
  obtain k where k: "pager_inv p'" "chain_wf (k @ [])" "map snd k = rev (rev (blob_chunks data))"
    "pid = chain_next (k @ [])" "pg_pages p' = pg_pages p ++ chain_map (k @ [])"
    "dom (pg_pages p) \<inter> fst ` set (k @ []) = {}"
    using write_chunks_chain [OF inv _ _ _ _ w'] blob_chunks_le by (auto simp: chain_wf_def)
  moreover have "k \<noteq> []" using k(3) False by (cases data) auto
  ultimately show thesis using that [of k] by (simp add: concat_blob_chunks)
qed

lemma delete_chain:
  assumes "pager_inv p" "chain_wf l" "pg_pages p = m ++ chain_map l" "dom m \<inter> fst ` set l = {}"
  shows "\<exists>p'. blob_delete (chain_next l) p = Some (Inr p') \<and> pager_inv p' \<and> pg_pages p' = m"
  using assms
proof (induction l arbitrary: p rule: chain_pages.induct)
  case 1
  then show ?case by (simp add: blob_delete.simps)
next
  case (2 i c l)
  then have c: "i \<notin> fst ` set l" "i \<noteq> 0" "length c \<le> MAX_DATA_PER_PAGE" "chain_wf l"
    by (simp_all add: chain_wf_Cons)
  have pg: "pg_pages p i = Some (blob_page (chain_next l) c)" using 2(4) by simp
  obtain p1 where p1: "free_page i p = Inr p1" "pager_inv p1" "pg_pages p1 = (pg_pages p)(i := None)"
    using pgs.free_law [OF 2(2) pg] by blast
  have "i \<notin> dom m" "i \<notin> dom (chain_map l)"
    using 2(5) c(1) by (auto simp only: dom_chain_map list.set image_insert fst_conv)
  then have pages: "pg_pages p1 = m ++ chain_map l"
    unfolding p1(3) 2(4) by (auto simp: fun_eq_iff map_add_def domIff split: option.splits)
  have "dom m \<inter> fst ` set l = {}" using 2(5) by auto
  note IH = 2(1) [OF p1(2) c(4) pages this]
  have "read_page p i = Inr (blob_page (chain_next l) c)" by (rule pgs.read_law [OF 2(2) pg])
  then have "blob_delete i p = blob_delete (chain_next l) p1"
    using c(2) blob_page_simps(2) [OF c(3), of "chain_next l"]
    by (subst blob_delete.simps) (simp add: Let_def p1(1))
  then show ?case by (simp add: IH)
qed

lemma blob_write_small:
  assumes inv: "pager_inv p" and j: "data_page j" "pg_pages p j = None"
    and d: "data \<noteq> []" "length data \<le> MAX_DATA_PER_PAGE"
  obtains pid p' where "blob_write data p = Inr (pid, p')"
proof -
  obtain i p1 where a: "allocate_page p = Inr (i, p1)" using allocate_page_succeeds [OF inv j] .
  obtain p2 where "write_page i (blob_page 0 data) p1 = Inr p2"
    using pgs.alloc_write [OF inv a blob_page_simps(1) [OF d(2)]] by blast
  moreover have "blob_chunks data = [data]" using d by (cases data) simp_all
  ultimately show thesis using that d(1) a by (simp add: blob_write_def blob_write_direct_def)
qed

section \<open>Properties\<close>

text \<open>
  C11. A blob reads back as the bytes that were written, of any length, the read loop
  terminating; no page that was in use before changes, and the blob stays readable whatever is
  done later to other pages.
\<close>

theorem blob_roundtrip:
  assumes inv: "pager_inv p" and w: "blob_write data p = Inr (pid, p')"
  shows "pager_inv p' \<and> pid \<noteq> 0 \<and> pg_pages p \<subseteq>\<^sub>m pg_pages p' \<and> blob_read p' pid = Some (Inr data) \<and>
    (\<forall>q. pager_inv q \<and> (\<forall>i. pg_pages p i = None \<and> pg_pages p' i \<noteq> None \<longrightarrow> pg_pages q i = pg_pages p' i)
       \<longrightarrow> blob_read q pid = Some (Inr data))"
proof -
  obtain l where l: "pager_inv p'" "chain_wf l" "concat (map snd l) = data" "pid = chain_next l"
    "pg_pages p' = pg_pages p ++ chain_map l" "dom (pg_pages p) \<inter> fst ` set l = {}" "l \<noteq> []"
    using blob_write_chain [OF inv w] by blast
  have "pid \<noteq> 0" using l(2,4,7) by (cases l) (auto simp: chain_wf_def)
  moreover have "pg_pages p \<subseteq>\<^sub>m pg_pages p'"
    unfolding l(5) using l(6) by (auto intro!: map_le_map_add simp: map_add_comm dom_chain_map)
  moreover have q: "blob_read q pid = Some (Inr data)"
    if "pager_inv q" "chain_map l \<subseteq>\<^sub>m pg_pages q" for q
    using read_loop_chain [OF that(1) l(2) that(2)] l(3,4)
    by (simp add: blob_read_def blob_read_direct_def)
  moreover have "chain_map l \<subseteq>\<^sub>m pg_pages p'" unfolding l(5) by simp
  moreover have "chain_map l \<subseteq>\<^sub>m pg_pages q"
    if "\<forall>i. pg_pages p i = None \<and> pg_pages p' i \<noteq> None \<longrightarrow> pg_pages q i = pg_pages p' i" for q
  proof (unfold map_le_def, intro ballI)
    fix i assume "i \<in> dom (chain_map l)"
    then obtain b where b: "chain_map l i = Some b" by blast
    then have "pg_pages p' i = Some b" by (simp add: l(5))
    moreover have "pg_pages p i = None" using l(6) \<open>i \<in> dom (chain_map l)\<close> dom_chain_map [of l] by blast
    ultimately show "chain_map l i = pg_pages q i" using that b by simp
  qed
  ultimately show ?thesis using l(1) by blast
qed

theorem blob_roundtrip_witness:
  "\<exists>p pid p'. pager_inv p \<and> blob_write [1, 2, 3] p = Inr (pid, p') \<and>
     blob_read p' pid = Some (Inr [1, 2, 3])"
proof -
  obtain p where p: "pager_inv p" "pg_pages p = (\<lambda>_. None)" using pager_create by blast
  obtain pid p' where w: "blob_write [1, 2, 3] p = Inr (pid, p')"
    by (rule blob_write_small [OF p(1), of 2 "[1, 2, 3]"])
      (simp_all add: p(2) data_page_def blob_sizes)
  with blob_roundtrip [OF p(1) w] p(1) show ?thesis by blast
qed

text \<open>
  C25. Deleting a blob that was just written terminates and gives the pages back: the page map
  is exactly the one before the write.
\<close>

theorem blob_delete_restores:
  assumes inv: "pager_inv p" and w: "blob_write data p = Inr (pid, p')"
  shows "\<exists>p''. blob_delete pid p' = Some (Inr p'') \<and> pager_inv p'' \<and> pg_pages p'' = pg_pages p"
proof (rule blob_write_chain [OF inv w])
  fix l assume "pager_inv p'" "chain_wf l" "pid = chain_next l"
    "pg_pages p' = pg_pages p ++ chain_map l" "dom (pg_pages p) \<inter> fst ` set l = {}"
  then show ?thesis using delete_chain by simp
qed

theorem blob_delete_restores_witness:
  "\<exists>p pid p' p''. pager_inv p \<and> blob_write [9] p = Inr (pid, p') \<and> pg_pages p' \<noteq> pg_pages p \<and>
     blob_delete pid p' = Some (Inr p'') \<and> pg_pages p'' = pg_pages p"
proof -
  obtain p where p: "pager_inv p" "pg_pages p = (\<lambda>_. None)" using pager_create by blast
  obtain pid p' where w: "blob_write [9] p = Inr (pid, p')"
    by (rule blob_write_small [OF p(1), of 2 "[9]"]) (simp_all add: p(2) data_page_def blob_sizes)
  obtain l where l: "pg_pages p' = pg_pages p ++ chain_map l" "l \<noteq> []"
    using blob_write_chain [OF p(1) w] by blast
  have "dom (pg_pages p') \<noteq> {}" using l(2) by (simp add: l(1) p(2) dom_chain_map)
  then have "pg_pages p' \<noteq> pg_pages p" by (auto simp: p(2))
  with blob_delete_restores [OF p(1) w] p(1) w show ?thesis by blast
qed

end
