(* ===== verification/BTreePage.thy ===== *)
theory BTreePage
  imports Pager
begin

unbundle bit_operations_syntax

text \<open>
  The slotted pages of the B-tree, \<open>struct Page\<close> of nervusdb-storage/src/index/btree.rs: a
  header, an array of 16-bit slots that grows upwards and the cells that grow downwards from
  the end of the page. A page is its 8192 bytes; reads at the fixed offsets of the header cannot
  fail, every computed offset is checked as Rust checks it. The relations \<open>leaf_page\<close> and
  \<open>internal_page\<close> say which entries a page holds, and each operation is shown to act on them as
  the corresponding operation on lists.
\<close>

section \<open>Definitions\<close>

definition BT_MAGIC :: bytes where "BT_MAGIC = [0x4E, 0x44, 0x42, 0x49]"

definition BT_VERSION :: u8 where "BT_VERSION = 1"

datatype page_kind = Leaf | Internal

definition COMMON_HEADER_SIZE :: nat where "COMMON_HEADER_SIZE = 24"
definition INTERNAL_HEADER_SIZE :: nat where "INTERNAL_HEADER_SIZE = 32"

definition OFF_MAGIC :: nat where "OFF_MAGIC = 0"
definition OFF_KIND :: nat where "OFF_KIND = 4"
definition OFF_VERSION :: nat where "OFF_VERSION = 5"
definition OFF_CELL_COUNT :: nat where "OFF_CELL_COUNT = 6"
definition OFF_CELL_CONTENT_BEGIN :: nat where "OFF_CELL_CONTENT_BEGIN = 8"
definition OFF_FREE_BYTES :: nat where "OFF_FREE_BYTES = 10"
definition OFF_RESERVED :: nat where "OFF_RESERVED = 12"
definition OFF_RIGHT_SIBLING :: nat where "OFF_RIGHT_SIBLING = 16"
definition OFF_LEFTMOST_CHILD :: nat where "OFF_LEFTMOST_CHILD = 24"

fun header_size :: "page_kind \<Rightarrow> nat" where
  "header_size Leaf = COMMON_HEADER_SIZE"
| "header_size Internal = INTERNAL_HEADER_SIZE"

definition read_u16_le :: "bytes \<Rightarrow> nat \<Rightarrow> u16 result" where
  "read_u16_le buf off = rbind (subslice_checked off 2 buf) (\<lambda>s. Inr (from_le s))"

text \<open>\<open>buf[off..off + src.len()].copy_from_slice(src)\<close>, which panics when the range does not fit.\<close>

definition put_at :: "nat \<Rightarrow> bytes \<Rightarrow> bytes \<Rightarrow> bytes result" where
  "put_at off src buf =
     (if off + length src \<le> length buf then Inr (overwrite off src buf)
      else Inl (Panic ''slice index out of range''))"

definition read_u64_le :: "bytes \<Rightarrow> nat \<Rightarrow> u64 result" where
  "read_u64_le buf off = rbind (subslice_checked off 8 buf) (\<lambda>s. Inr (from_le s))"

subsection \<open>Variable-length integers\<close>

function varint_u32_len :: "u32 \<Rightarrow> nat" where
  "varint_u32_len v = (if 0x80 \<le> v then Suc (varint_u32_len (drop_bit 7 v)) else 1)"
  by pat_completeness auto
termination
  by (relation "measure unat") (auto simp: drop_bit_eq_div unat_div word_le_nat_alt)

text \<open>The bytes that \<open>write_varint_u32\<close> stores at the start of \<open>out\<close>; it returns their number.\<close>

function write_varint_u32 :: "u32 \<Rightarrow> bytes" where
  "write_varint_u32 v =
     (if 0x80 \<le> v then (ucast v OR 0x80) # write_varint_u32 (drop_bit 7 v) else [ucast v])"
  by pat_completeness auto
termination
  by (relation "measure unat") (auto simp: drop_bit_eq_div unat_div word_le_nat_alt)

declare varint_u32_len.simps [simp del] write_varint_u32.simps [simp del]

fun read_varint_loop :: "nat \<Rightarrow> nat \<Rightarrow> u32 \<Rightarrow> bytes \<Rightarrow> (u32 \<times> nat) option" where
  "read_varint_loop i shift v [] = None"
| "read_varint_loop i shift v (b # bs) =
    (let chunk = (ucast (b AND 0x7F) :: u32)
     in if 32 \<le> shift then None
        else let v = v OR push_bit shift chunk
        in if b AND 0x80 = 0 then Some (v, i + 1)
        else let shift = shift + 7
        in if 28 < shift then None else read_varint_loop (i + 1) shift v bs)"

definition read_varint_u32 :: "bytes \<Rightarrow> (u32 \<times> nat) option" where
  "read_varint_u32 buf = read_varint_loop 0 0 0 buf"

subsection \<open>The header\<close>

definition kind_of :: "bytes \<Rightarrow> page_kind result" where
  "kind_of buf =
    (if subslice OFF_MAGIC 4 buf \<noteq> BT_MAGIC then Inl (WalProtocol ''index page: bad magic'')
     else if buf ! OFF_VERSION \<noteq> BT_VERSION then Inl (WalProtocol ''index page: bad version'')
     else if buf ! OFF_KIND = 0 then Inr Leaf
     else if buf ! OFF_KIND = 1 then Inr Internal
     else Inl (WalProtocol ''index page: bad kind''))"

definition init_leaf :: bytes where
  "init_leaf =
    (let buf = replicate PAGE_SIZE 0;
         buf = overwrite OFF_MAGIC BT_MAGIC buf;
         buf = overwrite OFF_KIND [0] buf;
         buf = overwrite OFF_VERSION [BT_VERSION] buf;
         buf = overwrite OFF_CELL_COUNT (to_le (0 :: u16)) buf;
         buf = overwrite OFF_CELL_CONTENT_BEGIN (to_le (of_nat PAGE_SIZE :: u16)) buf;
         buf = overwrite OFF_FREE_BYTES (to_le (0 :: u16)) buf;
         buf = overwrite OFF_RESERVED (to_le (0 :: u32)) buf;
         buf = overwrite OFF_RIGHT_SIBLING (to_le (0 :: u64)) buf
     in buf)"

definition init_internal :: "u64 \<Rightarrow> bytes" where
  "init_internal leftmost =
    (let buf = replicate PAGE_SIZE 0;
         buf = overwrite OFF_MAGIC BT_MAGIC buf;
         buf = overwrite OFF_KIND [1] buf;
         buf = overwrite OFF_VERSION [BT_VERSION] buf;
         buf = overwrite OFF_CELL_COUNT (to_le (0 :: u16)) buf;
         buf = overwrite OFF_CELL_CONTENT_BEGIN (to_le (of_nat PAGE_SIZE :: u16)) buf;
         buf = overwrite OFF_FREE_BYTES (to_le (0 :: u16)) buf;
         buf = overwrite OFF_RESERVED (to_le (0 :: u32)) buf;
         buf = overwrite OFF_RIGHT_SIBLING (to_le (0 :: u64)) buf;
         buf = overwrite OFF_LEFTMOST_CHILD (to_le leftmost) buf
     in buf)"

definition cell_count :: "bytes \<Rightarrow> nat" where
  "cell_count buf = unat (from_le (subslice OFF_CELL_COUNT 2 buf) :: u16)"

definition cell_content_begin :: "bytes \<Rightarrow> nat" where
  "cell_content_begin buf = unat (from_le (subslice OFF_CELL_CONTENT_BEGIN 2 buf) :: u16)"

definition set_cell_content_begin :: "nat \<Rightarrow> bytes \<Rightarrow> bytes" where
  "set_cell_content_begin v buf = overwrite OFF_CELL_CONTENT_BEGIN (to_le (of_nat v :: u16)) buf"

definition right_sibling :: "bytes \<Rightarrow> u64" where
  "right_sibling buf = from_le (subslice OFF_RIGHT_SIBLING 8 buf)"

definition set_right_sibling :: "u64 \<Rightarrow> bytes \<Rightarrow> bytes" where
  "set_right_sibling i buf = overwrite OFF_RIGHT_SIBLING (to_le i) buf"

definition leftmost_child :: "bytes \<Rightarrow> u64 result" where
  "leftmost_child buf =
    rbind (kind_of buf) (\<lambda>k.
    if k \<noteq> Internal then Inl (WalProtocol ''index page: not internal'')
    else Inr (from_le (subslice OFF_LEFTMOST_CHILD 8 buf)))"

definition set_cell_count :: "nat \<Rightarrow> bytes \<Rightarrow> bytes" where
  "set_cell_count n buf = overwrite OFF_CELL_COUNT (to_le (of_nat n :: u16)) buf"

subsection \<open>Slots\<close>

definition slots_off :: "bytes \<Rightarrow> nat result" where
  "slots_off buf = rbind (kind_of buf) (\<lambda>k. Inr (header_size k))"

definition slot_get :: "bytes \<Rightarrow> nat \<Rightarrow> nat result" where
  "slot_get buf i =
    rbind (slots_off buf) (\<lambda>slots.
    rbind (read_u16_le buf (slots + i * 2)) (\<lambda>v. Inr (unat v)))"

definition slot_set :: "nat \<Rightarrow> nat \<Rightarrow> bytes \<Rightarrow> bytes result" where
  "slot_set i v buf =
    rbind (slots_off buf) (\<lambda>slots. put_at (slots + i * 2) (to_le (of_nat v :: u16)) buf)"

definition free_space :: "bytes \<Rightarrow> nat result" where
  "free_space buf =
    rbind (slots_off buf) (\<lambda>slots.
    Inr (cell_content_begin buf - (slots + cell_count buf * 2)))"

text \<open>\<open>buf.copy_within(src..src + len, dst)\<close>\<close>

definition copy_within :: "nat \<Rightarrow> nat \<Rightarrow> nat \<Rightarrow> bytes \<Rightarrow> bytes result" where
  "copy_within src len dst buf = rbind (subslice_checked src len buf) (\<lambda>s. put_at dst s buf)"

definition shift_slots_right :: "nat \<Rightarrow> bytes \<Rightarrow> bytes result" where
  "shift_slots_right idx buf =
    (let cnt = cell_count buf
     in if cnt < idx then Inl (WalProtocol ''index page: slot idx out of bounds'')
        else if idx = cnt then Inr buf
        else rbind (slots_off buf) (\<lambda>slots.
          let src = slots + idx * 2; len = (cnt - idx) * 2
          in copy_within src len (src + 2) buf))"

definition shift_slots_left :: "nat \<Rightarrow> bytes \<Rightarrow> bytes result" where
  "shift_slots_left idx buf =
    (let cnt = cell_count buf
     in if cnt \<le> idx then Inl (WalProtocol ''index page: slot idx out of bounds'')
        else rbind (slots_off buf) (\<lambda>slots.
          let dst = slots + idx * 2; src = dst + 2; len = (cnt - idx - 1) * 2
          in if 0 < len then copy_within src len dst buf else Inr buf))"

subsection \<open>Cells\<close>

definition leaf_cell_key_and_payload :: "bytes \<Rightarrow> nat \<Rightarrow> (bytes \<times> u64) result" where
  "leaf_cell_key_and_payload buf idx =
    rbind (kind_of buf) (\<lambda>k.
    if k \<noteq> Leaf then Inl (WalProtocol ''index page: not leaf'')
    else if cell_count buf \<le> idx then Inl (WalProtocol ''index page: cell idx out of bounds'')
    else rbind (slot_get buf idx) (\<lambda>cell_off.
      if length buf < cell_off then Inl (Panic ''slice index out of range'')
      else rbind (ok_or (WalProtocol ''bad varint'') (read_varint_u32 (drop cell_off buf)))
        (\<lambda>(key_len, var_len).
          let key_len = unat key_len;
              key_start = cell_off + var_len;
              key_end = key_start + key_len
          in if PAGE_SIZE < key_end + 8 then Inl (WalProtocol ''index page: cell out of range'')
             else rbind (read_u64_le buf key_end) (\<lambda>payload.
               Inr (subslice key_start key_len buf, payload)))))"

definition internal_cell_key_and_right_child :: "bytes \<Rightarrow> nat \<Rightarrow> (bytes \<times> u64) result" where
  "internal_cell_key_and_right_child buf idx =
    rbind (kind_of buf) (\<lambda>k.
    if k \<noteq> Internal then Inl (WalProtocol ''index page: not internal'')
    else if cell_count buf \<le> idx then Inl (WalProtocol ''index page: cell idx out of bounds'')
    else rbind (slot_get buf idx) (\<lambda>cell_off.
      if PAGE_SIZE \<le> cell_off + 8 then Inl (WalProtocol ''index page: cell out of range'')
      else rbind (read_u64_le buf cell_off) (\<lambda>right_child.
        rbind (ok_or (WalProtocol ''bad varint'') (read_varint_u32 (drop (cell_off + 8) buf)))
          (\<lambda>(key_len, var_len).
            let key_len = unat key_len;
                key_start = cell_off + 8 + var_len;
                key_end = key_start + key_len
            in if PAGE_SIZE < key_end then Inl (WalProtocol ''index page: cell out of range'')
               else Inr (subslice key_start key_len buf, right_child)))))"

subsection \<open>Searching a page\<close>

function lower_bound_loop :: "bytes \<Rightarrow> bytes \<Rightarrow> nat \<Rightarrow> nat \<Rightarrow> nat result" where
  "lower_bound_loop buf target lo hi =
    (if lo < hi then
       let mid = (lo + hi) div 2
       in rbind (leaf_cell_key_and_payload buf mid) (\<lambda>(k, _).
          if k < target then lower_bound_loop buf target (mid + 1) hi
          else lower_bound_loop buf target lo mid)
     else Inr lo)"
  by pat_completeness auto
termination
  by (relation "measure (\<lambda>(buf, target, lo, hi). hi - lo)") auto

definition leaf_lower_bound :: "bytes \<Rightarrow> bytes \<Rightarrow> nat result" where
  "leaf_lower_bound buf target = lower_bound_loop buf target 0 (cell_count buf)"

function upper_bound_loop :: "bytes \<Rightarrow> bytes \<Rightarrow> nat \<Rightarrow> nat \<Rightarrow> nat result" where
  "upper_bound_loop buf target lo hi =
    (if lo < hi then
       let mid = (lo + hi) div 2
       in rbind (internal_cell_key_and_right_child buf mid) (\<lambda>(k, _).
          if k \<le> target then upper_bound_loop buf target (mid + 1) hi
          else upper_bound_loop buf target lo mid)
     else Inr lo)"
  by pat_completeness auto
termination
  by (relation "measure (\<lambda>(buf, target, lo, hi). hi - lo)") auto

declare lower_bound_loop.simps [simp del] upper_bound_loop.simps [simp del]

definition internal_child_for_key :: "bytes \<Rightarrow> bytes \<Rightarrow> (u64 \<times> nat) result" where
  "internal_child_for_key buf target =
    rbind (kind_of buf) (\<lambda>k.
    if k \<noteq> Internal then Inl (WalProtocol ''index page: not internal'')
    else rbind (upper_bound_loop buf target 0 (cell_count buf)) (\<lambda>child_pos.
      if child_pos = 0 then rbind (leftmost_child buf) (\<lambda>c. Inr (c, 0))
      else rbind (internal_cell_key_and_right_child buf (child_pos - 1)) (\<lambda>(_, child).
        Inr (child, child_pos))))"

subsection \<open>Changing a page\<close>

text \<open>
  The insertions fail before they have written anything, so the page after an \<open>Err\<close> is the page
  before it.
\<close>

definition leaf_insert_at :: "nat \<Rightarrow> bytes \<Rightarrow> u64 \<Rightarrow> bytes \<Rightarrow> bytes result" where
  "leaf_insert_at idx key payload buf =
    rbind (kind_of buf) (\<lambda>k.
    if k \<noteq> Leaf then Inl (WalProtocol ''index page: not leaf'')
    else if 2 ^ 32 \<le> length key then Inl (WalProtocol ''key too large'')
    else
      let key_len = (of_nat (length key) :: u32);
          var_len = varint_u32_len key_len;
          cell_len = var_len + length key + 8
      in rbind (free_space buf) (\<lambda>free.
      if free < cell_len + 2 then Inl (WalProtocol ''index page: no space'')
      else
        let cnt = cell_count buf
        in if cnt < idx then Inl (WalProtocol ''index page: insert idx out of bounds'')
        else if cell_content_begin buf < cell_len
          then Inl (WalProtocol ''index page: cell content underflow'')
        else
          let new_begin = cell_content_begin buf - cell_len;
              buf = set_cell_content_begin new_begin buf;
              cell_off = new_begin;
              key_start = cell_off + var_len
          in rbind (put_at cell_off (write_varint_u32 key_len) buf) (\<lambda>buf.
             rbind (put_at key_start key buf) (\<lambda>buf.
             rbind (put_at (key_start + length key) (to_le payload) buf) (\<lambda>buf.
             rbind (shift_slots_right idx buf) (\<lambda>buf.
             rbind (slot_set idx cell_off buf) (\<lambda>buf.
             Inr (set_cell_count (cnt + 1) buf))))))))"

definition internal_insert_at :: "nat \<Rightarrow> bytes \<Rightarrow> u64 \<Rightarrow> bytes \<Rightarrow> bytes result" where
  "internal_insert_at idx key right_child buf =
    rbind (kind_of buf) (\<lambda>k.
    if k \<noteq> Internal then Inl (WalProtocol ''index page: not internal'')
    else if 2 ^ 32 \<le> length key then Inl (WalProtocol ''key too large'')
    else
      let key_len = (of_nat (length key) :: u32);
          var_len = varint_u32_len key_len;
          cell_len = 8 + var_len + length key
      in rbind (free_space buf) (\<lambda>free.
      if free < cell_len + 2 then Inl (WalProtocol ''index page: no space'')
      else
        let cnt = cell_count buf
        in if cnt < idx then Inl (WalProtocol ''index page: insert idx out of bounds'')
        else if cell_content_begin buf < cell_len
          then Inl (WalProtocol ''index page: cell content underflow'')
        else
          let new_begin = cell_content_begin buf - cell_len;
              buf = set_cell_content_begin new_begin buf;
              cell_off = new_begin;
              key_start = cell_off + 8 + var_len
          in rbind (put_at cell_off (to_le right_child) buf) (\<lambda>buf.
             rbind (put_at (cell_off + 8) (write_varint_u32 key_len) buf) (\<lambda>buf.
             rbind (put_at key_start key buf) (\<lambda>buf.
             rbind (shift_slots_right idx buf) (\<lambda>buf.
             rbind (slot_set idx cell_off buf) (\<lambda>buf.
             Inr (set_cell_count (cnt + 1) buf))))))))"

text \<open>\<open>unwrap\<close>\<close>

definition unwrap :: "'a result \<Rightarrow> 'a result" where
  "unwrap m = (case m of Inl e \<Rightarrow> Inl (Panic ''called unwrap on an Err value'') | Inr a \<Rightarrow> Inr a)"

fun leaf_insert_all :: "nat \<Rightarrow> (bytes \<times> u64) list \<Rightarrow> bytes \<Rightarrow> bytes result" where
  "leaf_insert_all i [] buf = Inr buf"
| "leaf_insert_all i ((k, v) # es) buf =
     rbind (unwrap (leaf_insert_at i k v buf)) (\<lambda>buf. leaf_insert_all (i + 1) es buf)"

definition rebuild_leaf :: "u64 \<Rightarrow> (bytes \<times> u64) list \<Rightarrow> bytes result" where
  "rebuild_leaf right entries = leaf_insert_all 0 entries (set_right_sibling right init_leaf)"

fun internal_insert_all :: "nat \<Rightarrow> (bytes \<times> u64) list \<Rightarrow> bytes \<Rightarrow> bytes result" where
  "internal_insert_all i [] buf = Inr buf"
| "internal_insert_all i ((k, c) # cells) buf =
     rbind (internal_insert_at i k c buf) (\<lambda>buf. internal_insert_all (i + 1) cells buf)"

definition rebuild_internal :: "u64 \<Rightarrow> (bytes \<times> u64) list \<Rightarrow> bytes result" where
  "rebuild_internal leftmost cells = internal_insert_all 0 cells (init_internal leftmost)"

definition delete_from_leaf :: "nat \<Rightarrow> bytes \<Rightarrow> bytes result" where
  "delete_from_leaf idx buf =
    rbind (kind_of buf) (\<lambda>k.
    if k \<noteq> Leaf then Inl (WalProtocol ''index page: not leaf'')
    else
      let cnt = cell_count buf
      in if cnt \<le> idx then Inl (WalProtocol ''index page: delete idx out of bounds'')
         else rbind (shift_slots_left idx buf) (\<lambda>buf. Inr (set_cell_count (cnt - 1) buf)))"

section \<open>Variable-length integers\<close>

lemma bit_80: "bit (0x80 :: u8) n \<longleftrightarrow> n = 7"
proof -
  have "(0x80 :: u8) = 2 ^ 7" by simp
  then show ?thesis by (simp only: bit_exp_iff) auto
qed

lemma bit_7F: "bit (0x7F :: u8) n \<longleftrightarrow> n < 7"
proof -
  have "(0x7F :: u8) = mask 7" by (simp add: mask_eq_exp_minus_1)
  then show ?thesis by (simp only: bit_mask_iff) auto
qed

lemma varint_chunk:
  "ucast ((ucast (w :: u32) OR 0x80) AND 0x7F :: u8) = (take_bit 7 w :: u32)"
  "(ucast w OR 0x80 :: u8) AND 0x80 \<noteq> 0"
proof -
  show "ucast ((ucast w OR 0x80) AND 0x7F :: u8) = (take_bit 7 w :: u32)"
    by (rule bit_word_eqI) (simp only: bit_unsigned_iff bit_and_iff bit_or_iff bit_take_bit_iff bit_80 bit_7F, auto)
  have "bit ((ucast w OR 0x80 :: u8) AND 0x80) 7" by (simp add: bit_and_iff bit_or_iff bit_80)
  then show "(ucast w OR 0x80 :: u8) AND 0x80 \<noteq> 0" by auto
qed

lemma take_drop_7: "push_bit s (take_bit 7 w) OR push_bit (s + 7) (drop_bit 7 w) = (push_bit s w :: u32)"
proof (rule bit_word_eqI)
  fix n
  have "7 + (n - (s + 7)) = n - s" if "\<not> n - s < 7" using that by arith
  moreover assume "n < LENGTH(32)"
  ultimately show "bit (push_bit s (take_bit 7 w) OR push_bit (s + 7) (drop_bit 7 w)) n = bit (push_bit s w) n"
    by (cases "n - s < 7") (auto simp: bit_simps)
qed

lemma small_byte:
  assumes "w < (0x80 :: u32)"
  shows "ucast (ucast w AND 0x7F :: u8) = w" "(ucast w :: u8) AND 0x80 = 0"
proof -
  have "unat w < 128" using assms by (simp add: word_less_nat_alt)
  then have w: "take_bit 7 w = w"
    by (simp add: word_unat_eq_iff take_bit_eq_mod unat_mod)
  have "ucast (ucast (take_bit 7 w) AND 0x7F :: u8) = take_bit 7 w"
    by (rule bit_word_eqI) (simp only: bit_unsigned_iff bit_and_iff bit_take_bit_iff bit_7F, auto)
  then show "ucast (ucast w AND 0x7F :: u8) = w" by (simp only: w)
  have "(ucast (take_bit 7 w) :: u8) AND 0x80 = 0"
    by (rule bit_word_eqI) (simp only: bit_unsigned_iff bit_and_iff bit_take_bit_iff bit_80, auto)
  then show "(ucast w :: u8) AND 0x80 = 0" by (simp only: w)
qed

lemma length_write_varint: "length (write_varint_u32 w) = varint_u32_len w"
  by (induction w rule: varint_u32_len.induct)
     (subst write_varint_u32.simps, subst varint_u32_len.simps, simp)

lemma varint_pos: "0 < varint_u32_len w"
  by (subst varint_u32_len.simps) simp

lemma read_write_varint_loop:
  "7 dvd s \<Longrightarrow> s \<le> 28 \<Longrightarrow> unat w < 2 ^ (35 - s) \<Longrightarrow>
   read_varint_loop i s v (write_varint_u32 w @ rest) = Some (v OR push_bit s w, i + varint_u32_len w)"
proof (induction w arbitrary: i s v rule: varint_u32_len.induct)
  case (1 w)
  show ?case
  proof (cases "0x80 \<le> w")
    case False
    then have w: "w < 0x80" by simp
    have "write_varint_u32 w = [ucast w]" "varint_u32_len w = 1"
      using False by (subst write_varint_u32.simps varint_u32_len.simps; simp)+
    then show ?thesis using small_byte [OF w] 1(3) by (simp add: Let_def)
  next
    case True
    then have "128 \<le> unat w" by (simp add: word_le_nat_alt)
    with 1(4) have "(2 :: nat) ^ 7 < 2 ^ (35 - s)" by simp
    then have "7 < 35 - s" by (simp only: power_strict_increasing_iff one_less_numeral_iff semiring_norm)
    with 1(2,3) have s: "s + 7 \<le> 28" by (auto elim!: dvdE)
    have "unat (drop_bit 7 w) = unat w div 128" by (simp add: drop_bit_eq_div unat_div)
    also have "\<dots> < 2 ^ (35 - (s + 7))"
    proof -
      have "(2 :: nat) ^ (35 - s) = 2 ^ (35 - (s + 7)) * 128"
        using s power_add [of "2 :: nat" "28 - s" 7] by simp
      with 1(4) show ?thesis by (simp add: less_mult_imp_div_less)
    qed
    finally have lt: "unat (drop_bit 7 w) < 2 ^ (35 - (s + 7))" .
    have dvd: "7 dvd s + 7" using 1(2) by simp
    have "write_varint_u32 w = (ucast w OR 0x80) # write_varint_u32 (drop_bit 7 w)"
      "varint_u32_len w = Suc (varint_u32_len (drop_bit 7 w))"
      using True by (subst write_varint_u32.simps varint_u32_len.simps; simp)+
    then show ?thesis
      using 1(1) [OF True dvd s lt, of "i + 1" "v OR push_bit s (take_bit 7 w)"] s
      by (simp add: Let_def varint_chunk or.assoc take_drop_7)
  qed
qed

lemma read_write_varint: "read_varint_u32 (write_varint_u32 w @ rest) = Some (w, varint_u32_len w)"
proof -
  have "unat w < 2 ^ (35 - 0)" using unat_bound [of w] by simp
  from read_write_varint_loop [OF _ _ this, of 0 0 rest] show ?thesis
    by (simp add: read_varint_u32_def)
qed
section \<open>Slotted pages\<close>

lemmas bt_offsets = OFF_MAGIC_def OFF_KIND_def OFF_VERSION_def OFF_CELL_COUNT_def
  OFF_CELL_CONTENT_BEGIN_def OFF_FREE_BYTES_def OFF_RESERVED_def OFF_RIGHT_SIBLING_def
  OFF_LEFTMOST_CHILD_def COMMON_HEADER_SIZE_def INTERNAL_HEADER_SIZE_def

lemma header_size_bounds: "24 \<le> header_size k" "header_size k \<le> 32"
  by (cases k; simp add: bt_offsets)+

text \<open>The slot array, the cell a slot points to, and a page that holds a list of cells.\<close>

definition slot_at :: "page_kind \<Rightarrow> bytes \<Rightarrow> nat \<Rightarrow> nat" where
  "slot_at k buf i = unat (from_le (subslice (header_size k + i * 2) 2 buf) :: u16)"

definition slotted :: "page_kind \<Rightarrow> bytes list \<Rightarrow> bytes \<Rightarrow> bool" where
  "slotted k cs buf \<longleftrightarrow>
     length buf = PAGE_SIZE \<and> kind_of buf = Inr k \<and> cell_count buf = length cs \<and>
     header_size k + 2 * length cs \<le> cell_content_begin buf \<and> cell_content_begin buf \<le> PAGE_SIZE \<and>
     sum_list (map length cs) + cell_content_begin buf \<le> PAGE_SIZE \<and>
     (\<forall>i < length cs. cell_content_begin buf \<le> slot_at k buf i \<and>
        slot_at k buf i + length (cs ! i) \<le> PAGE_SIZE \<and>
        subslice (slot_at k buf i) (length (cs ! i)) buf = cs ! i)"

lemma subslice_overwrite_inside:
  assumes "i \<le> j" "j + n \<le> i + length src" "i + length src \<le> length xs"
  shows "subslice j n (overwrite i src xs) = subslice (j - i) n src"
proof (rule nth_equalityI)
  show "length (subslice j n (overwrite i src xs)) = length (subslice (j - i) n src)"
    using assms by simp
next
  fix m assume "m < length (subslice j n (overwrite i src xs))"
  with assms have "m < n" by simp
  with assms show "subslice j n (overwrite i src xs) ! m = subslice (j - i) n src ! m"
    by (simp add: subslice_def overwrite_nth)
qed

lemma take_overwrite: "n \<le> i \<Longrightarrow> i \<le> length xs \<Longrightarrow> take n (overwrite i src xs) = take n xs"
  by (simp add: overwrite_def min_def)

lemma kind_of_take:
  assumes "take 6 b = take 6 b'"
  shows "kind_of b = kind_of b'"
proof -
  have "subslice 0 4 b = subslice 0 4 b'"
    using arg_cong [OF assms, of "take 4"] by (simp add: subslice_def)
  moreover have "b ! i = b' ! i" if "i < 6" for i
    using arg_cong [OF assms, of "\<lambda>l. l ! i"] that by simp
  ultimately show ?thesis by (simp add: kind_of_def bt_offsets)
qed

lemma header_overwrite:
  assumes "i + length src \<le> length buf"
  shows "6 \<le> i \<Longrightarrow> kind_of (overwrite i src buf) = kind_of buf"
    and "8 \<le> i \<Longrightarrow> cell_count (overwrite i src buf) = cell_count buf"
    and "10 \<le> i \<Longrightarrow> cell_content_begin (overwrite i src buf) = cell_content_begin buf"
  using assms kind_of_take [of "overwrite i src buf" buf]
  by (simp_all add: take_overwrite cell_count_def cell_content_begin_def bt_offsets
      subslice_overwrite_before)

lemma header_setters:
  assumes "12 \<le> length buf" "n < 2 ^ 16"
  shows "length (set_cell_count n buf) = length buf"
    "kind_of (set_cell_count n buf) = kind_of buf"
    "cell_count (set_cell_count n buf) = n"
    "cell_content_begin (set_cell_count n buf) = cell_content_begin buf"
    "length (set_cell_content_begin n buf) = length buf"
    "kind_of (set_cell_content_begin n buf) = kind_of buf"
    "cell_count (set_cell_content_begin n buf) = cell_count buf"
    "cell_content_begin (set_cell_content_begin n buf) = n"
  using assms kind_of_take [of "set_cell_count n buf" buf]
    kind_of_take [of "set_cell_content_begin n buf" buf]
  by (simp_all add: set_cell_count_def set_cell_content_begin_def take_overwrite
      cell_count_def cell_content_begin_def bt_offsets subslice_overwrite_before
      subslice_overwrite_after subslice_overwrite_same unat_word_of_nat_less)

lemma subslice_setters:
  assumes "12 \<le> length buf" "12 \<le> j"
  shows "subslice j m (set_cell_count n buf) = subslice j m buf"
    "subslice j m (set_cell_content_begin n buf) = subslice j m buf"
  using assms by (simp_all add: set_cell_count_def set_cell_content_begin_def bt_offsets
      subslice_overwrite_after)

lemma slot_get_ok:
  "length buf = PAGE_SIZE \<Longrightarrow> kind_of buf = Inr k \<Longrightarrow> header_size k + i * 2 + 2 \<le> PAGE_SIZE \<Longrightarrow>
   slot_get buf i = Inr (slot_at k buf i)"
  by (simp add: slot_get_def slots_off_def read_u16_le_def subslice_checked_def slot_at_def)

lemma shift_right_ok:
  assumes len: "length buf = PAGE_SIZE" and k: "kind_of buf = Inr k" and idx: "idx \<le> cell_count buf"
    and fits: "header_size k + 2 * cell_count buf + 2 \<le> PAGE_SIZE"
  obtains buf' where "shift_slots_right idx buf = Inr buf'" "length buf' = PAGE_SIZE"
    "kind_of buf' = Inr k" "cell_count buf' = cell_count buf"
    "cell_content_begin buf' = cell_content_begin buf"
    "\<And>i. i < idx \<Longrightarrow> slot_at k buf' i = slot_at k buf i"
    "\<And>i. idx \<le> i \<Longrightarrow> i < cell_count buf \<Longrightarrow> slot_at k buf' (Suc i) = slot_at k buf i"
    "\<And>j m. j + m \<le> header_size k \<or> header_size k + 2 * cell_count buf + 2 \<le> j \<Longrightarrow>
       subslice j m buf' = subslice j m buf"
proof (cases "idx = cell_count buf")
  case True
  show thesis by (rule that [of buf]) (simp_all add: True shift_slots_right_def len k)
next
  case False
  let ?h = "header_size k" let ?src = "?h + idx * 2" let ?len = "(cell_count buf - idx) * 2"
  let ?buf = "overwrite (?src + 2) (subslice ?src ?len buf) buf"
  have h: "24 \<le> ?h" by (rule header_size_bounds)
  have l: "length (subslice ?src ?len buf) = ?len" using fits idx by (simp add: len)
  have b: "?src + 2 + ?len \<le> length buf" using fits idx by (simp add: len)
  show thesis
  proof (rule that [of ?buf])
    show "shift_slots_right idx buf = Inr ?buf"
      using False idx b by (simp add: shift_slots_right_def slots_off_def k copy_within_def
        subslice_checked_def put_at_def Let_def)
    show "length ?buf = PAGE_SIZE" using b by (simp add: len l)
    show "kind_of ?buf = Inr k" "cell_count ?buf = cell_count buf"
      "cell_content_begin ?buf = cell_content_begin buf"
      using b h by (simp_all add: header_overwrite l k)
    show "slot_at k ?buf i = slot_at k buf i" if "i < idx" for i
      unfolding slot_at_def using that b by (subst subslice_overwrite_before) simp_all
    show "slot_at k ?buf (Suc i) = slot_at k buf i" if "idx \<le> i" "i < cell_count buf" for i
    proof -
      have "subslice (?h + Suc i * 2) 2 ?buf = subslice (?h + Suc i * 2 - (?src + 2)) 2 (subslice ?src ?len buf)"
        using that b by (intro subslice_overwrite_inside) (simp_all add: l)
      also have "\<dots> = subslice (?h + i * 2) 2 buf"
        using that by (subst subslice_subslice) (simp_all add: diff_mult_distrib)
      finally show ?thesis by (simp add: slot_at_def)
    qed
    show "subslice j m ?buf = subslice j m buf"
      if "j + m \<le> ?h \<or> ?h + 2 * cell_count buf + 2 \<le> j" for j m
      using that b idx by (intro subslice_overwrite_other) (auto simp: l)
  qed
qed

lemma slot_set_ok:
  assumes len: "length buf = PAGE_SIZE" and k: "kind_of buf = Inr k"
    and fits: "header_size k + idx * 2 + 2 \<le> PAGE_SIZE" and v: "v < 2 ^ 16"
  obtains buf' where "slot_set idx v buf = Inr buf'" "length buf' = PAGE_SIZE" "kind_of buf' = Inr k"
    "cell_count buf' = cell_count buf" "cell_content_begin buf' = cell_content_begin buf"
    "\<And>i. slot_at k buf' i = (if i = idx then v else slot_at k buf i)"
    "\<And>j m. j + m \<le> header_size k \<or> header_size k + idx * 2 + 2 \<le> j \<Longrightarrow>
       subslice j m buf' = subslice j m buf"
proof -
  let ?off = "header_size k + idx * 2"
  let ?buf = "overwrite ?off (to_le (of_nat v :: u16)) buf"
  have h: "24 \<le> header_size k" by (rule header_size_bounds)
  show thesis
  proof (rule that [of ?buf])
    show "slot_set idx v buf = Inr ?buf"
      using fits by (simp add: slot_set_def slots_off_def k put_at_def len)
    show "length ?buf = PAGE_SIZE" using fits by (simp add: len)
    show "kind_of ?buf = Inr k" "cell_count ?buf = cell_count buf"
      "cell_content_begin ?buf = cell_content_begin buf"
      using fits h by (simp_all add: header_overwrite len k)
    show "subslice j m ?buf = subslice j m buf" if "j + m \<le> header_size k \<or> ?off + 2 \<le> j" for j m
      using that fits by (intro subslice_overwrite_other) (auto simp: len)
    show "slot_at k ?buf i = (if i = idx then v else slot_at k buf i)" for i
    proof (cases "i = idx")
      case True
      then show ?thesis
        using fits v by (simp add: slot_at_def subslice_overwrite_same len unat_word_of_nat_less)
    next
      case False
      then have "subslice (header_size k + i * 2) 2 ?buf = subslice (header_size k + i * 2) 2 buf"
        using fits by (intro subslice_overwrite_other) (auto simp: len)
      with False show ?thesis by (simp add: slot_at_def)
    qed
  qed
qed

text \<open>One insertion: the cell goes below the others, its slot between theirs.\<close>

lemma put_cell_ok:
  assumes len: "length buf = PAGE_SIZE" and k: "kind_of buf = Inr k" and cnt: "cell_count buf = n"
    and cb: "cell_content_begin buf \<le> PAGE_SIZE"
    and fits: "header_size k + 2 * n + 2 + length c \<le> cell_content_begin buf"
    and nb: "nb = cell_content_begin buf - length c"
    and buf1: "buf1 = overwrite nb c (set_cell_content_begin nb buf)"
  shows "length buf1 = PAGE_SIZE" "kind_of buf1 = Inr k" "cell_count buf1 = n"
    "cell_content_begin buf1 = nb" "subslice nb (length c) buf1 = c"
    "\<And>j m. 12 \<le> j \<Longrightarrow> j + m \<le> nb \<or> cell_content_begin buf \<le> j \<Longrightarrow> subslice j m buf1 = subslice j m buf"
    "\<And>i. i < n \<Longrightarrow> slot_at k buf1 i = slot_at k buf i"
proof -
  let ?s = "set_cell_content_begin nb buf"
  have h: "24 \<le> header_size k" by (rule header_size_bounds)
  have P: "PAGE_SIZE = 8192" by (rule PAGE_SIZE_def)
  have nbc: "nb + length c = cell_content_begin buf" "header_size k + 2 * n + 2 \<le> nb"
    using fits cb nb by simp_all
  then have hs: "length ?s = PAGE_SIZE" "kind_of ?s = Inr k" "cell_count ?s = n" "cell_content_begin ?s = nb"
    using header_setters [of buf nb] cb by (simp_all add: len k cnt P)
  have nbl: "nb + length c \<le> length ?s" using nbc cb hs by simp
  show "length buf1 = PAGE_SIZE" "kind_of buf1 = Inr k" "cell_count buf1 = n"
    "cell_content_begin buf1 = nb" "subslice nb (length c) buf1 = c"
    using header_overwrite [OF nbl] nbl nbc h unfolding buf1 by (simp_all add: hs subslice_overwrite_same)
  show fr: "subslice j m buf1 = subslice j m buf"
    if "12 \<le> j" "j + m \<le> nb \<or> cell_content_begin buf \<le> j" for j m
    using that nbl nbc subslice_setters [of buf j m nb]
    unfolding buf1 by (subst subslice_overwrite_other) (auto simp: len P)
  show "slot_at k buf1 i = slot_at k buf i" if "i < n" for i
    using that nbc h unfolding slot_at_def by (subst fr) simp_all
qed

lemma insert_cell_bytes:
  assumes b1: "length buf1 = PAGE_SIZE" "kind_of buf1 = Inr k" "cell_count buf1 = n"
    "cell_content_begin buf1 = nb"
    and fits: "idx \<le> n" "header_size k + 2 * n + 2 \<le> nb" "nb \<le> PAGE_SIZE"
  obtains buf2 buf3 f where "shift_slots_right idx buf1 = Inr buf2" "slot_set idx nb buf2 = Inr buf3"
    "f = set_cell_count (n + 1) buf3" "length f = PAGE_SIZE" "kind_of f = Inr k" "cell_count f = n + 1"
    "cell_content_begin f = nb"
    "\<And>i. i \<le> n \<Longrightarrow> slot_at k f i = (if i < idx then slot_at k buf1 i else if i = idx then nb else slot_at k buf1 (i - 1))"
    "\<And>j m. 12 \<le> j \<Longrightarrow> j + m \<le> header_size k \<or> nb \<le> j \<Longrightarrow> subslice j m f = subslice j m buf1"
proof -
  let ?h = "header_size k"
  have h: "24 \<le> ?h" by (rule header_size_bounds)
  have P: "PAGE_SIZE = 8192" by (rule PAGE_SIZE_def)
  have n16: "nb < 2 ^ 16" "n + 1 < 2 ^ 16" using fits P by simp_all
  from shift_right_ok [OF b1(1,2), of idx] fits b1(3) obtain buf2 where
    b2: "shift_slots_right idx buf1 = Inr buf2" "length buf2 = PAGE_SIZE" "kind_of buf2 = Inr k"
      "cell_count buf2 = n" "cell_content_begin buf2 = nb"
      "\<And>i. i < idx \<Longrightarrow> slot_at k buf2 i = slot_at k buf1 i"
      "\<And>i. idx \<le> i \<Longrightarrow> i < n \<Longrightarrow> slot_at k buf2 (Suc i) = slot_at k buf1 i"
      "\<And>j m. j + m \<le> ?h \<or> ?h + 2 * n + 2 \<le> j \<Longrightarrow> subslice j m buf2 = subslice j m buf1"
    by (auto simp: b1)
  from slot_set_ok [OF b2(2,3), of idx nb] fits n16(1) obtain buf3 where
    b3: "slot_set idx nb buf2 = Inr buf3" "length buf3 = PAGE_SIZE" "kind_of buf3 = Inr k"
      "cell_count buf3 = n" "cell_content_begin buf3 = nb"
      "\<And>i. slot_at k buf3 i = (if i = idx then nb else slot_at k buf2 i)"
      "\<And>j m. j + m \<le> ?h \<or> ?h + idx * 2 + 2 \<le> j \<Longrightarrow> subslice j m buf3 = subslice j m buf2"
    by (auto simp: b2)
  let ?f = "set_cell_count (n + 1) buf3"
  have fs: "subslice j m ?f = subslice j m buf3" if "12 \<le> j" for j m
    using subslice_setters [of buf3 j] that b3(2) by (simp add: P)
  show thesis
  proof (rule that [OF b2(1) b3(1) refl])
    show "length ?f = PAGE_SIZE" "kind_of ?f = Inr k" "cell_count ?f = n + 1" "cell_content_begin ?f = nb"
      using header_setters [of buf3 "n + 1"] n16 by (simp_all add: b3 P)
    show "subslice j m ?f = subslice j m buf1" if "12 \<le> j" "j + m \<le> ?h \<or> nb \<le> j" for j m
      using that h fits by (subst fs, simp, subst b3(7), force, subst b2(8)) auto
    show "slot_at k ?f i = (if i < idx then slot_at k buf1 i else if i = idx then nb else slot_at k buf1 (i - 1))"
      if "i \<le> n" for i
    proof -
      have "slot_at k ?f i = slot_at k buf3 i" using h unfolding slot_at_def by (subst fs) simp_all
      then show ?thesis using b2(6) [of i] b2(7) [of "i - 1"] that by (auto simp: b3(6))
    qed
  qed
qed

lemma slotted_insert:
  assumes sl: "slotted k cs buf" and idx: "idx \<le> length cs"
    and fits: "header_size k + 2 * length cs + 2 + length c \<le> cell_content_begin buf"
    and nb: "nb = cell_content_begin buf - length c"
    and buf1: "buf1 = overwrite nb c (set_cell_content_begin nb buf)"
  obtains buf2 buf3 f where "shift_slots_right idx buf1 = Inr buf2" "slot_set idx nb buf2 = Inr buf3"
    "f = set_cell_count (length cs + 1) buf3" "slotted k (take idx cs @ c # drop idx cs) f"
    "cell_content_begin f = nb"
    "\<And>j m. 12 \<le> j \<Longrightarrow> j + m \<le> header_size k \<Longrightarrow> subslice j m f = subslice j m buf"
proof -
  let ?h = "header_size k" and ?n = "length cs" and ?cb = "cell_content_begin buf"
  have h: "24 \<le> ?h" by (rule header_size_bounds)
  from sl have hd: "length buf = PAGE_SIZE" "kind_of buf = Inr k" "cell_count buf = ?n" "?cb \<le> PAGE_SIZE"
    and sum: "sum_list (map length cs) + ?cb \<le> PAGE_SIZE"
    and cells: "\<And>i. i < ?n \<Longrightarrow> ?cb \<le> slot_at k buf i \<and>
      slot_at k buf i + length (cs ! i) \<le> PAGE_SIZE \<and>
      subslice (slot_at k buf i) (length (cs ! i)) buf = cs ! i"
    by (auto simp: slotted_def)
  note b1 = put_cell_ok [OF hd fits nb buf1]
  have nbc: "?h + 2 * ?n + 2 \<le> nb" "nb \<le> PAGE_SIZE" "nb + length c = ?cb" using fits hd nb by simp_all
  show thesis
  proof (rule insert_cell_bytes [OF b1(1-4) idx nbc(1,2)])
    fix buf2 buf3 f
    assume a: "shift_slots_right idx buf1 = Inr buf2" "slot_set idx nb buf2 = Inr buf3"
      "f = set_cell_count (?n + 1) buf3"
      and f: "length f = PAGE_SIZE" "kind_of f = Inr k" "cell_count f = ?n + 1" "cell_content_begin f = nb"
      and fsl: "\<And>i. i \<le> ?n \<Longrightarrow> slot_at k f i =
        (if i < idx then slot_at k buf1 i else if i = idx then nb else slot_at k buf1 (i - 1))"
      and fs: "\<And>j m. 12 \<le> j \<Longrightarrow> j + m \<le> ?h \<or> nb \<le> j \<Longrightarrow> subslice j m f = subslice j m buf1"
    have old: "nb \<le> slot_at k buf1 i \<and> slot_at k buf1 i + length (cs ! i) \<le> PAGE_SIZE \<and>
        subslice (slot_at k buf1 i) (length (cs ! i)) f = cs ! i" if "i < ?n" for i
    proof -
      from cells [OF that] nbc have "nb \<le> slot_at k buf i" "?cb \<le> slot_at k buf i" by simp_all
      moreover have "subslice (slot_at k buf i) m f = subslice (slot_at k buf i) m buf" for m
        using calculation h nbc by (subst fs, simp, simp, subst b1(6)) simp_all
      ultimately show ?thesis using cells [OF that] by (simp add: b1(7) [OF that])
    qed
    have new: "subslice nb (length c) f = c" using fs [of nb "length c"] nbc h b1(5) by simp
    let ?cs = "take idx cs @ c # drop idx cs"
    have "nb \<le> slot_at k f i \<and> slot_at k f i + length (?cs ! i) \<le> PAGE_SIZE \<and>
        subslice (slot_at k f i) (length (?cs ! i)) f = ?cs ! i" if "i < length ?cs" for i
    proof -
      have i: "i \<le> ?n" using that idx by simp
      consider "i < idx" | "i = idx" | j where "i = Suc j" "idx \<le> j" "j < ?n"
        using i by (cases i) (force, fastforce)
      then show ?thesis
        using old [of i] old [of "i - 1"] new nbc hd(4) idx
        by cases (auto simp: fsl nth_append Suc_diff_le)
    qed
    moreover have "sum_list (map length ?cs) + nb \<le> PAGE_SIZE"
    proof -
      have "sum_list (map length ?cs) = sum_list (map length (take idx cs @ drop idx cs)) + length c"
        by (simp only: map_append sum_list_append list.map sum_list.Cons)
      with sum nbc show ?thesis by simp
    qed
    ultimately have "slotted k ?cs f" using f nbc idx by (simp add: slotted_def)
    moreover have "subslice j m f = subslice j m buf" if "12 \<le> j" "j + m \<le> ?h" for j m
      using that nbc by (subst fs, simp, simp, subst b1(6)) simp_all
    ultimately show thesis using that a f by blast
  qed
qed

text \<open>Deleting a cell moves the slots after it; the bytes of the cell stay.\<close>

lemma shift_left_ok:
  assumes len: "length buf = PAGE_SIZE" and k: "kind_of buf = Inr k" and idx: "idx < cell_count buf"
    and fits: "header_size k + 2 * cell_count buf \<le> PAGE_SIZE"
  obtains buf' where "shift_slots_left idx buf = Inr buf'" "length buf' = PAGE_SIZE"
    "kind_of buf' = Inr k" "cell_content_begin buf' = cell_content_begin buf"
    "\<And>i. i < cell_count buf - 1 \<Longrightarrow>
       slot_at k buf' i = (if i < idx then slot_at k buf i else slot_at k buf (Suc i))"
    "\<And>j m. j + m \<le> header_size k \<or> header_size k + 2 * cell_count buf \<le> j \<Longrightarrow>
       subslice j m buf' = subslice j m buf"
proof -
  let ?h = "header_size k" let ?dst = "?h + idx * 2" let ?len = "(cell_count buf - idx - 1) * 2"
  let ?s = "subslice (?dst + 2) ?len buf"
  let ?buf = "overwrite ?dst ?s buf"
  have h: "24 \<le> ?h" by (rule header_size_bounds)
  have b: "?dst + 2 + ?len \<le> length buf" using fits idx by (simp add: len)
  then have l: "length ?s = ?len" by simp
  have bl: "?dst + length ?s \<le> length buf" using b l by simp
  show thesis
  proof (rule that [of ?buf])
    have "overwrite ?dst ?s buf = buf" if "?len = 0"
      using that l by (simp add: overwrite_def)
    then show "shift_slots_left idx buf = Inr ?buf"
      using idx b l by (simp add: shift_slots_left_def slots_off_def k copy_within_def
        subslice_checked_def put_at_def Let_def)
    show "length ?buf = PAGE_SIZE" using bl by (simp add: len)
    show "kind_of ?buf = Inr k" "cell_content_begin ?buf = cell_content_begin buf"
      using header_overwrite [OF bl] h k by simp_all
    show "slot_at k ?buf i = (if i < idx then slot_at k buf i else slot_at k buf (Suc i))"
      if "i < cell_count buf - 1" for i
    proof (cases "i < idx")
      case True
      then show ?thesis unfolding slot_at_def using b by (subst subslice_overwrite_before) simp_all
    next
      case False
      have "subslice (?h + i * 2) 2 ?buf = subslice (?h + i * 2 - ?dst) 2 ?s"
        using False that bl l by (intro subslice_overwrite_inside) simp_all
      also have "\<dots> = subslice (?h + Suc i * 2) 2 buf"
        using False that by (subst subslice_subslice) (simp_all add: diff_mult_distrib)
      finally show ?thesis using False by (simp add: slot_at_def)
    qed
    show "subslice j m ?buf = subslice j m buf" if "j + m \<le> ?h \<or> ?h + 2 * cell_count buf \<le> j" for j m
      using that bl l idx by (intro subslice_overwrite_other) auto
  qed
qed

lemma sum_list_remove_le: "sum_list (take i xs @ drop (Suc i) xs) \<le> sum_list (xs :: nat list)"
proof (induction xs arbitrary: i)
  case (Cons x xs)
  from Cons.IH [of "i - 1"] show ?case by (cases i) simp_all
qed simp

lemma slotted_delete:
  assumes sl: "slotted k cs buf" and idx: "idx < length cs"
  obtains buf' f where "shift_slots_left idx buf = Inr buf'" "f = set_cell_count (length cs - 1) buf'"
    "slotted k (take idx cs @ drop (Suc idx) cs) f"
    "\<And>j m. 12 \<le> j \<Longrightarrow> j + m \<le> header_size k \<Longrightarrow> subslice j m f = subslice j m buf"
proof -
  let ?h = "header_size k" and ?n = "length cs" and ?cb = "cell_content_begin buf"
  let ?cs = "take idx cs @ drop (Suc idx) cs"
  have h: "24 \<le> ?h" by (rule header_size_bounds)
  from sl have hd: "length buf = PAGE_SIZE" "kind_of buf = Inr k" "cell_count buf = ?n" "?cb \<le> PAGE_SIZE"
    "?h + 2 * ?n \<le> ?cb" and sum: "sum_list (map length cs) + ?cb \<le> PAGE_SIZE"
    and cells: "\<And>i. i < ?n \<Longrightarrow> ?cb \<le> slot_at k buf i \<and>
      slot_at k buf i + length (cs ! i) \<le> PAGE_SIZE \<and>
      subslice (slot_at k buf i) (length (cs ! i)) buf = cs ! i"
    by (auto simp: slotted_def)
  from shift_left_ok [OF hd(1,2), of idx] hd idx obtain b where
    b: "shift_slots_left idx buf = Inr b" "length b = PAGE_SIZE" "kind_of b = Inr k"
      "cell_content_begin b = ?cb"
      "\<And>i. i < ?n - 1 \<Longrightarrow> slot_at k b i = (if i < idx then slot_at k buf i else slot_at k buf (Suc i))"
      "\<And>j m. j + m \<le> ?h \<or> ?h + 2 * ?n \<le> j \<Longrightarrow> subslice j m b = subslice j m buf"
    by auto
  define f where "f = set_cell_count (?n - 1) b"
  have P: "PAGE_SIZE = 8192" by (rule PAGE_SIZE_def)
  have f: "length f = PAGE_SIZE" "kind_of f = Inr k" "cell_count f = ?n - 1" "cell_content_begin f = ?cb"
    using header_setters [of b "?n - 1"] b hd P unfolding f_def by simp_all
  have fs: "subslice j m f = subslice j m b" if "12 \<le> j" for j m
    using subslice_setters [of b j] that b(2) unfolding f_def by (simp add: P)
  have fsl: "slot_at k f i = slot_at k b i" for i using h unfolding slot_at_def by (subst fs) simp_all
  have fc: "subslice j m f = subslice j m buf" if "?cb \<le> j" for j m
    using that h hd by (subst fs, simp, subst b(6)) simp_all
  have "?cb \<le> slot_at k f i \<and> slot_at k f i + length (?cs ! i) \<le> PAGE_SIZE \<and>
      subslice (slot_at k f i) (length (?cs ! i)) f = ?cs ! i" if "i < length ?cs" for i
  proof -
    have "i < ?n - 1" using that idx by simp
    moreover have "?cs ! i = (if i < idx then cs ! i else cs ! Suc i)"
      using that idx by (simp add: nth_append)
    ultimately show ?thesis using cells [of i] cells [of "Suc i"] by (simp add: fsl b(5) fc)
  qed
  moreover have "sum_list (map length ?cs) + ?cb \<le> PAGE_SIZE"
    using sum sum_list_remove_le [of idx "map length cs"] by (simp add: take_map drop_map)
  ultimately have "slotted k ?cs f" using f hd idx by (simp add: slotted_def)
  then show thesis
    using b that [OF b(1) f_def] fs by (metis le_trans)
qed

section \<open>Leaves and inner pages\<close>

text \<open>The bytes of a cell, the space it takes, and the pages that hold a list of entries.\<close>

definition leaf_cell :: "bytes \<times> u64 \<Rightarrow> bytes" where
  "leaf_cell e = write_varint_u32 (of_nat (length (fst e))) @ fst e @ to_le (snd e)"

definition internal_cell :: "bytes \<times> u64 \<Rightarrow> bytes" where
  "internal_cell e = to_le (snd e) @ write_varint_u32 (of_nat (length (fst e))) @ fst e"

definition cell_size :: "bytes \<Rightarrow> nat" where
  "cell_size key = varint_u32_len (of_nat (length key)) + length key + 8"

definition leaf_page :: "u64 \<Rightarrow> (bytes \<times> u64) list \<Rightarrow> bytes \<Rightarrow> bool" where
  "leaf_page right es buf \<longleftrightarrow> slotted Leaf (map leaf_cell es) buf \<and> right_sibling buf = right"

definition internal_page :: "u64 \<Rightarrow> (bytes \<times> u64) list \<Rightarrow> bytes \<Rightarrow> bool" where
  "internal_page leftmost cells buf \<longleftrightarrow>
     slotted Internal (map internal_cell cells) buf \<and> right_sibling buf = 0 \<and>
     from_le (subslice OFF_LEFTMOST_CHILD 8 buf) = leftmost"

lemma length_cells [simp]:
  "length (leaf_cell e) = cell_size (fst e)" "length (internal_cell e) = cell_size (fst e)"
  by (simp_all add: leaf_cell_def internal_cell_def cell_size_def length_write_varint)

lemma drop_subslice: "subslice i n xs = ys \<Longrightarrow> i + n \<le> length xs \<Longrightarrow> drop i xs = ys @ drop (i + n) xs"
  by (metis add.commute append_take_drop_id drop_drop subslice_def)

lemma slotted_length_key:
  assumes "slotted k (map f es) buf" "i < length es" "length (f (es ! i)) = cell_size (fst (es ! i))"
  shows "length (fst (es ! i)) < 2 ^ 32"
proof -
  from assms have "cell_size (fst (es ! i)) \<le> PAGE_SIZE" by (force simp: slotted_def)
  then show ?thesis by (simp add: cell_size_def PAGE_SIZE_def)
qed

lemma slot_of_slotted:
  assumes "slotted k cs buf" "i < length cs"
  shows "slot_get buf i = Inr (slot_at k buf i)"
    "slot_at k buf i + length (cs ! i) \<le> PAGE_SIZE"
    "drop (slot_at k buf i) buf = cs ! i @ drop (slot_at k buf i + length (cs ! i)) buf"
proof -
  from assms have h: "length buf = PAGE_SIZE" "kind_of buf = Inr k"
    "header_size k + 2 * length cs \<le> PAGE_SIZE"
    "slot_at k buf i + length (cs ! i) \<le> PAGE_SIZE"
    "subslice (slot_at k buf i) (length (cs ! i)) buf = cs ! i"
    by (auto simp: slotted_def)
  show "slot_get buf i = Inr (slot_at k buf i)" using h assms(2) by (intro slot_get_ok) simp_all
  show "slot_at k buf i + length (cs ! i) \<le> PAGE_SIZE" by (rule h)
  show "drop (slot_at k buf i) buf = cs ! i @ drop (slot_at k buf i + length (cs ! i)) buf"
    using h by (intro drop_subslice) simp_all
qed

lemma subslice_drop: "subslice (i + j) n xs = subslice j n (drop i xs)"
  by (simp add: subslice_def add.commute)

lemma leaf_cell_ok:
  assumes pg: "leaf_page r es buf" and i: "i < length es"
  shows "leaf_cell_key_and_payload buf i = Inr (es ! i)"
proof -
  obtain k v where e: "es ! i = (k, v)" by fastforce
  from pg have sl: "slotted Leaf (map leaf_cell es) buf" by (simp add: leaf_page_def)
  then have h: "length buf = PAGE_SIZE" "kind_of buf = Inr Leaf" "cell_count buf = length es"
    by (simp_all add: slotted_def)
  note slot = slot_of_slotted [OF sl, of i, simplified length_map, OF i]
  have kl: "unat (of_nat (length k) :: u32) = length k"
    using slotted_length_key [OF sl i] e by (simp add: unat_word_of_nat_less)
  let ?o = "slot_at Leaf buf i" and ?w = "of_nat (length k) :: u32"
  have d: "drop ?o buf = write_varint_u32 ?w @ k @ to_le v @ drop (?o + cell_size k) buf"
    using slot(3) i by (simp add: leaf_cell_def e cell_size_def length_write_varint ac_simps)
  have le: "?o + (varint_u32_len ?w + length k + 8) \<le> PAGE_SIZE"
    using slot(2) i by (simp add: e cell_size_def)
  have "subslice (?o + varint_u32_len ?w) (length k) buf = k"
    unfolding subslice_drop d by (simp add: subslice_def length_write_varint)
  moreover have "subslice (?o + (varint_u32_len ?w + length k)) 8 buf = to_le v"
    unfolding subslice_drop d by (simp add: subslice_def length_write_varint)
  ultimately show ?thesis
    using le i by (simp add: leaf_cell_key_and_payload_def h slot(1) d read_write_varint Let_def kl
      read_u64_le_def subslice_checked_def e add.assoc)
qed

lemma internal_cell_ok:
  assumes pg: "internal_page l es buf" and i: "i < length es"
  shows "internal_cell_key_and_right_child buf i = Inr (es ! i)"
proof -
  obtain k v where e: "es ! i = (k, v)" by fastforce
  from pg have sl: "slotted Internal (map internal_cell es) buf" by (simp add: internal_page_def)
  then have h: "length buf = PAGE_SIZE" "kind_of buf = Inr Internal" "cell_count buf = length es"
    by (simp_all add: slotted_def)
  note slot = slot_of_slotted [OF sl, of i, simplified length_map, OF i]
  have kl: "unat (of_nat (length k) :: u32) = length k"
    using slotted_length_key [OF sl i] e by (simp add: unat_word_of_nat_less)
  let ?o = "slot_at Internal buf i" and ?w = "of_nat (length k) :: u32"
  have d: "drop ?o buf = to_le v @ write_varint_u32 ?w @ k @ drop (?o + cell_size k) buf"
    using slot(3) i by (simp add: internal_cell_def e cell_size_def length_write_varint ac_simps)
  have le: "?o + (varint_u32_len ?w + length k + 8) \<le> PAGE_SIZE"
    using slot(2) i by (simp add: e cell_size_def)
  have v: "subslice ?o 8 buf = to_le v"
    using subslice_drop [of ?o 0 8 buf] by (simp add: d subslice_def)
  have d8: "drop (?o + 8) buf = write_varint_u32 ?w @ k @ drop (?o + cell_size k) buf"
    using arg_cong [OF d, of "drop 8"] by (simp add: add.commute)
  have k: "subslice (?o + 8 + varint_u32_len ?w) (length k) buf = k"
    unfolding subslice_drop [of "?o + 8"] d8 by (simp add: subslice_def length_write_varint)
  show ?thesis
    using le i varint_pos [of ?w] k v
    by (simp add: internal_cell_key_and_right_child_def h slot(1) d8 read_write_varint Let_def kl
      read_u64_le_def subslice_checked_def e)
qed

section \<open>Changing a page\<close>

lemma overwrite_overwrite:
  "a + length x + length y \<le> length b \<Longrightarrow>
   overwrite (a + length x) y (overwrite a x b) = overwrite a (x @ y) b"
  by (simp add: overwrite_def ac_simps)

lemma put_at_ok: "off + length src \<le> length buf \<Longrightarrow> put_at off src buf = Inr (overwrite off src buf)"
  by (simp add: put_at_def)

lemma put_at_3:
  assumes "a + length x + length y + length z \<le> length b"
  shows "rbind (put_at a x b) (\<lambda>b. rbind (put_at (a + length x) y b) (\<lambda>b.
      rbind (put_at (a + length x + length y) z b) f)) = f (overwrite a (x @ y @ z) b)"
  using assms overwrite_overwrite [of a x y b] overwrite_overwrite [of a "x @ y" z b]
  by (simp add: put_at_ok add.assoc)

lemma free_space_slotted:
  "slotted k cs buf \<Longrightarrow> free_space buf = Inr (cell_content_begin buf - (header_size k + 2 * length cs))"
  by (simp add: slotted_def free_space_def slots_off_def mult.commute)

lemma leaf_insert_at_ok:
  assumes pg: "leaf_page r es buf" and idx: "idx \<le> length es" and key: "length key < 2 ^ 32"
    and fits: "COMMON_HEADER_SIZE + 2 * length es + 2 + cell_size key \<le> cell_content_begin buf"
  obtains buf' where "leaf_insert_at idx key v buf = Inr buf'"
    "leaf_page r (take idx es @ (key, v) # drop idx es) buf'"
    "cell_content_begin buf' = cell_content_begin buf - cell_size key"
proof -
  let ?c = "leaf_cell (key, v)" and ?cs = "map leaf_cell es" and ?w = "of_nat (length key) :: u32"
  let ?nb = "cell_content_begin buf - cell_size key"
  let ?b1 = "overwrite ?nb ?c (set_cell_content_begin ?nb buf)"
  from pg have sl: "slotted Leaf ?cs buf" by (simp add: leaf_page_def)
  then have h: "length buf = PAGE_SIZE" "kind_of buf = Inr Leaf" "cell_count buf = length es"
    "cell_content_begin buf \<le> PAGE_SIZE" by (simp_all add: slotted_def)
  have fits': "header_size Leaf + 2 * length ?cs + 2 + length ?c \<le> cell_content_begin buf"
    using fits by simp
  have idx': "idx \<le> length ?cs" using idx by simp
  have len: "length (set_cell_content_begin ?nb buf) = PAGE_SIZE"
    using header_setters(5) [of buf ?nb] h by (simp add: PAGE_SIZE_def)
  have nb: "?nb + length (write_varint_u32 ?w) + length key + length (to_le v) \<le> length (set_cell_content_begin ?nb buf)"
    using fits h unfolding len by (simp add: cell_size_def length_write_varint)
  show thesis
  proof (rule slotted_insert [OF sl idx' fits' _ refl, of ?nb])
    fix b2 b3 f
    assume a: "shift_slots_right idx ?b1 = Inr b2" "slot_set idx ?nb b2 = Inr b3"
      "f = set_cell_count (length ?cs + 1) b3" "slotted Leaf (take idx ?cs @ ?c # drop idx ?cs) f"
      "cell_content_begin f = ?nb"
      "\<And>j m. 12 \<le> j \<Longrightarrow> j + m \<le> header_size Leaf \<Longrightarrow> subslice j m f = subslice j m buf"
    have "leaf_insert_at idx key v buf = Inr f"
      using fits idx key put_at_3 [OF nb, of "\<lambda>b. rbind (shift_slots_right idx b) (\<lambda>b.
        rbind (slot_set idx ?nb b) (\<lambda>b. Inr (set_cell_count (length es + 1) b)))"] a(1-3)
      by (simp add: leaf_insert_at_def h free_space_slotted [OF sl] Let_def cell_size_def
        leaf_cell_def length_write_varint)
    moreover have "right_sibling f = right_sibling buf"
      using a(6) [of 16 8] by (simp add: right_sibling_def bt_offsets)
    moreover have "slotted Leaf (map leaf_cell (take idx es @ (key, v) # drop idx es)) f"
      using a(4) by (simp add: take_map drop_map)
    ultimately show thesis using that a(5) pg by (simp add: leaf_page_def)
  qed simp
qed

lemma internal_insert_at_ok:
  assumes pg: "internal_page l es buf" and idx: "idx \<le> length es" and key: "length key < 2 ^ 32"
    and fits: "INTERNAL_HEADER_SIZE + 2 * length es + 2 + cell_size key \<le> cell_content_begin buf"
  obtains buf' where "internal_insert_at idx key v buf = Inr buf'"
    "internal_page l (take idx es @ (key, v) # drop idx es) buf'"
    "cell_content_begin buf' = cell_content_begin buf - cell_size key"
proof -
  let ?c = "internal_cell (key, v)" and ?cs = "map internal_cell es" and ?w = "of_nat (length key) :: u32"
  let ?nb = "cell_content_begin buf - cell_size key"
  let ?b1 = "overwrite ?nb ?c (set_cell_content_begin ?nb buf)"
  from pg have sl: "slotted Internal ?cs buf" by (simp add: internal_page_def)
  then have h: "length buf = PAGE_SIZE" "kind_of buf = Inr Internal" "cell_count buf = length es"
    "cell_content_begin buf \<le> PAGE_SIZE" by (simp_all add: slotted_def)
  have fits': "header_size Internal + 2 * length ?cs + 2 + length ?c \<le> cell_content_begin buf"
    using fits by simp
  have idx': "idx \<le> length ?cs" using idx by simp
  have len: "length (set_cell_content_begin ?nb buf) = PAGE_SIZE"
    using header_setters(5) [of buf ?nb] h by (simp add: PAGE_SIZE_def)
  have nb: "?nb + length (to_le v) + length (write_varint_u32 ?w) + length key \<le> length (set_cell_content_begin ?nb buf)"
    using fits h unfolding len by (simp add: cell_size_def length_write_varint)
  show thesis
  proof (rule slotted_insert [OF sl idx' fits' _ refl, of ?nb])
    fix b2 b3 f
    assume a: "shift_slots_right idx ?b1 = Inr b2" "slot_set idx ?nb b2 = Inr b3"
      "f = set_cell_count (length ?cs + 1) b3" "slotted Internal (take idx ?cs @ ?c # drop idx ?cs) f"
      "cell_content_begin f = ?nb"
      "\<And>j m. 12 \<le> j \<Longrightarrow> j + m \<le> header_size Internal \<Longrightarrow> subslice j m f = subslice j m buf"
    have "internal_insert_at idx key v buf = Inr f"
      using fits idx key put_at_3 [OF nb, of "\<lambda>b. rbind (shift_slots_right idx b) (\<lambda>b.
        rbind (slot_set idx ?nb b) (\<lambda>b. Inr (set_cell_count (length es + 1) b)))"] a(1-3)
      by (simp add: internal_insert_at_def h free_space_slotted [OF sl] Let_def cell_size_def
        internal_cell_def length_write_varint ac_simps)
    moreover have "right_sibling f = right_sibling buf"
      "subslice OFF_LEFTMOST_CHILD 8 f = subslice OFF_LEFTMOST_CHILD 8 buf"
      using a(6) [of 16 8] a(6) [of 24 8] by (simp_all add: right_sibling_def bt_offsets)
    moreover have "slotted Internal (map internal_cell (take idx es @ (key, v) # drop idx es)) f"
      using a(4) by (simp add: take_map drop_map)
    ultimately show thesis using that a(5) pg by (simp add: internal_page_def)
  qed simp
qed

lemma slotted_full:
  assumes "slotted k cs buf" "cell_content_begin buf < header_size k + 2 * length cs + 2 + cell_size key"
  shows "kind_of buf = Inr k"
    "\<exists>free. free_space buf = Inr free \<and> free < varint_u32_len (of_nat (length key)) + length key + 8 + 2"
  using assms by (auto simp: free_space_slotted cell_size_def) (auto simp: slotted_def)

lemma insert_at_full:
  "leaf_page r es buf \<Longrightarrow> length key < 2 ^ 32 \<Longrightarrow>
   cell_content_begin buf < COMMON_HEADER_SIZE + 2 * length es + 2 + cell_size key \<Longrightarrow>
   leaf_insert_at idx key v buf = Inl (WalProtocol ''index page: no space'')"
  "internal_page l cs buf \<Longrightarrow> length key < 2 ^ 32 \<Longrightarrow>
   cell_content_begin buf < INTERNAL_HEADER_SIZE + 2 * length cs + 2 + cell_size key \<Longrightarrow>
   internal_insert_at idx key v buf = Inl (WalProtocol ''index page: no space'')"
  "leaf_page r es buf \<Longrightarrow> 2 ^ 32 \<le> length key \<Longrightarrow>
   leaf_insert_at idx key v buf = Inl (WalProtocol ''key too large'')"
proof -
  assume "leaf_page r es buf" "length key < 2 ^ 32"
    "cell_content_begin buf < COMMON_HEADER_SIZE + 2 * length es + 2 + cell_size key"
  then show "leaf_insert_at idx key v buf = Inl (WalProtocol ''index page: no space'')"
    using slotted_full [of Leaf "map leaf_cell es" buf key]
    by (auto simp: leaf_page_def leaf_insert_at_def Let_def)
next
  assume "internal_page l cs buf" "length key < 2 ^ 32"
    "cell_content_begin buf < INTERNAL_HEADER_SIZE + 2 * length cs + 2 + cell_size key"
  then show "internal_insert_at idx key v buf = Inl (WalProtocol ''index page: no space'')"
    using slotted_full [of Internal "map internal_cell cs" buf key]
    by (auto simp: internal_page_def internal_insert_at_def Let_def ac_simps)
qed (simp add: leaf_page_def leaf_insert_at_def slotted_def)

lemma delete_from_leaf_ok:
  assumes pg: "leaf_page r es buf" and idx: "idx < length es"
  obtains buf' where "delete_from_leaf idx buf = Inr buf'"
    "leaf_page r (take idx es @ drop (Suc idx) es) buf'"
proof -
  from pg have sl: "slotted Leaf (map leaf_cell es) buf" by (simp add: leaf_page_def)
  then have h: "kind_of buf = Inr Leaf" "cell_count buf = length es" by (simp_all add: slotted_def)
  show thesis
  proof (rule slotted_delete [OF sl, of idx])
    show "idx < length (map leaf_cell es)" using idx by simp
    fix b f
    assume a: "shift_slots_left idx buf = Inr b" "f = set_cell_count (length (map leaf_cell es) - 1) b"
      "slotted Leaf (take idx (map leaf_cell es) @ drop (Suc idx) (map leaf_cell es)) f"
      "\<And>j m. 12 \<le> j \<Longrightarrow> j + m \<le> header_size Leaf \<Longrightarrow> subslice j m f = subslice j m buf"
    have "delete_from_leaf idx buf = Inr f"
      using a(1,2) idx by (simp add: delete_from_leaf_def h Let_def)
    moreover have "right_sibling f = right_sibling buf"
      using a(4) [of 16 8] by (simp add: right_sibling_def bt_offsets)
    ultimately show thesis
      using that a(3) pg by (simp add: leaf_page_def take_map drop_map)
  qed
qed

section \<open>New and rebuilt pages\<close>

lemma slotted_Nil:
  "length buf = PAGE_SIZE \<Longrightarrow> kind_of buf = Inr k \<Longrightarrow> cell_count buf = 0 \<Longrightarrow>
   cell_content_begin buf = PAGE_SIZE \<Longrightarrow> slotted k [] buf"
  using header_size_bounds(2) [of k] by (simp add: slotted_def PAGE_SIZE_def)

lemma init_leaf_ok:
  "leaf_page r [] (set_right_sibling r init_leaf)"
  "cell_content_begin (set_right_sibling r init_leaf) = PAGE_SIZE"
proof -
  have P: "PAGE_SIZE = 8192" by (rule PAGE_SIZE_def)
  let ?b = "set_right_sibling r init_leaf"
  have "length ?b = PAGE_SIZE" "kind_of ?b = Inr Leaf" "cell_count ?b = 0"
    and cb: "cell_content_begin ?b = PAGE_SIZE" and rs: "right_sibling ?b = r"
    by (simp_all add: set_right_sibling_def init_leaf_def Let_def bt_offsets P kind_of_def
        BT_MAGIC_def BT_VERSION_def subslice_overwrite_same subslice_overwrite_before
        subslice_overwrite_after overwrite_nth cell_count_def cell_content_begin_def right_sibling_def
        del: replicate.simps)
  then show "leaf_page r [] ?b" "cell_content_begin ?b = PAGE_SIZE"
    by (simp_all add: leaf_page_def slotted_Nil)
qed

lemma init_leaf_page: "leaf_page 0 [] init_leaf"
proof -
  have P: "PAGE_SIZE = 8192" by (rule PAGE_SIZE_def)
  have "length init_leaf = PAGE_SIZE" "kind_of init_leaf = Inr Leaf" "cell_count init_leaf = 0"
    "cell_content_begin init_leaf = PAGE_SIZE" "right_sibling init_leaf = 0"
    by (simp_all add: init_leaf_def Let_def bt_offsets P kind_of_def
        BT_MAGIC_def BT_VERSION_def subslice_overwrite_same subslice_overwrite_before
        subslice_overwrite_after overwrite_nth cell_count_def cell_content_begin_def right_sibling_def
        del: replicate.simps)
  then show ?thesis by (simp add: leaf_page_def slotted_Nil)
qed

lemma init_internal_ok:
  "internal_page l [] (init_internal l)" "cell_content_begin (init_internal l) = PAGE_SIZE"
proof -
  have P: "PAGE_SIZE = 8192" by (rule PAGE_SIZE_def)
  let ?b = "init_internal l"
  have "length ?b = PAGE_SIZE" "kind_of ?b = Inr Internal" "cell_count ?b = 0"
    and cb: "cell_content_begin ?b = PAGE_SIZE" and rs: "right_sibling ?b = 0"
    and lm: "from_le (subslice OFF_LEFTMOST_CHILD 8 ?b) = l"
    by (simp_all add: init_internal_def Let_def bt_offsets P kind_of_def
        BT_MAGIC_def BT_VERSION_def subslice_overwrite_same subslice_overwrite_before
        subslice_overwrite_after overwrite_nth cell_count_def cell_content_begin_def right_sibling_def
        del: replicate.simps)
  then show "internal_page l [] ?b" "cell_content_begin ?b = PAGE_SIZE"
    by (simp_all add: internal_page_def slotted_Nil)
qed

text \<open>The space a list of entries takes in a page, slots included.\<close>

definition entries_size :: "(bytes \<times> 'a) list \<Rightarrow> nat" where
  "entries_size es = (\<Sum>e \<leftarrow> es. cell_size (fst e) + 2)"

lemma entries_size_simps [simp]:
  "entries_size [] = 0"
  "entries_size (e # es) = cell_size (fst e) + 2 + entries_size es"
  "entries_size (es @ fs) = entries_size es + entries_size fs"
  by (simp_all add: entries_size_def)

lemma entries_size_sum: "entries_size es = (\<Sum>e \<leftarrow> es. cell_size (fst e)) + 2 * length es"
  by (induction es) simp_all

lemma entries_size_slotted:
  assumes "slotted k (map f es) buf" "\<And>e. length (f e) = cell_size (fst e)"
  shows "header_size k + entries_size es \<le> PAGE_SIZE"
proof -
  have "(length \<circ> f) = (\<lambda>e. cell_size (fst e))" using assms(2) by auto
  then show ?thesis using assms(1) by (simp add: slotted_def entries_size_sum)
qed

lemma leaf_insert_all_ok:
  assumes "leaf_page r acc buf" "cell_content_begin buf + (\<Sum>e \<leftarrow> acc. cell_size (fst e)) = PAGE_SIZE"
  shows "if COMMON_HEADER_SIZE + entries_size (acc @ es) \<le> PAGE_SIZE
    then \<exists>buf'. leaf_insert_all (length acc) es buf = Inr buf' \<and> leaf_page r (acc @ es) buf'
    else is_panic (leaf_insert_all (length acc) es buf)"
  using assms
proof (induction es arbitrary: acc buf)
  case Nil
  then have "COMMON_HEADER_SIZE + entries_size acc \<le> PAGE_SIZE"
    using entries_size_slotted [of Leaf leaf_cell acc buf] by (simp add: leaf_page_def)
  with Nil show ?case by simp
next
  case (Cons e es)
  obtain k v where e: "e = (k, v)" by fastforce
  have cb: "cell_content_begin buf + (entries_size acc - 2 * length acc) = PAGE_SIZE"
    using Cons.prems(2) by (simp add: entries_size_sum)
  show ?case
  proof (cases "length k < 2 ^ 32 \<and> COMMON_HEADER_SIZE + entries_size (acc @ [e]) \<le> PAGE_SIZE")
    case True
    then have fits: "COMMON_HEADER_SIZE + 2 * length acc + 2 + cell_size k \<le> cell_content_begin buf"
      using Cons.prems(2) by (simp add: e entries_size_sum)
    show ?thesis
    proof (rule leaf_insert_at_ok [OF Cons.prems(1) order.refl conjunct1 [OF True] fits, of v])
      fix b assume b: "leaf_insert_at (length acc) k v buf = Inr b"
        "leaf_page r (take (length acc) acc @ (k, v) # drop (length acc) acc) b"
        "cell_content_begin b = cell_content_begin buf - cell_size k"
      have "cell_content_begin b + (\<Sum>e \<leftarrow> acc @ [e]. cell_size (fst e)) = PAGE_SIZE"
        using b(3) Cons.prems(2) fits by (simp add: e)
      from Cons.IH [OF _ this] b show ?thesis by (simp add: e unwrap_def split: if_splits)
    qed
  next
    case False
    have "\<exists>x. leaf_insert_at (length acc) k v buf = Inl x"
    proof (cases "length k < 2 ^ 32")
      case True
      with False Cons.prems(2) have "cell_content_begin buf < COMMON_HEADER_SIZE + 2 * length acc + 2 + cell_size k"
        by (simp add: e entries_size_sum)
      with True insert_at_full(1) [OF Cons.prems(1)] show ?thesis by blast
    qed (use insert_at_full(3) [OF Cons.prems(1)] in force)
    moreover have "PAGE_SIZE < COMMON_HEADER_SIZE + entries_size (acc @ e # es)"
      using False by (auto simp: e cell_size_def PAGE_SIZE_def)
    ultimately show ?thesis by (auto simp: e unwrap_def)
  qed
qed

lemma rebuild_leaf_ok:
  assumes "COMMON_HEADER_SIZE + entries_size es \<le> PAGE_SIZE"
  obtains buf where "rebuild_leaf r es = Inr buf" "leaf_page r es buf"
  using leaf_insert_all_ok [OF init_leaf_ok(1), of r es] init_leaf_ok(2) assms
  by (auto simp: rebuild_leaf_def)

lemma rebuild_leaf_panics:
  "PAGE_SIZE < COMMON_HEADER_SIZE + entries_size es \<Longrightarrow> is_panic (rebuild_leaf r es)"
  using leaf_insert_all_ok [OF init_leaf_ok(1), of r es] init_leaf_ok(2)
  by (simp add: rebuild_leaf_def)

lemma internal_insert_all_ok:
  assumes "internal_page l acc buf" "cell_content_begin buf + (\<Sum>e \<leftarrow> acc. cell_size (fst e)) = PAGE_SIZE"
  shows "if INTERNAL_HEADER_SIZE + entries_size (acc @ es) \<le> PAGE_SIZE
    then \<exists>buf'. internal_insert_all (length acc) es buf = Inr buf' \<and> internal_page l (acc @ es) buf'
    else \<exists>m. internal_insert_all (length acc) es buf = Inl (WalProtocol m)"
  using assms
proof (induction es arbitrary: acc buf)
  case Nil
  then have "INTERNAL_HEADER_SIZE + entries_size acc \<le> PAGE_SIZE"
    using entries_size_slotted [of Internal internal_cell acc buf] by (simp add: internal_page_def)
  with Nil show ?case by simp
next
  case (Cons e es)
  obtain k v where e: "e = (k, v)" by fastforce
  show ?case
  proof (cases "length k < 2 ^ 32 \<and> INTERNAL_HEADER_SIZE + entries_size (acc @ [e]) \<le> PAGE_SIZE")
    case True
    then have fits: "INTERNAL_HEADER_SIZE + 2 * length acc + 2 + cell_size k \<le> cell_content_begin buf"
      using Cons.prems(2) by (simp add: e entries_size_sum)
    show ?thesis
    proof (rule internal_insert_at_ok [OF Cons.prems(1) order.refl conjunct1 [OF True] fits, of v])
      fix b assume b: "internal_insert_at (length acc) k v buf = Inr b"
        "internal_page l (take (length acc) acc @ (k, v) # drop (length acc) acc) b"
        "cell_content_begin b = cell_content_begin buf - cell_size k"
      have "cell_content_begin b + (\<Sum>e \<leftarrow> acc @ [e]. cell_size (fst e)) = PAGE_SIZE"
        using b(3) Cons.prems(2) fits by (simp add: e)
      from Cons.IH [OF _ this] b show ?thesis by (simp add: e split: if_splits)
    qed
  next
    case False
    have "\<exists>m. internal_insert_at (length acc) k v buf = Inl (WalProtocol m)"
    proof (cases "length k < 2 ^ 32")
      case True
      with False Cons.prems(2) have "cell_content_begin buf < INTERNAL_HEADER_SIZE + 2 * length acc + 2 + cell_size k"
        by (simp add: e entries_size_sum)
      with True insert_at_full(2) [OF Cons.prems(1)] show ?thesis by blast
    qed (use Cons.prems(1) in \<open>simp add: internal_insert_at_def internal_page_def slotted_def\<close>)
    moreover have "PAGE_SIZE < INTERNAL_HEADER_SIZE + entries_size (acc @ e # es)"
      using False by (auto simp: e cell_size_def PAGE_SIZE_def)
    ultimately show ?thesis by (auto simp: e)
  qed
qed

lemma rebuild_internal_ok:
  assumes "INTERNAL_HEADER_SIZE + entries_size es \<le> PAGE_SIZE"
  obtains buf where "rebuild_internal l es = Inr buf" "internal_page l es buf"
  using internal_insert_all_ok [OF init_internal_ok(1), of l es] init_internal_ok(2) assms
  by (auto simp: rebuild_internal_def)

lemma rebuild_internal_full:
  "PAGE_SIZE < INTERNAL_HEADER_SIZE + entries_size es \<Longrightarrow> \<exists>m. rebuild_internal l es = Inl (WalProtocol m)"
  using internal_insert_all_ok [OF init_internal_ok(1), of l es] init_internal_ok(2)
  by (simp add: rebuild_internal_def)

section \<open>Searching a page\<close>

lemma length_takeWhile_eq:
  "j \<le> length xs \<Longrightarrow> (\<And>i. i < j \<Longrightarrow> P (xs ! i)) \<Longrightarrow> (j < length xs \<Longrightarrow> \<not> P (xs ! j)) \<Longrightarrow>
   length (takeWhile P xs) = j"
proof (induction xs arbitrary: j)
  case (Cons x xs)
  show ?case
  proof (cases j)
    case 0
    with Cons.prems(3) show ?thesis by simp
  next
    case (Suc i)
    with Cons.prems(2) [of 0] Cons.prems(2) [of "Suc _"] Cons.prems(1,3) Cons.IH [of i] show ?thesis
      by simp
  qed
qed simp

lemma sorted_fst_mono:
  "sorted (map fst es) \<Longrightarrow> i \<le> j \<Longrightarrow> j < length es \<Longrightarrow> fst (es ! i) \<le> fst (es ! j)"
  using sorted_nth_mono [of "map fst es" i j] by simp

lemma lower_bound_loop_ok:
  assumes pg: "leaf_page r es buf" and s: "sorted (map fst es)"
  shows "lo \<le> hi \<Longrightarrow> hi \<le> length es \<Longrightarrow> (\<And>i. i < lo \<Longrightarrow> fst (es ! i) < t) \<Longrightarrow>
    (\<And>i. hi \<le> i \<Longrightarrow> i < length es \<Longrightarrow> \<not> fst (es ! i) < t) \<Longrightarrow>
    lower_bound_loop buf t lo hi = Inr (length (takeWhile (\<lambda>e. fst e < t) es))"
proof (induction "hi - lo" arbitrary: lo hi rule: less_induct)
  case less
  show ?case
  proof (cases "lo < hi")
    case False
    with less.prems have "lo = hi" by simp
    with less.prems have "length (takeWhile (\<lambda>e. fst e < t) es) = lo"
      by (intro length_takeWhile_eq) auto
    with False show ?thesis by (simp add: lower_bound_loop.simps)
  next
    case True
    let ?m = "(lo + hi) div 2"
    have m: "lo \<le> ?m" "?m < hi" "?m < length es" using True less.prems(2) by auto
    obtain k v where e: "es ! ?m = (k, v)" by fastforce
    have step: "lower_bound_loop buf t lo hi =
        (if k < t then lower_bound_loop buf t (?m + 1) hi else lower_bound_loop buf t lo ?m)"
      using True leaf_cell_ok [OF pg m(3)] by (subst lower_bound_loop.simps) (simp add: e Let_def)
    show ?thesis
    proof (cases "k < t")
      case lt: True
      have "fst (es ! i) < t" if "i < ?m + 1" for i
        using sorted_fst_mono [OF s, of i ?m] that m lt by (simp add: e)
      with less.hyps [of hi "?m + 1"] less.prems m step lt show ?thesis by auto
    next
      case ge: False
      have "\<not> fst (es ! i) < t" if "?m \<le> i" "i < length es" for i
        using sorted_fst_mono [OF s, of ?m i] that ge by (simp add: e)
      with less.hyps [of ?m lo] less.prems m step ge show ?thesis by auto
    qed
  qed
qed

lemma leaf_lower_bound_ok:
  assumes "leaf_page r es buf" "sorted (map fst es)"
  shows "leaf_lower_bound buf t = Inr (length (takeWhile (\<lambda>e. fst e < t) es))"
proof -
  have "cell_count buf = length es" using assms(1) by (simp add: leaf_page_def slotted_def)
  then show ?thesis
    unfolding leaf_lower_bound_def by (intro lower_bound_loop_ok [OF assms]) simp_all
qed

lemma upper_bound_loop_ok:
  assumes pg: "internal_page l es buf" and s: "sorted (map fst es)"
  shows "lo \<le> hi \<Longrightarrow> hi \<le> length es \<Longrightarrow> (\<And>i. i < lo \<Longrightarrow> fst (es ! i) \<le> t) \<Longrightarrow>
    (\<And>i. hi \<le> i \<Longrightarrow> i < length es \<Longrightarrow> \<not> fst (es ! i) \<le> t) \<Longrightarrow>
    upper_bound_loop buf t lo hi = Inr (length (takeWhile (\<lambda>e. fst e \<le> t) es))"
proof (induction "hi - lo" arbitrary: lo hi rule: less_induct)
  case less
  show ?case
  proof (cases "lo < hi")
    case False
    with less.prems have "lo = hi" by simp
    with less.prems have "length (takeWhile (\<lambda>e. fst e \<le> t) es) = lo"
      by (intro length_takeWhile_eq) auto
    with False show ?thesis by (simp add: upper_bound_loop.simps)
  next
    case True
    let ?m = "(lo + hi) div 2"
    have m: "lo \<le> ?m" "?m < hi" "?m < length es" using True less.prems(2) by auto
    obtain k v where e: "es ! ?m = (k, v)" by fastforce
    have step: "upper_bound_loop buf t lo hi =
        (if k \<le> t then upper_bound_loop buf t (?m + 1) hi else upper_bound_loop buf t lo ?m)"
      using True internal_cell_ok [OF pg m(3)] by (subst upper_bound_loop.simps) (simp add: e Let_def)
    show ?thesis
    proof (cases "k \<le> t")
      case lt: True
      have "fst (es ! i) \<le> t" if "i < ?m + 1" for i
        using sorted_fst_mono [OF s, of i ?m] that m lt by (simp add: e)
      with less.hyps [of hi "?m + 1"] less.prems m step lt show ?thesis by auto
    next
      case ge: False
      have "\<not> fst (es ! i) \<le> t" if "?m \<le> i" "i < length es" for i
        using sorted_fst_mono [OF s, of ?m i] that ge by (simp add: e)
      with less.hyps [of ?m lo] less.prems m step ge show ?thesis by auto
    qed
  qed
qed

text \<open>The child for a key: the one after the last separator that is not above it.\<close>

lemma internal_child_for_key_ok:
  assumes pg: "internal_page l es buf" and s: "sorted (map fst es)"
    and n: "n = length (takeWhile (\<lambda>e. fst e \<le> t) es)"
  shows "internal_child_for_key buf t = Inr ((l # map snd es) ! n, n)"
proof -
  have h: "kind_of buf = Inr Internal" "cell_count buf = length es"
    using pg by (simp_all add: internal_page_def slotted_def)
  have "upper_bound_loop buf t 0 (length es) = Inr n"
    unfolding n by (rule upper_bound_loop_ok [OF pg s]) simp_all
  moreover have "n \<le> length es" by (simp add: n length_takeWhile_le)
  moreover have "leftmost_child buf = Inr l" using pg h by (simp add: internal_page_def leftmost_child_def)
  ultimately show ?thesis
    using internal_cell_ok [OF pg, of "n - 1"]
    by (cases n) (auto simp: internal_child_for_key_def h split_def)
qed

end
