(* ===== verification/BTree.thy ===== *)
theory BTree
  imports BTreePage Dicts
begin

text \<open>
  The B-tree of nervusdb-storage/src/index/btree.rs: descent, insertion with page splits,
  deletion, cursors over the chain of leaves, and the traversal that vacuum uses. A tree is the
  number of its root page. The loops that follow page numbers read from the file are partial
  functions, \<open>None\<close> when they do not return; that they return on every tree the operations
  build is part of the theorems.
\<close>

section \<open>Definitions\<close>

subsection \<open>The standard library\<close>

datatype ordering = Less | Equal | Greater

definition cmp :: "'a::linorder \<Rightarrow> 'a \<Rightarrow> ordering" where
  "cmp a b = (if a < b then Less else if a = b then Equal else Greater)"

text \<open>The order of pairs.\<close>

definition cmp_pair :: "bytes \<times> u64 \<Rightarrow> bytes \<times> u64 \<Rightarrow> ordering" where
  "cmp_pair a b = (if fst a = fst b then cmp (snd a) (snd b) else cmp (fst a) (fst b))"

text \<open>
  \<open>slice::binary_search_by\<close>: \<open>Inr i\<close> is \<open>Ok(i)\<close>, \<open>Inl i\<close> is \<open>Err(i)\<close>. The comparison may panic,
  so it returns a result.
\<close>

function bsearch_loop :: "('a \<Rightarrow> ordering result) \<Rightarrow> 'a list \<Rightarrow> nat \<Rightarrow> nat \<Rightarrow> nat result" where
  "bsearch_loop f xs base sz =
    (if 1 < sz then
       let half = sz div 2; mid = base + half
       in rbind (f (xs ! mid)) (\<lambda>c. bsearch_loop f xs (if c = Greater then base else mid) (sz - half))
     else Inr base)"
  by pat_completeness auto
termination
  by (relation "measure (\<lambda>(f, xs, base, sz). sz)") auto

declare bsearch_loop.simps [simp del]

definition binary_search_by :: "('a \<Rightarrow> ordering result) \<Rightarrow> 'a list \<Rightarrow> (nat + nat) result" where
  "binary_search_by f xs =
    (if xs = [] then Inr (Inl 0)
     else rbind (bsearch_loop f xs 0 (length xs)) (\<lambda>base.
          rbind (f (xs ! base)) (\<lambda>c.
          Inr (if c = Equal then Inr base else Inl (base + (if c = Less then 1 else 0))))))"

text \<open>\<open>unwrap_or_else(|p| p)\<close>, and \<open>Vec::insert\<close>, which panics past the end.\<close>

definition either_pos :: "nat + nat \<Rightarrow> nat" where
  "either_pos r = (case r of Inl i \<Rightarrow> i | Inr i \<Rightarrow> i)"

definition vec_insert :: "nat \<Rightarrow> 'a \<Rightarrow> 'a list \<Rightarrow> 'a list result" where
  "vec_insert i x xs =
     (if i \<le> length xs then Inr (take i xs @ x # drop i xs)
      else Inl (Panic ''insertion index should be <= len''))"

fun collect_results :: "('a \<Rightarrow> 'b result) \<Rightarrow> 'a list \<Rightarrow> 'b list result" where
  "collect_results f [] = Inr []"
| "collect_results f (x # xs) =
     rbind (f x) (\<lambda>y. rbind (collect_results f xs) (\<lambda>ys. Inr (y # ys)))"

subsection \<open>Creating and inserting\<close>

definition btree_create :: "pager \<Rightarrow> (u64 \<times> pager) result" where
  "btree_create p =
    rbind (allocate_page p) (\<lambda>(root, p).
    rbind (write_page root init_leaf p) (\<lambda>p. Inr (root, p)))"

text \<open>
  The path is a stack of \<open>PathEntry\<close> values, the parent of the current page first. The result
  of an insertion is the new root.
\<close>

type_synonym path_entry = "u64 \<times> nat"

definition split_internal ::
  "u64 \<Rightarrow> bytes list \<Rightarrow> u64 list \<Rightarrow> pager \<Rightarrow> (bytes \<times> u64 \<times> pager) result" where
  "split_internal parent_id keys children p =
    (let mid = length keys div 2;
         promote = keys ! mid;
         left_keys = take mid keys;
         right_keys = drop (mid + 1) keys;
         left_children = take (mid + 1) children;
         right_children = drop (mid + 1) children
     in rbind (allocate_page p) (\<lambda>(right_page_id, p).
        rbind (rebuild_internal (left_children ! 0) (zip left_keys (drop 1 left_children))) (\<lambda>buf.
        rbind (rebuild_internal (right_children ! 0) (zip right_keys (drop 1 right_children))) (\<lambda>right_buf.
        rbind (write_page parent_id buf p) (\<lambda>p.
        rbind (write_page right_page_id right_buf p) (\<lambda>p.
        Inr (promote, right_page_id, p)))))))"

fun insert_into_parent ::
  "path_entry list \<Rightarrow> u64 \<Rightarrow> bytes \<Rightarrow> u64 \<Rightarrow> u64 \<Rightarrow> pager \<Rightarrow> (u64 \<times> pager) result" where
  "insert_into_parent [] left_id sep_key right_id root p =
     rbind (allocate_page p) (\<lambda>(new_root, p).
     rbind (internal_insert_at 0 sep_key right_id (init_internal left_id)) (\<lambda>buf.
     rbind (write_page new_root buf p) (\<lambda>p. Inr (new_root, p))))"
| "insert_into_parent ((parent_id, child_pos) # path) left_id sep_key right_id root p =
     rbind (read_page p parent_id) (\<lambda>buf.
     rbind (kind_of buf) (\<lambda>kind.
     if kind \<noteq> Internal then Inl (WalProtocol ''index: parent not internal'')
     else case internal_insert_at child_pos sep_key right_id buf of
       Inr buf \<Rightarrow> rbind (write_page parent_id buf p) (\<lambda>p. Inr (root, p))
     | Inl e \<Rightarrow>
         if is_panic (Inl e :: unit result) then Inl e
         else
           rbind (leftmost_child buf) (\<lambda>leftmost.
           rbind (collect_results (internal_cell_key_and_right_child buf) [0..<cell_count buf]) (\<lambda>cells.
           let keys = map fst cells; children = leftmost # map snd cells
           in rbind (vec_insert child_pos sep_key keys) (\<lambda>keys.
              rbind (vec_insert (child_pos + 1) right_id children) (\<lambda>children.
              rbind (split_internal parent_id keys children p) (\<lambda>(promote, right_page_id, p).
              insert_into_parent path parent_id promote right_page_id root p)))))))"

definition insert_split_leaf ::
  "bytes \<Rightarrow> u64 \<Rightarrow> path_entry list \<Rightarrow> u64 \<Rightarrow> bytes \<Rightarrow> u64 \<Rightarrow> pager \<Rightarrow> (u64 \<times> pager) result" where
  "insert_split_leaf key payload path cur buf root p =
    (let old_right = right_sibling buf
     in rbind (collect_results (\<lambda>i. unwrap (leaf_cell_key_and_payload buf i)) [0..<cell_count buf]) (\<lambda>entries.
        rbind (binary_search_by (\<lambda>(k, _). Inr (cmp k key)) entries) (\<lambda>pos.
        rbind (vec_insert (either_pos pos) (key, payload) entries) (\<lambda>entries.
        let mid = length entries div 2;
            left_entries = take mid entries;
            right_entries = drop mid entries;
            sep_key = fst (right_entries ! 0)
        in rbind (allocate_page p) (\<lambda>(right_id, p).
           rbind (rebuild_leaf old_right right_entries) (\<lambda>right_buf.
           rbind (rebuild_leaf right_id left_entries) (\<lambda>buf.
           rbind (write_page cur buf p) (\<lambda>p.
           rbind (write_page right_id right_buf p) (\<lambda>p.
           insert_into_parent path cur sep_key right_id root p)))))))))"

definition insert_at_leaf ::
  "bytes \<Rightarrow> u64 \<Rightarrow> path_entry list \<Rightarrow> u64 \<Rightarrow> bytes \<Rightarrow> u64 \<Rightarrow> pager \<Rightarrow> (u64 \<times> pager) result" where
  "insert_at_leaf key payload path cur buf root p =
    rbind (leaf_lower_bound buf key) (\<lambda>idx.
    case leaf_insert_at idx key payload buf of
      Inr buf \<Rightarrow> rbind (write_page cur buf p) (\<lambda>p. Inr (root, p))
    | Inl e \<Rightarrow>
        if is_panic (Inl e :: unit result) then Inl e else insert_split_leaf key payload path cur buf root p)"

partial_function (option) insert_loop ::
  "bytes \<Rightarrow> u64 \<Rightarrow> path_entry list \<Rightarrow> u64 \<Rightarrow> u64 \<Rightarrow> pager \<Rightarrow> (u64 \<times> pager) result option" where
  "insert_loop key payload path cur root p =
    (case rbind (read_page p cur) (\<lambda>buf. rbind (kind_of buf) (\<lambda>k. Inr (buf, k))) of
       Inl e \<Rightarrow> Some (Inl e)
     | Inr (buf, Leaf) \<Rightarrow> Some (insert_at_leaf key payload path cur buf root p)
     | Inr (buf, Internal) \<Rightarrow>
         (case internal_child_for_key buf key of
            Inl e \<Rightarrow> Some (Inl e)
          | Inr (child, child_pos) \<Rightarrow>
              insert_loop key payload ((cur, child_pos) # path) child root p))"

definition btree_insert :: "bytes \<Rightarrow> u64 \<Rightarrow> u64 \<Rightarrow> pager \<Rightarrow> (u64 \<times> pager) result option" where
  "btree_insert key payload root p = insert_loop key payload [] root root p"

subsection \<open>Searching and deleting\<close>

text \<open>The descent that \<open>delete\<close> and \<open>cursor_lower_bound\<close> share: the leaf for a key and its bytes.\<close>

partial_function (option) descend :: "pager \<Rightarrow> bytes \<Rightarrow> u64 \<Rightarrow> (u64 \<times> bytes) result option" where
  "descend p key cur =
    (case rbind (read_page p cur) (\<lambda>buf. rbind (kind_of buf) (\<lambda>k. Inr (buf, k))) of
       Inl e \<Rightarrow> Some (Inl e)
     | Inr (buf, Leaf) \<Rightarrow> Some (Inr (cur, buf))
     | Inr (buf, Internal) \<Rightarrow>
         (case internal_child_for_key buf key of
            Inl e \<Rightarrow> Some (Inl e)
          | Inr (child, _) \<Rightarrow> descend p key child))"

definition delete_in_leaf :: "bytes \<Rightarrow> u64 \<Rightarrow> u64 \<Rightarrow> bytes \<Rightarrow> pager \<Rightarrow> (bool \<times> pager) result" where
  "delete_in_leaf key payload cur buf p =
    rbind (binary_search_by
      (\<lambda>i. rbind (unwrap (leaf_cell_key_and_payload buf i)) (\<lambda>e. Inr (cmp_pair e (key, payload))))
      [0..<cell_count buf]) (\<lambda>r.
    case r of
      Inr idx \<Rightarrow>
        rbind (delete_from_leaf idx buf) (\<lambda>buf.
        rbind (write_page cur buf p) (\<lambda>p. Inr (True, p)))
    | Inl _ \<Rightarrow> Inr (False, p))"

definition btree_delete :: "bytes \<Rightarrow> u64 \<Rightarrow> u64 \<Rightarrow> pager \<Rightarrow> (bool \<times> pager) result option" where
  "btree_delete key payload root p =
    (case descend p key root of
       None \<Rightarrow> None
     | Some r \<Rightarrow> Some (rbind r (\<lambda>(cur, buf). delete_in_leaf key payload cur buf p)))"

subsection \<open>Cursors\<close>

record cursor =
  cu_leaf :: u64
  cu_buf :: bytes
  cu_slot :: u16

partial_function (option) skip_leaves :: "pager \<Rightarrow> u64 \<Rightarrow> bytes \<Rightarrow> u16 \<Rightarrow> cursor result option" where
  "skip_leaves p leaf_id leaf_buf slot =
    (let cnt = (of_nat (cell_count leaf_buf) :: u16);
         next = right_sibling leaf_buf
     in if cnt \<noteq> 0 \<and> slot < cnt \<or> next = 0
        then Some (Inr \<lparr>cu_leaf = leaf_id, cu_buf = leaf_buf, cu_slot = slot\<rparr>)
        else case read_page p next of
          Inl e \<Rightarrow> Some (Inl e)
        | Inr buf \<Rightarrow> skip_leaves p next buf 0)"

definition cursor_lower_bound :: "pager \<Rightarrow> u64 \<Rightarrow> bytes \<Rightarrow> cursor result option" where
  "cursor_lower_bound p root key =
    (case descend p key root of
       None \<Rightarrow> None
     | Some (Inl e) \<Rightarrow> Some (Inl e)
     | Some (Inr (leaf_id, buf)) \<Rightarrow>
         (case leaf_lower_bound buf key of
            Inl e \<Rightarrow> Some (Inl e)
          | Inr slot \<Rightarrow> skip_leaves p leaf_id buf (of_nat slot)))"

definition cursor_is_valid :: "cursor \<Rightarrow> bool" where
  "cursor_is_valid c \<longleftrightarrow> cu_slot c < of_nat (cell_count (cu_buf c))"

definition cursor_key :: "cursor \<Rightarrow> bytes result" where
  "cursor_key c =
    rbind (leaf_cell_key_and_payload (cu_buf c) (unat (cu_slot c))) (\<lambda>(k, _). Inr k)"

definition cursor_payload :: "cursor \<Rightarrow> u64 result" where
  "cursor_payload c =
    rbind (leaf_cell_key_and_payload (cu_buf c) (unat (cu_slot c))) (\<lambda>(_, v). Inr v)"

definition cursor_advance :: "pager \<Rightarrow> cursor \<Rightarrow> (bool \<times> cursor) result" where
  "cursor_advance p c =
    (let cnt = (of_nat (cell_count (cu_buf c)) :: u16)
     in if cu_slot c = - 1 then Inl (Panic ''attempt to add with overflow'')
        else if cu_slot c + 1 < cnt then Inr (True, c\<lparr>cu_slot := cu_slot c + 1\<rparr>)
        else
          let next = right_sibling (cu_buf c)
          in if next = 0 then Inr (False, c\<lparr>cu_slot := cnt\<rparr>)
             else rbind (read_page p next) (\<lambda>buf.
               let c = \<lparr>cu_leaf = next, cu_buf = buf, cu_slot = 0\<rparr>
               in Inr (cursor_is_valid c, c)))"

partial_function (option) scan_loop ::
  "pager \<Rightarrow> cursor \<Rightarrow> (bytes \<times> u64) list \<Rightarrow> (bytes \<times> u64) list result option" where
  "scan_loop p c out =
    (if \<not> cursor_is_valid c then Some (Inr out)
     else case rbind (cursor_key c) (\<lambda>k. rbind (cursor_payload c) (\<lambda>v.
         rbind (cursor_advance p c) (\<lambda>(b, c). Inr (k, v, b, c)))) of
       Inl e \<Rightarrow> Some (Inl e)
     | Inr (k, v, b, c) \<Rightarrow>
         if b then scan_loop p c (out @ [(k, v)]) else Some (Inr (out @ [(k, v)])))"

definition scan_all :: "pager \<Rightarrow> u64 \<Rightarrow> (bytes \<times> u64) list result option" where
  "scan_all p root =
    (case cursor_lower_bound p root [] of
       None \<Rightarrow> None
     | Some (Inl e) \<Rightarrow> Some (Inl e)
     | Some (Inr c) \<Rightarrow> scan_loop p c [])"

subsection \<open>The pages of a tree\<close>

definition right_link :: "bytes \<Rightarrow> u64 list" where
  "right_link buf = (if right_sibling buf \<noteq> 0 then [right_sibling buf] else [])"

definition child_links :: "bytes \<Rightarrow> u64 list result" where
  "child_links buf =
    rbind (leftmost_child buf) (\<lambda>left.
    if left = 0 then Inl (WalProtocol ''index page: zero leftmost child'')
    else rbind (collect_results (\<lambda>i.
        rbind (internal_cell_key_and_right_child buf i) (\<lambda>(_, child).
        if child = 0 then Inl (WalProtocol ''index page: zero right child'') else Inr child))
        [0..<cell_count buf]) (\<lambda>children.
      Inr (left # children)))"

definition leaf_payloads :: "bytes \<Rightarrow> u64 list result" where
  "leaf_payloads buf =
    collect_results (\<lambda>i. rbind (leaf_cell_key_and_payload buf i) (\<lambda>(_, v). Inr v)) [0..<cell_count buf]"

text \<open>
  The work list \<open>queue\<close> is first in, first out; \<open>out\<close> is a \<open>BTreeSet\<close>, a sorted list.
\<close>

function mark_loop ::
  "pager \<Rightarrow> u64 list \<Rightarrow> u64 list \<Rightarrow> u64 list option \<Rightarrow> (u64 list \<times> u64 list option) result" where
  "mark_loop p [] out payloads = Inr (out, payloads)"
| "mark_loop p (page_id # queue) out payloads =
    (if List.member out page_id then mark_loop p queue out payloads
     else
       let out = bs_insert page_id out
       in rbind (read_page p page_id) (\<lambda>buf.
          rbind (kind_of buf) (\<lambda>kind.
          case kind of
            Leaf \<Rightarrow>
              let queue = queue @ right_link buf
              in (case payloads of
                    None \<Rightarrow> mark_loop p queue out None
                  | Some ps \<Rightarrow> rbind (leaf_payloads buf) (\<lambda>vs. mark_loop p queue out (Some (ps @ vs))))
          | Internal \<Rightarrow>
              rbind (child_links buf) (\<lambda>children.
              mark_loop p (queue @ right_link buf @ children) out payloads))))"
  by pat_completeness auto
termination
  by (relation "measures [\<lambda>(p, queue, out, payloads). card (- set out),
        \<lambda>(p, queue, out, payloads). length queue]")
     (auto intro!: psubset_card_mono)

declare mark_loop.simps [simp del]

definition mark_reachable_pages ::
  "pager \<Rightarrow> u64 \<Rightarrow> u64 list \<Rightarrow> u64 list option \<Rightarrow> (u64 list \<times> u64 list option) result" where
  "mark_reachable_pages p root out payloads =
     (if root = 0 then Inr (out, payloads) else mark_loop p [root] out payloads)"

section \<open>Binary search\<close>

fun rank :: "ordering \<Rightarrow> nat" where
  "rank Less = 0" | "rank Equal = 1" | "rank Greater = 2"

lemma rank_iff [simp]:
  "rank c = 0 \<longleftrightarrow> c = Less" "rank c = Suc 0 \<longleftrightarrow> c = Equal" "rank c = 2 \<longleftrightarrow> c = Greater"
  "2 \<le> rank c \<longleftrightarrow> c = Greater" "rank c \<le> 0 \<longleftrightarrow> c = Less"
  by (cases c; simp)+

lemma bsearch_loop_ok:
  assumes f: "\<And>i. i < length xs \<Longrightarrow> f (xs ! i) = Inr (c i)"
    and mono: "\<And>i j. i \<le> j \<Longrightarrow> j < length xs \<Longrightarrow> rank (c i) \<le> rank (c j)"
  shows "1 \<le> sz \<Longrightarrow> base + sz \<le> length xs \<Longrightarrow> base = 0 \<or> c base \<noteq> Greater \<Longrightarrow>
    (\<And>j. base + sz \<le> j \<Longrightarrow> j < length xs \<Longrightarrow> c j = Greater) \<Longrightarrow>
    \<exists>b < length xs. bsearch_loop f xs base sz = Inr b \<and> (b = 0 \<or> c b \<noteq> Greater) \<and>
      (\<forall>j. b < j \<longrightarrow> j < length xs \<longrightarrow> c j = Greater)"
proof (induction sz arbitrary: base rule: less_induct)
  case (less sz)
  show ?case
  proof (cases "1 < sz")
    case False
    with less.prems show ?thesis by (intro exI [of _ base]) (auto simp: bsearch_loop.simps)
  next
    case True
    let ?h = "sz div 2" and ?m = "base + sz div 2"
    have h: "0 < ?h" "?h < sz" "?m < length xs" using True less.prems(2) by auto
    have step: "bsearch_loop f xs base sz = bsearch_loop f xs (if c ?m = Greater then base else ?m) (sz - ?h)"
      by (subst bsearch_loop.simps) (simp only: True f [OF h(3)] Let_def rbind_simps if_True)
    show ?thesis
    proof (cases "c ?m = Greater")
      case G: True
      have "c j = Greater" if "base + (sz - ?h) \<le> j" "j < length xs" for j
      proof -
        have "?m \<le> j" using that(1) h by linarith
        from mono [OF this that(2)] G show ?thesis by (metis rank.simps(3) rank_iff(4))
      qed
      with less.IH [of "sz - ?h" base] less.prems h step G show ?thesis by auto
    next
      case G: False
      with less.IH [of "sz - ?h" ?m] less.prems h step show ?thesis by auto
    qed
  qed
qed

lemma binary_search_by_ok:
  assumes f: "\<And>i. i < length xs \<Longrightarrow> f (xs ! i) = Inr (c i)"
    and mono: "\<And>i j. i \<le> j \<Longrightarrow> j < length xs \<Longrightarrow> rank (c i) \<le> rank (c j)"
  obtains (found) i where "binary_search_by f xs = Inr (Inr i)" "i < length xs" "c i = Equal"
  | (missing) i where "binary_search_by f xs = Inr (Inl i)" "i \<le> length xs"
      "\<And>j. j < i \<Longrightarrow> c j = Less" "\<And>j. i \<le> j \<Longrightarrow> j < length xs \<Longrightarrow> c j = Greater"
proof (cases "xs = []")
  case True
  then show thesis by (intro missing [of 0]) (simp_all add: binary_search_by_def)
next
  case False
  have "\<exists>b < length xs. bsearch_loop f xs 0 (length xs) = Inr b \<and> (b = 0 \<or> c b \<noteq> Greater) \<and>
      (\<forall>j. b < j \<longrightarrow> j < length xs \<longrightarrow> c j = Greater)"
    using False by (intro bsearch_loop_ok [where f = f and xs = xs and c = c, OF f mono]) (auto simp: Suc_le_eq)
  then obtain b where b: "b < length xs" "bsearch_loop f xs 0 (length xs) = Inr b"
    "b = 0 \<or> c b \<noteq> Greater" "\<And>j. b < j \<Longrightarrow> j < length xs \<Longrightarrow> c j = Greater" by blast
  have r: "binary_search_by f xs = Inr (if c b = Equal then Inr b else Inl (b + (if c b = Less then 1 else 0)))"
    using False by (simp add: binary_search_by_def b f)
  show thesis
  proof (cases "c b")
    case Less
    have "c j = Less" if "j < b + 1" for j
      using mono [of j b] that b(1) Less by simp
    then show thesis using Less b r by (intro missing [of "b + 1"]) auto
  next
    case Equal
    then show thesis using b r by (intro found [of b]) simp_all
  next
    case Greater
    then have "b = 0" using b(3) by simp
    then show thesis using Greater b r by (intro missing [of 0]) (auto simp: le_less)
  qed
qed

lemma collect_results_ok:
  "(\<And>i. i < length ys \<Longrightarrow> f i = Inr (ys ! i)) \<Longrightarrow> n = length ys \<Longrightarrow> collect_results f [0..<n] = Inr ys"
proof -
  have "(\<And>x. x \<in> set xs \<Longrightarrow> f x = Inr (g x)) \<Longrightarrow> collect_results f xs = Inr (map g xs)" for xs g
    by (induction xs) simp_all
  from this [of "[0..<n]" "\<lambda>i. ys ! i"] show "(\<And>i. i < length ys \<Longrightarrow> f i = Inr (ys ! i)) \<Longrightarrow> n = length ys \<Longrightarrow> ?thesis"
    by (simp add: map_nth)
qed

text \<open>Looking a key up among sorted entries gives a position at which they stay sorted.\<close>

lemma search_entries:
  assumes "sorted (map fst es)"
  obtains r where "binary_search_by (\<lambda>(k, _). Inr (cmp k key)) es = Inr r"
    "either_pos r \<le> length es"
    "\<And>e. e \<in> set (take (either_pos r) es) \<Longrightarrow> fst e \<le> key"
    "\<And>e. e \<in> set (drop (either_pos r) es) \<Longrightarrow> key \<le> fst e"
proof -
  let ?c = "\<lambda>i. cmp (fst (es ! i)) key"
  have mono: "rank (?c i) \<le> rank (?c j)" if "i \<le> j" "j < length es" for i j
    using sorted_fst_mono [OF assms that] by (auto simp: cmp_def)
  have ts: "\<exists>j < i. e = es ! j" if "e \<in> set (take i es)" for e i
    using that by (auto simp: in_set_conv_nth)
  have ds: "\<exists>j. i \<le> j \<and> j < length es \<and> e = es ! j" if "e \<in> set (drop i es)" for e i
    using that by (auto simp: in_set_conv_nth) (metis add.commute le_add1 less_diff_conv)
  show thesis
  proof (rule binary_search_by_ok [of es "\<lambda>(k, _). Inr (cmp k key)" ?c])
    fix i assume i: "binary_search_by (\<lambda>(k, _). Inr (cmp k key)) es = Inr (Inr i)" "i < length es" "?c i = Equal"
    then have e: "fst (es ! i) = key" by (simp add: cmp_def split: if_splits)
    show thesis
    proof (rule that [OF i(1)])
      show "either_pos (Inr i) \<le> length es" using i(2) by (simp add: either_pos_def)
      show "fst x \<le> key" if "x \<in> set (take (either_pos (Inr i)) es)" for x
        using ts [of x i] that sorted_fst_mono [OF assms, of _ i] i(2) e by (auto simp: either_pos_def)
      show "key \<le> fst x" if "x \<in> set (drop (either_pos (Inr i)) es)" for x
        using ds [of x i] that sorted_fst_mono [OF assms, of i] e by (auto simp: either_pos_def)
    qed
  next
    fix i assume i: "binary_search_by (\<lambda>(k, _). Inr (cmp k key)) es = Inr (Inl i)" "i \<le> length es"
      "\<And>j. j < i \<Longrightarrow> ?c j = Less" "\<And>j. i \<le> j \<Longrightarrow> j < length es \<Longrightarrow> ?c j = Greater"
    have lo: "fst (es ! j) \<le> key" if "j < i" for j
      using i(3) [OF that] by (simp add: cmp_def split: if_splits)
    have hi: "key \<le> fst (es ! j)" if "i \<le> j" "j < length es" for j
      using i(4) [OF that] by (simp add: cmp_def split: if_splits)
    show thesis
    proof (rule that [OF i(1)])
      show "either_pos (Inl i) \<le> length es" using i(2) by (simp add: either_pos_def)
      show "fst x \<le> key" if "x \<in> set (take (either_pos (Inl i)) es)" for x
        using ts [of x i] that lo by (auto simp: either_pos_def)
      show "key \<le> fst x" if "x \<in> set (drop (either_pos (Inl i)) es)" for x
        using ds [of x i] that hi by (auto simp: either_pos_def)
    qed
  qed (auto simp: mono split_def)
qed
end
