(* ===== verification/BTreeInsert.thy ===== *)
theory BTreeInsert
  imports BTree
begin

text \<open>
  What the pages of a B-tree hold. A \<open>gtree\<close> is the shape of a tree as the file stores it, with
  the page number of every node; \<open>stored\<close> relates it to the page map and \<open>ordered\<close> is the order
  of keys and separators. Insertion is shown to turn a well-formed tree into a well-formed tree
  that holds the new entry besides the old ones, and to return whenever the file has room and the
  keys have sizes for which both halves of a split page fit.
\<close>

section \<open>The shape of a tree\<close>

text \<open>A child stands with the separator to its left; the one of the first child is the lower
  bound of its node.\<close>

datatype gtree = GLeaf u64 "(bytes \<times> u64) list" | GNode u64 "(bytes \<times> gtree) list"

fun gid :: "gtree \<Rightarrow> u64" where
  "gid (GLeaf i es) = i"
| "gid (GNode i cs) = i"

fun gentries :: "gtree \<Rightarrow> (bytes \<times> u64) list" where
  "gentries (GLeaf i es) = es"
| "gentries (GNode i cs) = concat (map (\<lambda>c. gentries (snd c)) cs)"

fun gids :: "gtree \<Rightarrow> u64 list" where
  "gids (GLeaf i es) = [i]"
| "gids (GNode i cs) = i # concat (map (\<lambda>c. gids (snd c)) cs)"

fun gkeys :: "gtree \<Rightarrow> bytes set" where
  "gkeys (GLeaf i es) = fst ` set es"
| "gkeys (GNode i cs) = fst ` set (tl cs) \<union> (\<Union>c \<in> set cs. gkeys (snd c))"

fun first_leaf :: "gtree \<Rightarrow> u64" where
  "first_leaf (GLeaf i es) = i"
| "first_leaf (GNode i []) = 0"
| "first_leaf (GNode i (c # cs)) = first_leaf (snd c)"

fun gleaves :: "gtree \<Rightarrow> (u64 \<times> (bytes \<times> u64) list) list" where
  "gleaves (GLeaf i es) = [(i, es)]"
| "gleaves (GNode i cs) = concat (map (\<lambda>c. gleaves (snd c)) cs)"

text \<open>No leaf is empty.\<close>

definition gfull :: "gtree \<Rightarrow> bool" where
  "gfull t \<longleftrightarrow> (\<forall>l \<in> set (gleaves t). snd l \<noteq> [])"

fun depth_is :: "nat \<Rightarrow> gtree \<Rightarrow> bool" where
  "depth_is n (GLeaf i es) \<longleftrightarrow> n = 0"
| "depth_is n (GNode i cs) \<longleftrightarrow> 0 < n \<and> (\<forall>c \<in> set cs. depth_is (n - 1) (snd c))"

abbreviation centries :: "(bytes \<times> gtree) list \<Rightarrow> (bytes \<times> u64) list" where
  "centries cs \<equiv> concat (map (\<lambda>c. gentries (snd c)) cs)"

abbreviation cids :: "(bytes \<times> gtree) list \<Rightarrow> u64 list" where
  "cids cs \<equiv> concat (map (\<lambda>c. gids (snd c)) cs)"

definition cells_of :: "(bytes \<times> gtree) list \<Rightarrow> (bytes \<times> u64) list" where
  "cells_of cs = map (\<lambda>c. (fst c, gid (snd c))) cs"

definition next_leaf :: "u64 \<Rightarrow> (bytes \<times> gtree) list \<Rightarrow> u64" where
  "next_leaf nxt cs = (case cs of [] \<Rightarrow> nxt | c # _ \<Rightarrow> first_leaf (snd c))"

definition next_key :: "bytes option \<Rightarrow> (bytes \<times> gtree) list \<Rightarrow> bytes option" where
  "next_key hi cs = (case cs of [] \<Rightarrow> hi | c # _ \<Rightarrow> Some (fst c))"

text \<open>The pages hold the tree; the leaves are chained, and \<open>nxt\<close> follows the last one.\<close>

fun stored :: "(u64 \<Rightarrow> bytes option) \<Rightarrow> u64 \<Rightarrow> gtree \<Rightarrow> bool"
and stored_list :: "(u64 \<Rightarrow> bytes option) \<Rightarrow> u64 \<Rightarrow> (bytes \<times> gtree) list \<Rightarrow> bool" where
  "stored pg nxt (GLeaf i es) \<longleftrightarrow> (\<exists>b. pg i = Some b \<and> leaf_page nxt es b)"
| "stored pg nxt (GNode i cs) \<longleftrightarrow>
     cs \<noteq> [] \<and> (\<exists>b. pg i = Some b \<and> internal_page (gid (snd (hd cs))) (cells_of (tl cs)) b) \<and>
     stored_list pg nxt cs"
| "stored_list pg nxt [] \<longleftrightarrow> True"
| "stored_list pg nxt ((k, c) # cs) \<longleftrightarrow> stored pg (next_leaf nxt cs) c \<and> stored_list pg nxt cs"

text \<open>
  Keys between the separators. Without duplicates (\<open>s\<close>) the keys left of a separator are below
  it, with duplicates they may be equal to it.
\<close>

definition below :: "bool \<Rightarrow> bytes \<Rightarrow> bytes option \<Rightarrow> bool" where
  "below s k hi = (case hi of None \<Rightarrow> True | Some h \<Rightarrow> if s then k < h else k \<le> h)"

fun ordered :: "bool \<Rightarrow> bytes \<Rightarrow> bytes option \<Rightarrow> gtree \<Rightarrow> bool"
and ordered_list :: "bool \<Rightarrow> bytes option \<Rightarrow> (bytes \<times> gtree) list \<Rightarrow> bool" where
  "ordered s lo hi (GLeaf i es) \<longleftrightarrow> sorted (map fst es) \<and> (\<forall>e \<in> set es. lo \<le> fst e \<and> below s (fst e) hi)"
| "ordered s lo hi (GNode i cs) \<longleftrightarrow> cs \<noteq> [] \<and> fst (hd cs) = lo \<and> ordered_list s hi cs"
| "ordered_list s hi [] \<longleftrightarrow> True"
| "ordered_list s hi ((k, c) # cs) \<longleftrightarrow>
     ordered s k (next_key hi cs) c \<and> below False k (next_key hi cs) \<and> ordered_list s hi cs"

section \<open>Lemmas on shapes\<close>

lemma gfull_simps [simp]:
  "gfull (GLeaf i es) \<longleftrightarrow> es \<noteq> []"
  "gfull (GNode i cs) \<longleftrightarrow> (\<forall>c \<in> set cs. gfull (snd c))"
  by (auto simp: gfull_def)

lemma next_simps [simp]:
  "next_leaf nxt [] = nxt" "next_leaf nxt (c # cs) = first_leaf (snd c)"
  "next_key hi [] = hi" "next_key hi (c # cs) = Some (fst c)"
  by (simp_all add: next_leaf_def next_key_def)

lemma next_append:
  "next_leaf nxt (cs @ ds) = next_leaf (next_leaf nxt ds) cs"
  "next_key hi (cs @ ds) = next_key (next_key hi ds) cs"
  by (cases cs; simp)+

lemma stored_list_append:
  "stored_list pg nxt (cs @ ds) \<longleftrightarrow> stored_list pg (next_leaf nxt ds) cs \<and> stored_list pg nxt ds"
  by (induction cs) (auto simp: next_append)

lemma ordered_list_append:
  "ordered_list s hi (cs @ ds) \<longleftrightarrow> ordered_list s (next_key hi ds) cs \<and> ordered_list s hi ds"
  by (induction cs) (auto simp: next_append)

lemma stored_pages:
  "stored pg nxt t \<Longrightarrow> i \<in> set (gids t) \<Longrightarrow> pg i \<noteq> None"
  "stored_list pg nxt cs \<Longrightarrow> i \<in> set (cids cs) \<Longrightarrow> pg i \<noteq> None"
  by (induction pg nxt t and pg nxt cs rule: stored_stored_list.induct) auto

lemma stored_cong:
  "(\<And>i. i \<in> set (gids t) \<Longrightarrow> pg' i = pg i) \<Longrightarrow> stored pg' nxt t = stored pg nxt t"
  "(\<And>i. i \<in> set (cids cs) \<Longrightarrow> pg' i = pg i) \<Longrightarrow> stored_list pg' nxt cs = stored_list pg nxt cs"
  by (induction pg nxt t and pg nxt cs rule: stored_stored_list.induct) auto

lemma gid_in_gids: "gid t \<in> set (gids t)"
  by (cases t) simp_all

lemma below_weaken: "below s k hi \<Longrightarrow> below False k hi"
  by (auto simp: below_def split: option.splits if_splits)

lemma below_trans: "k \<le> k' \<Longrightarrow> below s k' hi \<Longrightarrow> below s k hi"
  by (auto simp: below_def split: option.splits if_splits)

lemma below_next: "below False k (next_key hi cs) \<Longrightarrow> ordered_list s hi cs \<Longrightarrow> below False k hi"
  by (induction cs arbitrary: k) (auto simp: below_def split: option.splits)

lemma below_weak_strict: "below s k (Some h) \<Longrightarrow> below False h hi \<Longrightarrow> below s k hi"
  by (auto simp: below_def split: option.splits if_splits)

lemma below_next': 
  assumes "below s k (next_key hi cs)" "ordered_list s hi cs"
  shows "below s k hi"
proof (cases cs)
  case (Cons c ds)
  with assms have "below False (fst c) hi"
    using below_next [of "fst c" hi ds s] by (cases c) auto
  with Cons assms(1) show ?thesis using below_weak_strict by simp
qed (use assms in simp)

lemma ordered_list_lower:
  "ordered_list s hi ((k, c) # cs) \<Longrightarrow> d \<in> set ((k, c) # cs) \<Longrightarrow> k \<le> fst d"
proof (induction cs arbitrary: k c)
  case (Cons e cs)
  obtain k' c' where e: "e = (k', c')" by fastforce
  from Cons.prems(1) have "k \<le> k'" "ordered_list s hi ((k', c') # cs)" by (auto simp: e below_def)
  with Cons.IH [of k' c'] Cons.prems(2) show ?case by (auto simp: e intro: order.trans)
qed auto

lemma ordered_list_sorted: "ordered_list s hi cs \<Longrightarrow> sorted (map fst cs)"
proof (induction cs)
  case (Cons c cs)
  obtain k t where c: "c = (k, t)" by fastforce
  have "\<forall>d \<in> set cs. k \<le> fst d" using ordered_list_lower [of s hi k t cs] Cons.prems by (auto simp: c)
  with Cons show ?case by (auto simp: c)
qed simp

text \<open>The entries of an ordered tree are sorted and lie between its bounds.\<close>

lemma ordered_bounds:
  "ordered s lo hi t \<Longrightarrow> e \<in> set (gentries t) \<Longrightarrow> lo \<le> fst e \<and> below s (fst e) hi"
  "ordered_list s hi cs \<Longrightarrow> e \<in> set (centries cs) \<Longrightarrow> fst (hd cs) \<le> fst e \<and> below s (fst e) hi"
proof (induction s lo hi t and s hi cs rule: ordered_ordered_list.induct)
  case (4 s hi k c cs)
  show ?case
  proof (cases "e \<in> set (gentries c)")
    case True
    with 4 show ?thesis using below_next' by auto
  next
    case False
    with 4 have e: "fst (hd cs) \<le> fst e" "below s (fst e) hi" "cs \<noteq> []" by auto
    then have "k \<le> fst (hd cs)" using ordered_list_lower [OF "4.prems"(1), of "hd cs"] by simp
    with e show ?thesis by auto
  qed
qed auto

lemma ordered_sorted:
  "ordered s lo hi t \<Longrightarrow> sorted (map fst (gentries t))"
  "ordered_list s hi cs \<Longrightarrow> sorted (map fst (centries cs))"
proof (induction s lo hi t and s hi cs rule: ordered_ordered_list.induct)
  case (4 s hi k c cs)
  have "fst x \<le> fst y" if "x \<in> set (gentries c)" "y \<in> set (centries cs)" for x y
  proof -
    from that(2) obtain d ds where cs: "cs = d # ds" by (cases cs) auto
    have "below s (fst x) (Some (fst d))" using ordered_bounds(1) [OF _ that(1)] "4.prems" cs by auto
    moreover have "fst d \<le> fst y" using ordered_bounds(2) [OF _ that(2)] "4.prems" cs by auto
    ultimately show ?thesis by (auto simp: below_def split: if_splits)
  qed
  then have "\<forall>x \<in> set (map fst (gentries c)). \<forall>y \<in> set (map fst (centries cs)). x \<le> y"
    by (simp only: set_map) blast
  moreover have "sorted (map fst (gentries c))" "sorted (map fst (centries cs))" using 4 by simp_all
  ultimately show ?case
    by (simp only: list.map concat.simps map_append sorted_append snd_conv conj_absorb simp_thms)
qed auto

section \<open>Splitting a page\<close>

text \<open>
  The sizes of keys for which a split always fits: every cell takes between \<open>a\<close> and \<open>b\<close> bytes, slot
  included, and half as many cells as a page can hold, plus one, fit even if all take \<open>b\<close>.
\<close>

definition window :: "nat \<Rightarrow> nat \<Rightarrow> bool" where
  "window a b \<longleftrightarrow> 0 < a \<and> b * (8168 div a div 2 + 1) \<le> 8160"

definition sized :: "nat \<Rightarrow> nat \<Rightarrow> bytes \<Rightarrow> bool" where
  "sized a b k \<longleftrightarrow> a \<le> cell_size k + 2 \<and> cell_size k + 2 \<le> b"

lemma sized_entries:
  assumes "\<forall>e \<in> set es. sized a b (fst e)"
  shows "a * length es \<le> entries_size es" "entries_size es \<le> b * length es"
  using assms by (induction es) (auto simp: sized_def)

lemma half_fits:
  assumes w: "window a b" and es: "\<forall>e \<in> set es. sized a b (fst e)" "entries_size es \<le> 8168"
    and fs: "\<forall>e \<in> set fs. sized a b (fst e)" "length fs \<le> length es div 2 + 1"
  shows "entries_size fs \<le> 8160"
proof -
  have "length es * a \<le> 8168" using sized_entries(1) [OF es(1)] es(2) by (simp add: mult.commute)
  moreover have "0 < a" using w by (simp add: window_def)
  ultimately have "length es \<le> 8168 div a" by (simp add: less_eq_div_iff_mult_less_eq)
  then have "length fs \<le> 8168 div a div 2 + 1" using fs(2) div_le_mono [of "length es" "8168 div a" 2] by linarith
  then have "b * length fs \<le> b * (8168 div a div 2 + 1)" by (rule mult_le_mono2)
  with sized_entries(2) [OF fs(1)] w show ?thesis by (simp add: window_def)
qed

lemma window_one: "window a b \<Longrightarrow> sized a b k \<Longrightarrow> cell_size k + 2 \<le> 8160"
  by (simp add: window_def sized_def)

lemma leaf_insert_cases:
  assumes "leaf_page r es buf" "idx \<le> length es"
  obtains (fits) buf' where "leaf_insert_at idx key v buf = Inr buf'"
      "leaf_page r (take idx es @ (key, v) # drop idx es) buf'"
  | (full) m where "leaf_insert_at idx key v buf = Inl (WalProtocol m)"
proof (cases "length key < 2 ^ 32")
  case True
  show thesis
  proof (cases "COMMON_HEADER_SIZE + 2 * length es + 2 + cell_size key \<le> cell_content_begin buf")
    case f: True
    show thesis by (rule leaf_insert_at_ok [OF assms True f, of v]) (rule fits)
  next
    case False
    then show thesis using insert_at_full(1) [OF assms(1) True] by (intro full) simp
  qed
next
  case False
  then show thesis using insert_at_full(3) [OF assms(1)] by (intro full) simp
qed

lemma internal_insert_cases:
  assumes "internal_page l es buf" "idx \<le> length es"
  obtains (fits) buf' where "internal_insert_at idx key v buf = Inr buf'"
      "internal_page l (take idx es @ (key, v) # drop idx es) buf'"
  | (full) m where "internal_insert_at idx key v buf = Inl (WalProtocol m)"
proof (cases "length key < 2 ^ 32")
  case True
  show thesis
  proof (cases "INTERNAL_HEADER_SIZE + 2 * length es + 2 + cell_size key \<le> cell_content_begin buf")
    case f: True
    show thesis by (rule internal_insert_at_ok [OF assms True f, of v]) (rule fits)
  next
    case False
    then show thesis using insert_at_full(2) [OF assms(1) True] by (intro full) simp
  qed
next
  case False
  have "kind_of buf = Inr Internal" using assms(1) by (simp add: internal_page_def slotted_def)
  with False show thesis by (intro full) (simp add: internal_insert_at_def)
qed

text \<open>Allocating the second page of a split and writing both.\<close>

lemma write_two:
  assumes inv: "pager_inv p" and i: "pg_pages p i = Some c" and a: "allocate_page p = Inr (j, p1)"
    and b: "length b1 = PAGE_SIZE" "length b2 = PAGE_SIZE"
  obtains p2 p3 where "write_page i b1 p1 = Inr p2" "write_page j b2 p2 = Inr p3" "pager_inv p3"
    "pg_pages p3 = (pg_pages p)(i \<mapsto> b1, j \<mapsto> b2)" "pg_pages p j = None" "j \<noteq> 0" "j \<noteq> i"
    "free_pages p3 = free_pages p - 1" "0 < free_pages p"
proof -
  from pgs.alloc_law [OF inv a] obtain d where p1: "pager_inv p1" "pg_pages p j = None"
    "pg_pages p1 = (pg_pages p)(j \<mapsto> d)" by blast
  have ji: "j \<noteq> i" using p1(2) i by auto
  from pgs.write_law [OF p1(1), of i c b1] b i ji obtain p2 where
    p2: "write_page i b1 p1 = Inr p2" "pager_inv p2" "pg_pages p2 = (pg_pages p1)(i \<mapsto> b1)" by (auto simp: p1(3))
  from pgs.write_law [OF p2(2), of j d b2] b ji obtain p3 where
    p3: "write_page j b2 p2 = Inr p3" "pager_inv p3" "pg_pages p3 = (pg_pages p2)(j \<mapsto> b2)"
    by (auto simp: p2(3) p1(3))
  have pp: "pg_pages p3 = (pg_pages p)(i \<mapsto> b1, j \<mapsto> b2)" using ji by (auto simp: p3 p2 p1)
  have "pg_pages p1 j \<noteq> None" by (simp add: p1(3))
  then have dj: "data_page j" by (simp add: pg_pages_def split: if_splits)
  have f1: "free_pages p1 = free_pages p - 1" by (rule free_pages_fresh [OF p1(2) dj p1(3)])
  have f2: "free_pages p2 = free_pages p1" by (rule free_pages_write [OF _ p2(3)]) (use ji i in \<open>simp add: p1(3)\<close>)
  have f3: "free_pages p3 = free_pages p2" by (rule free_pages_write [OF _ p3(3)]) (use ji in \<open>simp add: p2(3) p1(3)\<close>)
  have "0 < free_pages p"
    unfolding free_pages_def using p1(2) dj finite_data_pages by (subst card_gt_0_iff) auto
  with pp ji p1(2) pgs.alloc_nonzero [OF inv a] f1 f2 f3 show thesis by (intro that [OF p2(1) p3(1,2)]) simp_all
qed

section \<open>Inserting into a node\<close>

text \<open>The child at \<open>length xs\<close> has become \<open>t1\<close> and \<open>t2\<close> with the separator \<open>sep\<close>.\<close>

lemma cells_insert:
  assumes "gid t1 = gid c"
  shows "take (length xs) (cells_of (tl (xs @ (k, c) # ys))) @
      (sep, gid t2) # drop (length xs) (cells_of (tl (xs @ (k, c) # ys)))
    = cells_of (tl (xs @ (k, t1) # (sep, t2) # ys))"
    "gid (snd (hd (xs @ (k, c) # ys))) = gid (snd (hd (xs @ (k, t1) # (sep, t2) # ys)))"
  using assms by (cases xs; simp add: cells_of_def)+

lemma zip_cells: "ds \<noteq> [] \<Longrightarrow> zip (map fst (tl ds)) (drop 1 (map (\<lambda>c. gid (snd c)) ds)) = cells_of (tl ds)"
  by (cases ds) (simp_all add: cells_of_def zip_map_map zip_same_conv_map)

lemma split_internal_unfold:
  assumes len: "2 \<le> length ds" and m: "m = length (tl ds) div 2 + 1"
  shows "split_internal i (map fst (tl ds)) (map (\<lambda>c. gid (snd c)) ds) p =
      rbind (allocate_page p) (\<lambda>(j, p).
      rbind (rebuild_internal (gid (snd (hd (take m ds)))) (cells_of (tl (take m ds)))) (\<lambda>b1.
      rbind (rebuild_internal (gid (snd (hd (drop m ds)))) (cells_of (tl (drop m ds)))) (\<lambda>b2.
      rbind (write_page i b1 p) (\<lambda>p. rbind (write_page j b2 p) (\<lambda>p. Inr (fst (ds ! m), j, p))))))"
proof -
  let ?ks = "map fst (tl ds)" and ?g = "\<lambda>c :: bytes \<times> gtree. gid (snd c)"
  have m': "m < length ds" "0 < m" "length ?ks div 2 = m - 1" using len m by auto
  have n: "take m ds \<noteq> []" "drop m ds \<noteq> []" using m' by auto
  have promote: "?ks ! (length ?ks div 2) = fst (ds ! m)" using m' by (simp add: nth_tl)
  have lz: "zip (take (m - 1) ?ks) (drop 1 (take m (map ?g ds))) = cells_of (tl (take m ds))"
    using zip_cells [OF n(1)] m' by (cases m) (simp_all add: take_map take_tl)
  have rz: "zip (drop m ?ks) (drop 1 (drop m (map ?g ds))) = cells_of (tl (drop m ds))"
    using zip_cells [OF n(2)] by (simp add: drop_map tl_drop)
  have l0: "take m (map ?g ds) ! 0 = gid (snd (hd (take m ds)))"
    using n(1) m' by (cases ds) (auto simp: hd_take)
  have r0: "drop m (map ?g ds) ! 0 = gid (snd (hd (drop m ds)))"
    using m' by (simp add: hd_drop_conv_nth)
  show ?thesis
    unfolding split_internal_def Let_def promote unfolding m'(3)
    using m' lz rz l0 r0 by simp
qed

lemma split_internal_ok:
  assumes inv: "pager_inv p" and i: "pg_pages p i = Some buf"
    and len: "2 \<le> length ds" and m: "m = length (tl ds) div 2 + 1"
  obtains (ok) j p' b1 b2 where
      "split_internal i (map fst (tl ds)) (map (\<lambda>c. gid (snd c)) ds) p = Inr (fst (ds ! m), j, p')"
      "pager_inv p'" "pg_pages p' = (pg_pages p)(i \<mapsto> b1, j \<mapsto> b2)" "pg_pages p j = None" "j \<noteq> i"
      "internal_page (gid (snd (hd (take m ds)))) (cells_of (tl (take m ds))) b1"
      "internal_page (gid (snd (hd (drop m ds)))) (cells_of (tl (drop m ds))) b2"
      "free_pages p' = free_pages p - 1" "0 < free_pages p"
  | (err) e where
      "split_internal i (map fst (tl ds)) (map (\<lambda>c. gid (snd c)) ds) p = Inl e"
      "free_pages p = 0 \<or> 8160 < entries_size (tl (take m ds)) \<or> 8160 < entries_size (tl (drop m ds))"
proof -
  let ?ks = "map fst (tl ds)" and ?g = "\<lambda>c :: bytes \<times> gtree. gid (snd c)"
  note unf = split_internal_unfold [OF len m]
  have es: "entries_size (cells_of cs) = entries_size cs" for cs
    by (simp add: entries_size_def cells_of_def comp_def)
  have sizes: "INTERNAL_HEADER_SIZE + n \<le> PAGE_SIZE \<longleftrightarrow> n \<le> 8160" for n
    by (simp add: bt_offsets PAGE_SIZE_def)
  have sizes': "PAGE_SIZE < INTERNAL_HEADER_SIZE + n \<longleftrightarrow> 8160 < n" for n
    by (simp add: bt_offsets PAGE_SIZE_def)
  show thesis
  proof (cases "free_pages p = 0 \<or> 8160 < entries_size (tl (take m ds)) \<or> 8160 < entries_size (tl (drop m ds))")
    case False
    obtain b1 where b1: "rebuild_internal (gid (snd (hd (take m ds)))) (cells_of (tl (take m ds))) = Inr b1"
      "internal_page (gid (snd (hd (take m ds)))) (cells_of (tl (take m ds))) b1"
      by (rule rebuild_internal_ok [of "cells_of (tl (take m ds))" "gid (snd (hd (take m ds)))"])
         (use False in \<open>simp add: es sizes\<close>)
    obtain b2 where b2: "rebuild_internal (gid (snd (hd (drop m ds)))) (cells_of (tl (drop m ds))) = Inr b2"
      "internal_page (gid (snd (hd (drop m ds)))) (cells_of (tl (drop m ds))) b2"
      by (rule rebuild_internal_ok [of "cells_of (tl (drop m ds))" "gid (snd (hd (drop m ds)))"])
         (use False in \<open>simp add: es sizes\<close>)
    have len: "length b1 = PAGE_SIZE" "length b2 = PAGE_SIZE"
      using b1(2) b2(2) by (simp_all add: internal_page_def slotted_def)
    obtain j p1 where a: "allocate_page p = Inr (j, p1)"
      by (rule alloc_free [OF inv]) (use False in simp)
    show thesis
    proof (rule write_two [OF inv i a len])
      fix p2 p3
      assume w: "write_page i b1 p1 = Inr p2" "write_page j b2 p2 = Inr p3" "pager_inv p3"
        "pg_pages p3 = (pg_pages p)(i \<mapsto> b1, j \<mapsto> b2)" "pg_pages p j = None" "j \<noteq> 0" "j \<noteq> i"
        "free_pages p3 = free_pages p - 1" "0 < free_pages p"
      have "split_internal i ?ks (map ?g ds) p = Inr (fst (ds ! m), j, p3)" by (simp add: unf a b1(1) b2(1) w)
      from ok [OF this w(3,4,5,7) b1(2) b2(2) w(8,9)] show thesis .
    qed
  next
    case True
    then have "\<exists>e. split_internal i ?ks (map ?g ds) p = Inl e"
    proof (cases "allocate_page p")
      case (Inr r)
      then have "8160 < entries_size (tl (take m ds)) \<or> 8160 < entries_size (tl (drop m ds))"
        using True alloc_none [OF inv] by fastforce
      then have "(\<exists>e. rebuild_internal (gid (snd (hd (take m ds)))) (cells_of (tl (take m ds))) = Inl e) \<or>
          (\<exists>e. rebuild_internal (gid (snd (hd (drop m ds)))) (cells_of (tl (drop m ds))) = Inl e)"
        using rebuild_internal_full [of "cells_of (tl (take m ds))" "gid (snd (hd (take m ds)))"]
          rebuild_internal_full [of "cells_of (tl (drop m ds))" "gid (snd (hd (drop m ds)))"]
        by (auto simp: es sizes')
      then show ?thesis
        using Inr unfolding unf
        by (cases "rebuild_internal (gid (snd (hd (take m ds)))) (cells_of (tl (take m ds)))") (auto simp: split_def)
    qed (simp add: unf)
    then show thesis using err True by blast
  qed
qed

lemma insert_into_parent_step:
  assumes inv: "pager_inv p" and i: "pg_pages p i = Some buf"
    and pg: "internal_page (gid (snd (hd cs))) (cells_of (tl cs)) buf"
    and cs: "cs = xs @ (k, c) # ys" and ds: "ds = xs @ (k, t1) # (sep, t2) # ys" and g: "gid t1 = gid c"
    and m: "m = length (tl ds) div 2 + 1"
  obtains (fits) p' b where
      "insert_into_parent ((i, length xs) # path) (gid t1) sep (gid t2) root p = Inr (root, p')"
      "pager_inv p'" "pg_pages p' = (pg_pages p)(i \<mapsto> b)"
      "internal_page (gid (snd (hd ds))) (cells_of (tl ds)) b" "free_pages p' = free_pages p"
  | (split) j p' b1 b2 where
      "insert_into_parent ((i, length xs) # path) (gid t1) sep (gid t2) root p =
         insert_into_parent path i (fst (ds ! m)) j root p'"
      "pager_inv p'" "pg_pages p' = (pg_pages p)(i \<mapsto> b1, j \<mapsto> b2)" "pg_pages p j = None" "j \<noteq> i"
      "internal_page (gid (snd (hd (take m ds)))) (cells_of (tl (take m ds))) b1"
      "internal_page (gid (snd (hd (drop m ds)))) (cells_of (tl (drop m ds))) b2"
      "free_pages p' = free_pages p - 1" "0 < free_pages p"
  | (err) e where
      "insert_into_parent ((i, length xs) # path) (gid t1) sep (gid t2) root p = Inl e"
      "free_pages p = 0 \<or> 8160 < entries_size (tl (take m ds)) \<or> 8160 < entries_size (tl (drop m ds))"
proof -
  let ?cells = "cells_of (tl cs)" and ?l = "gid (snd (hd cs))"
  have h: "kind_of buf = Inr Internal" "cell_count buf = length ?cells"
    "from_le (subslice OFF_LEFTMOST_CHILD 8 buf) = ?l"
    using pg by (simp_all add: internal_page_def slotted_def)
  have rd: "read_page p i = Inr buf" by (rule pgs.read_law [OF inv i])
  have n: "length xs \<le> length ?cells" by (simp add: cs cells_of_def)
  note ins = cells_insert [OF g, of xs k ys sep t2, folded cs ds]
  show thesis
  proof (rule internal_insert_cases [OF pg n, of sep "gid t2"])
    fix b assume b: "internal_insert_at (length xs) sep (gid t2) buf = Inr b"
      "internal_page ?l (take (length xs) ?cells @ (sep, gid t2) # drop (length xs) ?cells) b"
    have "length b = PAGE_SIZE" using b(2) by (simp add: internal_page_def slotted_def)
    from pgs.write_law [OF inv i this] obtain p' where
      w: "write_page i b p = Inr p'" "pager_inv p'" "pg_pages p' = (pg_pages p)(i \<mapsto> b)" by blast
    have "free_pages p' = free_pages p" by (rule free_pages_write [OF _ w(3)]) (simp add: i)
    then show thesis using b w ins by (intro fits [OF _ w(2,3)]) (simp_all add: rd h)
  next
    fix msg assume full: "internal_insert_at (length xs) sep (gid t2) buf = Inl (WalProtocol msg)"
    have lm: "leftmost_child buf = Inr ?l" by (simp add: leftmost_child_def h)
    have col: "collect_results (internal_cell_key_and_right_child buf) [0..<cell_count buf] = Inr ?cells"
      by (rule collect_results_ok) (simp_all add: internal_cell_ok [OF pg] h)
    have keys: "vec_insert (length xs) sep (map fst ?cells) = Inr (map fst (tl ds))"
      using arg_cong [OF ins(1), of "map fst"] n
      by (simp add: vec_insert_def take_map drop_map cells_of_def comp_def)
    have kids: "vec_insert (Suc (length xs)) (gid t2) (?l # map snd ?cells) = Inr (map (\<lambda>c. gid (snd c)) ds)"
    proof -
      have "take (length xs) (map snd ?cells) @ gid t2 # drop (length xs) (map snd ?cells) = map snd (cells_of (tl ds))"
        using arg_cong [OF ins(1), of "map snd"] by (simp add: take_map drop_map)
      moreover have "?l # map snd (cells_of (tl ds)) = map (\<lambda>c. gid (snd c)) ds"
        using ins(2) by (cases ds) (simp_all add: ds cells_of_def comp_def)
      ultimately show ?thesis using n by (simp add: vec_insert_def)
    qed
    have step: "insert_into_parent ((i, length xs) # path) (gid t1) sep (gid t2) root p =
        rbind (split_internal i (map fst (tl ds)) (map (\<lambda>c. gid (snd c)) ds) p)
          (\<lambda>(promote, j, p). insert_into_parent path i promote j root p)"
      by (simp add: rd h(1) full lm col keys kids Let_def)
    have len: "2 \<le> length ds" by (simp add: ds)
    show thesis
    proof (rule split_internal_ok [OF inv i len m])
      fix j p' b1 b2
      assume r: "split_internal i (map fst (tl ds)) (map (\<lambda>c. gid (snd c)) ds) p = Inr (fst (ds ! m), j, p')"
        and a: "pager_inv p'" "pg_pages p' = (pg_pages p)(i \<mapsto> b1, j \<mapsto> b2)" "pg_pages p j = None" "j \<noteq> i"
          "internal_page (gid (snd (hd (take m ds)))) (cells_of (tl (take m ds))) b1"
          "internal_page (gid (snd (hd (drop m ds)))) (cells_of (tl (drop m ds))) b2"
          "free_pages p' = free_pages p - 1" "0 < free_pages p"
      show thesis by (rule split [OF _ a]) (simp only: step r rbind_simps prod.case)
    next
      fix e
      assume r: "split_internal i (map fst (tl ds)) (map (\<lambda>c. gid (snd c)) ds) p = Inl e"
        "free_pages p = 0 \<or> 8160 < entries_size (tl (take m ds)) \<or> 8160 < entries_size (tl (drop m ds))"
      show thesis by (rule err [OF _ r(2)]) (simp only: step r(1) rbind_simps)
    qed
  qed
qed

section \<open>What an insertion does to a subtree\<close>

definition added :: "bytes \<Rightarrow> u64 \<Rightarrow> (bytes \<times> u64) list \<Rightarrow> (bytes \<times> u64) list \<Rightarrow> bool" where
  "added key v es es' \<longleftrightarrow> (\<exists>a b. es = a @ b \<and> es' = a @ (key, v) # b)"

definition frame_ok :: "pager \<Rightarrow> pager \<Rightarrow> gtree \<Rightarrow> bool" where
  "frame_ok p p' t \<longleftrightarrow>
     (\<forall>i. pg_pages p i \<noteq> None \<longrightarrow>
        pg_pages p' i \<noteq> None \<and> (i \<notin> set (gids t) \<longrightarrow> pg_pages p' i = pg_pages p i))"

definition fresh_ids :: "pager \<Rightarrow> gtree \<Rightarrow> u64 list \<Rightarrow> bool" where
  "fresh_ids p t is \<longleftrightarrow> distinct is \<and> (\<forall>i \<in> set is. i \<in> set (gids t) \<or> pg_pages p i = None)"

text \<open>The subtree took the entry; it may have used up to \<open>n\<close> new pages.\<close>

definition inserted ::
  "bool \<Rightarrow> bytes \<Rightarrow> u64 \<Rightarrow> nat \<Rightarrow> pager \<Rightarrow> u64 \<Rightarrow> bytes \<Rightarrow> bytes option \<Rightarrow> gtree \<Rightarrow> pager \<Rightarrow> gtree \<Rightarrow> bool" where
  "inserted s key v n p nxt lo hi t p' t' \<longleftrightarrow>
     pager_inv p' \<and> frame_ok p p' t \<and> free_pages p \<le> free_pages p' + n \<and> fresh_ids p t (gids t') \<and>
     gid t' = gid t \<and> first_leaf t' = first_leaf t \<and> stored (pg_pages p') nxt t' \<and>
     ordered s lo hi t' \<and> depth_is n t' \<and> gkeys t' \<subseteq> insert key (gkeys t) \<and>
     added key v (gentries t) (gentries t') \<and> (gfull t \<longrightarrow> gfull t')"

text \<open>The subtree became two, with a separator between them.\<close>

definition split_into ::
  "bool \<Rightarrow> bytes \<Rightarrow> u64 \<Rightarrow> nat \<Rightarrow> pager \<Rightarrow> u64 \<Rightarrow> bytes \<Rightarrow> bytes option \<Rightarrow> gtree \<Rightarrow> pager \<Rightarrow>
   gtree \<Rightarrow> bytes \<Rightarrow> gtree \<Rightarrow> bool" where
  "split_into s key v n p nxt lo hi t p' t1 sep t2 \<longleftrightarrow>
     pager_inv p' \<and> frame_ok p p' t \<and> free_pages p \<le> free_pages p' + n + 1 \<and>
     fresh_ids p t (gids t1 @ gids t2) \<and> gid t1 = gid t \<and> first_leaf t1 = first_leaf t \<and>
     stored (pg_pages p') (first_leaf t2) t1 \<and> stored (pg_pages p') nxt t2 \<and>
     ordered s lo (Some sep) t1 \<and> ordered s sep hi t2 \<and> lo \<le> sep \<and> below False sep hi \<and>
     depth_is n t1 \<and> depth_is n t2 \<and> insert sep (gkeys t1 \<union> gkeys t2) \<subseteq> insert key (gkeys t) \<and>
     added key v (gentries t) (gentries t1 @ gentries t2) \<and> (gfull t \<longrightarrow> gfull t1 \<and> gfull t2)"

definition room :: "nat \<Rightarrow> nat \<Rightarrow> bytes \<Rightarrow> nat \<Rightarrow> pager \<Rightarrow> gtree \<Rightarrow> bool" where
  "room a b key n p t \<longleftrightarrow>
     window a b \<and> (\<forall>k \<in> insert key (gkeys t). sized a b k) \<and> n < free_pages p"

definition outcome ::
  "bool \<Rightarrow> nat \<Rightarrow> nat \<Rightarrow> bytes \<Rightarrow> u64 \<Rightarrow> nat \<Rightarrow> pager \<Rightarrow> u64 \<Rightarrow> bytes \<Rightarrow> bytes option \<Rightarrow> gtree \<Rightarrow>
   path_entry list \<Rightarrow> u64 \<Rightarrow> (u64 \<times> pager) result \<Rightarrow> bool" where
  "outcome s a b key v n p nxt lo hi t path root r \<longleftrightarrow>
     (\<exists>p' t'. r = Inr (root, p') \<and> inserted s key v n p nxt lo hi t p' t') \<or>
     (\<exists>p' t1 sep t2. r = insert_into_parent path (gid t1) sep (gid t2) root p' \<and>
        split_into s key v n p nxt lo hi t p' t1 sep t2) \<or>
     (\<exists>e. r = Inl e \<and> \<not> room a b key n p t)"

text \<open>The leaf. Without duplicates the key must be new.\<close>

lemma sorted_halves:
  assumes "sorted (map fst L)" "m < length L" "s \<longrightarrow> distinct (map fst L)"
  shows "e \<in> set (take m L) \<Longrightarrow> below s (fst e) (Some (fst (L ! m)))"
    "e \<in> set (drop m L) \<Longrightarrow> fst (L ! m) \<le> fst e"
proof -
  assume "e \<in> set (take m L)"
  then obtain j where j: "j < m" "e = L ! j" using assms(2) by (auto simp: in_set_conv_nth)
  then have "fst e \<le> fst (L ! m)" using sorted_fst_mono [OF assms(1), of j m] assms(2) by simp
  moreover have "s \<Longrightarrow> fst e \<noteq> fst (L ! m)"
    using assms(2,3) j nth_eq_iff_index_eq [of "map fst L" j m] by simp
  ultimately show "below s (fst e) (Some (fst (L ! m)))" by (auto simp: below_def)
next
  assume "e \<in> set (drop m L)"
  then obtain j where "m \<le> j" "j < length L" "e = L ! j"
    by (auto simp: in_set_conv_nth) (metis add.commute le_add1 less_diff_conv)
  then show "fst (L ! m) \<le> fst e" using sorted_fst_mono [OF assms(1), of m j] by simp
qed

lemma leaf_halves_fit:
  assumes pg: "leaf_page r es buf" and w: "window a b" and L: "L = take i es @ (key, v) # drop i es"
    and sz: "\<forall>k \<in> insert key (fst ` set es). sized a b k"
  shows "COMMON_HEADER_SIZE + entries_size (take (length L div 2) L) \<le> PAGE_SIZE"
    "COMMON_HEADER_SIZE + entries_size (drop (length L div 2) L) \<le> PAGE_SIZE"
proof -
  have es: "\<forall>e \<in> set es. sized a b (fst e)" "entries_size es \<le> 8168"
    using entries_size_slotted [of Leaf leaf_cell es buf] pg sz
    by (simp_all add: leaf_page_def bt_offsets PAGE_SIZE_def)
  have "\<forall>e \<in> set L. sized a b (fst e)" using sz by (auto simp: L dest: in_set_takeD in_set_dropD)
  moreover have "length L = Suc (length es)" by (simp add: L)
  ultimately have "entries_size (take (length L div 2) L) \<le> 8160" "entries_size (drop (length L div 2) L) \<le> 8160"
    by (auto intro!: half_fits [OF w es] dest: in_set_takeD in_set_dropD)
  then show "COMMON_HEADER_SIZE + entries_size (take (length L div 2) L) \<le> PAGE_SIZE"
    "COMMON_HEADER_SIZE + entries_size (drop (length L div 2) L) \<le> PAGE_SIZE"
    by (simp_all add: bt_offsets PAGE_SIZE_def)
qed

text \<open>The entries of a leaf with the new one among them.\<close>

lemma leaf_with_entry:
  assumes es: "ordered s lo hi (GLeaf i es)" "es = A @ B" and key: "lo \<le> key" "below True key hi"
    and new: "s \<longrightarrow> distinct (map fst es) \<and> key \<notin> fst ` set es"
    and pos: "\<And>e. e \<in> set A \<Longrightarrow> fst e \<le> key" "\<And>e. e \<in> set B \<Longrightarrow> key \<le> fst e"
    and L: "L = A @ (key, v) # B"
  shows "sorted (map fst L)" "\<And>e. e \<in> set L \<Longrightarrow> lo \<le> fst e \<and> below s (fst e) hi"
    "s \<longrightarrow> distinct (map fst L)" "added key v es L" "fst ` set L = insert key (fst ` set es)"
proof -
  have "sorted (map fst A @ map fst B)" using es by simp
  then have "sorted (map fst A) \<and> sorted (map fst B) \<and> (\<forall>x \<in> set (map fst A). \<forall>y \<in> set (map fst B). x \<le> y)"
    unfolding sorted_append .
  moreover have "\<forall>x \<in> set (map fst A). x \<le> key" "\<forall>y \<in> set (map fst B). key \<le> y" using pos by auto
  ultimately show "sorted (map fst L)"
    unfolding L by (auto simp only: map_append list.map fst_conv sorted_append sorted_simps set_simps)
  have "below s key hi" using key(2) by (auto simp: below_def split: option.splits)
  then show "lo \<le> fst e \<and> below s (fst e) hi" if "e \<in> set L" for e
    using that es key(1) by (auto simp: L)
  show "added key v es L" unfolding added_def L es(2) by blast
  show "fst ` set L = insert key (fst ` set es)" by (simp add: L es(2) image_Un)
  show "s \<longrightarrow> distinct (map fst L)" using new unfolding L es(2) by auto
qed

lemma leaf_split_into:
  assumes mid: "m = length L div 2" and L: "sorted (map fst L)" "\<And>e. e \<in> set L \<Longrightarrow> lo \<le> fst e \<and> below s (fst e) hi"
      "s \<longrightarrow> distinct (map fst L)" "added key v es L" "fst ` set L = insert key (fst ` set es)"
    and m: "m < length L"
    and p': "pager_inv p'" "pg_pages p' = (pg_pages p)(i \<mapsto> b1, j \<mapsto> b2)" "pg_pages p j = None" "j \<noteq> i"
      "free_pages p' = free_pages p - 1" "0 < free_pages p"
    and pages: "leaf_page j (take m L) b1" "leaf_page nxt (drop m L) b2"
  shows "split_into s key v 0 p nxt lo hi (GLeaf i es) p' (GLeaf i (take m L)) (fst (L ! m)) (GLeaf j (drop m L))"
proof -
  note halves = sorted_halves [OF L(1) m L(3)]
  have t: "e \<in> set (take m L) \<Longrightarrow> e \<in> set L" and d: "e \<in> set (drop m L) \<Longrightarrow> e \<in> set L" for e
    by (auto dest: in_set_takeD in_set_dropD)
  have sep: "L ! m \<in> set L" using m by simp
  have "length L = Suc (length es)" using L(4) by (auto simp: added_def)
  then have full: "es \<noteq> [] \<longrightarrow> take m L \<noteq> [] \<and> drop m L \<noteq> []" using m by (cases es) (auto simp: mid)
  have "sorted (map fst (take m L))" "sorted (map fst (drop m L))"
    using sorted_wrt_take [OF L(1), of m] sorted_wrt_drop [OF L(1), of m]
    by (simp_all only: take_map drop_map)
  moreover have "insert (fst (L ! m)) (fst ` set (take m L) \<union> fst ` set (drop m L)) \<subseteq> insert key (fst ` set es)"
    using t d sep unfolding L(5) [symmetric] by blast
  ultimately show ?thesis
    using p' pages halves L(2) [OF t] L(2) [OF d] L(2) [OF sep] L(4) below_weaken full
    by (auto simp: split_into_def frame_ok_def fresh_ids_def)
qed

lemma insert_split_leaf_ok:
  assumes inv: "pager_inv p" and i: "pg_pages p i = Some buf" and pg: "leaf_page nxt es buf"
    and es: "ordered s lo hi (GLeaf i es)" and key: "lo \<le> key" "below True key hi"
    and new: "s \<longrightarrow> distinct (map fst es) \<and> key \<notin> fst ` set es"
  shows "outcome s a b key v 0 p nxt lo hi (GLeaf i es) path root
    (insert_split_leaf key v path i buf root p)"
proof -
  have h: "cell_count buf = length es" "right_sibling buf = nxt"
    using pg by (simp_all add: leaf_page_def slotted_def)
  have col: "collect_results (\<lambda>i. unwrap (leaf_cell_key_and_payload buf i)) [0..<cell_count buf] = Inr es"
    by (rule collect_results_ok) (simp_all add: leaf_cell_ok [OF pg] unwrap_def h)
  have srt: "sorted (map fst es)" using es by simp
  obtain q where q: "binary_search_by (\<lambda>(k, _). Inr (cmp k key)) es = Inr q" "either_pos q \<le> length es"
    "\<And>e. e \<in> set (take (either_pos q) es) \<Longrightarrow> fst e \<le> key"
    "\<And>e. e \<in> set (drop (either_pos q) es) \<Longrightarrow> key \<le> fst e"
    by (rule search_entries [OF srt, of key]) (rule that)
  define L where "L = take (either_pos q) es @ (key, v) # drop (either_pos q) es"
  define m where "m = length L div 2"
  note L = leaf_with_entry [OF es append_take_drop_id [symmetric] key new q(3,4) L_def]
  have m: "m < length L" by (simp add: m_def L_def)
  have unf: "insert_split_leaf key v path i buf root p =
      rbind (allocate_page p) (\<lambda>(j, p).
      rbind (rebuild_leaf nxt (drop m L)) (\<lambda>b2. rbind (rebuild_leaf j (take m L)) (\<lambda>b1.
      rbind (write_page i b1 p) (\<lambda>p. rbind (write_page j b2 p) (\<lambda>p.
      insert_into_parent path i (fst (L ! m)) j root p)))))"
    using m by (simp add: insert_split_leaf_def Let_def h(2) col q vec_insert_def m_def flip: L_def)
  show ?thesis
  proof (cases "0 < free_pages p \<and> COMMON_HEADER_SIZE + entries_size (take m L) \<le> PAGE_SIZE \<and>
      COMMON_HEADER_SIZE + entries_size (drop m L) \<le> PAGE_SIZE")
    case False
    have "\<not> room a b key 0 p (GLeaf i es)"
      using False leaf_halves_fit [OF pg _ L_def, of a b, folded m_def] by (auto simp: room_def)
    moreover have "\<exists>e. insert_split_leaf key v path i buf root p = Inl e"
    proof (cases "allocate_page p")
      case (Inr r)
      then have "0 < free_pages p" using alloc_none [OF inv] by force
      with False have "is_panic (rebuild_leaf (fst r) (take m L)) \<or> is_panic (rebuild_leaf nxt (drop m L))"
        using rebuild_leaf_panics [of "take m L" "fst r"] rebuild_leaf_panics [of "drop m L" nxt] by linarith
      then show ?thesis using Inr unfolding unf
        by (cases "rebuild_leaf nxt (drop m L)"; cases "rebuild_leaf (fst r) (take m L)") (auto simp: split_def)
    qed (simp add: unf)
    ultimately show ?thesis by (auto simp: outcome_def)
  next
    case True
    obtain j p1 where a: "allocate_page p = Inr (j, p1)" by (rule alloc_free [OF inv]) (use True in simp)
    obtain b1 where b1: "rebuild_leaf j (take m L) = Inr b1" "leaf_page j (take m L) b1"
      by (rule rebuild_leaf_ok [of "take m L" j]) (use True in simp)
    obtain b2 where b2: "rebuild_leaf nxt (drop m L) = Inr b2" "leaf_page nxt (drop m L) b2"
      by (rule rebuild_leaf_ok [of "drop m L" nxt]) (use True in simp)
    have len: "length b1 = PAGE_SIZE" "length b2 = PAGE_SIZE"
      using b1(2) b2(2) by (simp_all add: leaf_page_def slotted_def)
    show ?thesis
    proof (rule write_two [OF inv i a len])
      fix p2 p3
      assume w: "write_page i b1 p1 = Inr p2" "write_page j b2 p2 = Inr p3" "pager_inv p3"
        "pg_pages p3 = (pg_pages p)(i \<mapsto> b1, j \<mapsto> b2)" "pg_pages p j = None" "j \<noteq> 0" "j \<noteq> i"
        "free_pages p3 = free_pages p - 1" "0 < free_pages p"
      have r: "insert_split_leaf key v path i buf root p = insert_into_parent path i (fst (L ! m)) j root p3"
        by (simp add: unf a b1(1) b2(1) w)
      have "split_into s key v 0 p nxt lo hi (GLeaf i es) p3 (GLeaf i (take m L)) (fst (L ! m)) (GLeaf j (drop m L))"
        by (rule leaf_split_into [OF m_def L m w(3-5,7-9) b1(2) b2(2)])
      with r show ?thesis unfolding outcome_def by force
    qed
  qed
qed

lemma sorted_dropWhile_le:
  "sorted (map fst es) \<Longrightarrow> e \<in> set (dropWhile (\<lambda>e. fst e < key) es) \<Longrightarrow> key \<le> fst e"
  by (induction es) (auto split: if_splits)

lemma insert_at_leaf_ok:
  assumes inv: "pager_inv p" and i: "pg_pages p i = Some buf" and pg: "leaf_page nxt es buf"
    and es: "ordered s lo hi (GLeaf i es)" and key: "lo \<le> key" "below True key hi"
    and new: "s \<longrightarrow> distinct (map fst es) \<and> key \<notin> fst ` set es"
  shows "outcome s a b key v 0 p nxt lo hi (GLeaf i es) path root
    (insert_at_leaf key v path i buf root p)"
proof -
  have srt: "sorted (map fst es)" using es by simp
  define n where "n = length (takeWhile (\<lambda>e. fst e < key) es)"
  have lb: "leaf_lower_bound buf key = Inr n" unfolding n_def by (rule leaf_lower_bound_ok [OF pg srt])
  have n: "n \<le> length es" by (simp add: n_def length_takeWhile_le)
  show ?thesis
  proof (rule leaf_insert_cases [OF pg n, of key v])
    fix m assume "leaf_insert_at n key v buf = Inl (WalProtocol m)"
    then have "insert_at_leaf key v path i buf root p = insert_split_leaf key v path i buf root p"
      by (simp add: insert_at_leaf_def lb)
    then show ?thesis using insert_split_leaf_ok [OF assms] by simp
  next
    fix b' assume b': "leaf_insert_at n key v buf = Inr b'"
      "leaf_page nxt (take n es @ (key, v) # drop n es) b'"
    let ?L = "take n es @ (key, v) # drop n es"
    have "length b' = PAGE_SIZE" using b'(2) by (simp add: leaf_page_def slotted_def)
    from pgs.write_law [OF inv i this] obtain p' where
      w: "write_page i b' p = Inr p'" "pager_inv p'" "pg_pages p' = (pg_pages p)(i \<mapsto> b')" by blast
    have f: "free_pages p' = free_pages p" by (rule free_pages_write [OF _ w(3)]) (simp add: i)
    have tn: "take n es = takeWhile (\<lambda>e. fst e < key) es" "drop n es = dropWhile (\<lambda>e. fst e < key) es"
      by (simp_all add: n_def takeWhile_eq_take [symmetric] dropWhile_eq_drop [symmetric])
    have lo: "fst e \<le> key" if "e \<in> set (take n es)" for e
      using that unfolding tn by (auto dest: set_takeWhileD)
    have hi: "key \<le> fst e" if "e \<in> set (drop n es)" for e
      using that sorted_dropWhile_le [OF srt] unfolding tn by blast
    note L = leaf_with_entry [OF es append_take_drop_id [symmetric] key new lo hi refl, where v = v]
    have "inserted s key v 0 p nxt lo hi (GLeaf i es) p' (GLeaf i ?L)"
      unfolding inserted_def using w f b'(2) L(1,2,4) L(5)
      by (simp add: frame_ok_def fresh_ids_def image_Un insert_commute)
    then show ?thesis using b'(1) w(1) by (auto simp: outcome_def insert_at_leaf_def lb)
  qed
qed

text \<open>The children of a node after one of them took the entry or was split.\<close>

definition ckeys :: "(bytes \<times> gtree) list \<Rightarrow> bytes set" where
  "ckeys cs = fst ` set (tl cs) \<union> (\<Union>c \<in> set cs. gkeys (snd c))"

definition kids_ok ::
  "bool \<Rightarrow> bytes \<Rightarrow> u64 \<Rightarrow> nat \<Rightarrow> pager \<Rightarrow> u64 \<Rightarrow> bytes option \<Rightarrow> (bytes \<times> gtree) list \<Rightarrow> pager \<Rightarrow>
   (bytes \<times> gtree) list \<Rightarrow> bool" where
  "kids_ok s key v n p nxt hi cs p' ds \<longleftrightarrow>
     pager_inv p' \<and> free_pages p \<le> free_pages p' + n \<and>
     (\<forall>i. pg_pages p i \<noteq> None \<longrightarrow> pg_pages p' i \<noteq> None) \<and>
     (\<forall>i. pg_pages p i \<noteq> None \<longrightarrow> i \<notin> set (cids cs) \<longrightarrow> pg_pages p' i = pg_pages p i) \<and>
     distinct (cids ds) \<and> (\<forall>i \<in> set (cids ds). i \<in> set (cids cs) \<or> pg_pages p i = None) \<and>
     stored_list (pg_pages p') nxt ds \<and> ordered_list s hi ds \<and>
     (\<forall>c \<in> set ds. depth_is (n - 1) (snd c)) \<and> ds \<noteq> [] \<and> fst (hd ds) = fst (hd cs) \<and>
     first_leaf (snd (hd ds)) = first_leaf (snd (hd cs)) \<and> ckeys ds \<subseteq> insert key (ckeys cs) \<and>
     added key v (centries cs) (centries ds) \<and>
     ((\<forall>c \<in> set cs. gfull (snd c)) \<longrightarrow> (\<forall>c \<in> set ds. gfull (snd c)))"

lemma added_append: "added key v es es' \<Longrightarrow> added key v (xs @ es @ ys) (xs @ es' @ ys)"
  unfolding added_def by (metis append.assoc append_Cons)

text \<open>What a change below one child leaves of the others.\<close>

lemma siblings_kept:
  assumes st: "stored_list (pg_pages p) nxt (xs @ (k, c) # ys)" and d: "distinct (cids (xs @ (k, c) # ys))"
    and f: "frame_ok p p' c" and l: "first_leaf c' = first_leaf c"
  shows "stored_list (pg_pages p') (first_leaf c') xs" "stored_list (pg_pages p') nxt ys"
proof -
  have "pg_pages p' i = pg_pages p i" if "i \<in> set (cids xs) \<union> set (cids ys)" for i
  proof -
    have "pg_pages p i \<noteq> None" using stored_pages(2) [OF st, of i] that by auto
    moreover have "i \<notin> set (gids c)" using that d by auto
    ultimately show ?thesis using f by (simp add: frame_ok_def)
  qed
  then have "stored_list (pg_pages p') n xs = stored_list (pg_pages p) n xs"
    "stored_list (pg_pages p') n ys = stored_list (pg_pages p) n ys" for n
    by (intro stored_cong(2); auto)+
  with st l show "stored_list (pg_pages p') (first_leaf c') xs" "stored_list (pg_pages p') nxt ys"
    by (simp_all add: stored_list_append)
qed

lemma distinct_replace:
  assumes d: "distinct (as @ gids c @ bs)" and f: "fresh_ids p c ds"
    and used: "\<And>x. x \<in> set as \<union> set bs \<Longrightarrow> pg_pages p x \<noteq> None"
  shows "distinct (as @ ds @ bs)"
proof -
  have "x \<notin> set as \<union> set bs" if "x \<in> set ds" for x
  proof (cases "x \<in> set (gids c)")
    case True
    then show ?thesis using d by auto
  next
    case False
    then have "pg_pages p x = None" using f that by (auto simp: fresh_ids_def)
    then show ?thesis using used by blast
  qed
  then show ?thesis using d f by (auto simp: fresh_ids_def)
qed

lemma kids_inserted:
  assumes st: "stored_list (pg_pages p) nxt cs" and cs: "cs = xs @ (k, c) # ys"
    and d: "distinct (cids cs)" and o: "ordered_list s hi cs"
    and n: "\<forall>c \<in> set cs. depth_is (n - 1) (snd c)"
    and ins: "inserted s key v (n - 1) p (next_leaf nxt ys) k (next_key hi ys) c p' c'"
  shows "kids_ok s key v n p nxt hi cs p' (xs @ (k, c') # ys)"
proof -
  let ?ds = "xs @ (k, c') # ys"
  from ins have i: "pager_inv p'" "frame_ok p p' c" "free_pages p \<le> free_pages p' + (n - 1)"
    "fresh_ids p c (gids c')" "first_leaf c' = first_leaf c" "stored (pg_pages p') (next_leaf nxt ys) c'"
    "ordered s k (next_key hi ys) c'" "depth_is (n - 1) c'" "gkeys c' \<subseteq> insert key (gkeys c)"
    "added key v (gentries c) (gentries c')" "gfull c \<longrightarrow> gfull c'"
    by (simp_all add: inserted_def)
  note sib = siblings_kept [OF st [unfolded cs] d [unfolded cs] i(2,5)]
  have used: "pg_pages p x \<noteq> None" if "x \<in> set (cids cs)" for x using stored_pages(2) [OF st that] .
  have "stored_list (pg_pages p') nxt ?ds" using sib i(6) by (simp add: stored_list_append)
  moreover have "ordered_list s hi ?ds" using o i(7) by (simp add: cs ordered_list_append)
  moreover have "distinct (cids ?ds)"
  proof -
    have "distinct (cids xs @ gids c @ cids ys)" using d by (simp add: cs)
    moreover have "pg_pages p x \<noteq> None" if "x \<in> set (cids xs) \<union> set (cids ys)" for x
      by (rule used) (use that in \<open>auto simp: cs\<close>)
    ultimately have "distinct (cids xs @ gids c' @ cids ys)" by (rule distinct_replace [OF _ i(4)])
    then show ?thesis by simp
  qed
  moreover have "\<forall>x \<in> set (cids ?ds). x \<in> set (cids cs) \<or> pg_pages p x = None"
    using i(4) by (auto simp: cs fresh_ids_def)
  moreover have "ckeys ?ds \<subseteq> insert key (ckeys cs)"
    using i(9) by (cases xs) (auto simp: cs ckeys_def)
  moreover have "added key v (centries cs) (centries ?ds)"
    using added_append [OF i(10), of "centries xs" "centries ys"] by (simp add: cs)
  moreover have "fst (hd ?ds) = fst (hd cs)" "first_leaf (snd (hd ?ds)) = first_leaf (snd (hd cs))"
    using i(5) by (cases xs; simp add: cs)+
  moreover have "\<forall>x. pg_pages p x \<noteq> None \<longrightarrow> pg_pages p' x \<noteq> None"
    "\<forall>x. pg_pages p x \<noteq> None \<longrightarrow> x \<notin> set (cids cs) \<longrightarrow> pg_pages p' x = pg_pages p x"
    using i(2) by (auto simp: frame_ok_def cs)
  ultimately show ?thesis using i(1,3,8,11) n by (auto simp: kids_ok_def cs)
qed

lemma kids_split:
  assumes st: "stored_list (pg_pages p) nxt cs" and cs: "cs = xs @ (k, c) # ys"
    and d: "distinct (cids cs)" and o: "ordered_list s hi cs" and n0: "0 < n"
    and n: "\<forall>c \<in> set cs. depth_is (n - 1) (snd c)"
    and sp: "split_into s key v (n - 1) p (next_leaf nxt ys) k (next_key hi ys) c p' t1 sep t2"
  shows "kids_ok s key v n p nxt hi cs p' (xs @ (k, t1) # (sep, t2) # ys)"
proof -
  let ?ds = "xs @ (k, t1) # (sep, t2) # ys"
  from sp n0 have i: "pager_inv p'" "frame_ok p p' c" "free_pages p \<le> free_pages p' + n"
    "fresh_ids p c (gids t1 @ gids t2)" "first_leaf t1 = first_leaf c"
    "stored (pg_pages p') (first_leaf t2) t1" "stored (pg_pages p') (next_leaf nxt ys) t2"
    "ordered s k (Some sep) t1" "ordered s sep (next_key hi ys) t2" "k \<le> sep" "below False sep (next_key hi ys)"
    "depth_is (n - 1) t1" "depth_is (n - 1) t2" "insert sep (gkeys t1 \<union> gkeys t2) \<subseteq> insert key (gkeys c)"
    "added key v (gentries c) (gentries t1 @ gentries t2)" "gfull c \<longrightarrow> gfull t1 \<and> gfull t2"
    by (simp_all add: split_into_def)
  note sib = siblings_kept [OF st [unfolded cs] d [unfolded cs] i(2,5)]
  have used: "pg_pages p x \<noteq> None" if "x \<in> set (cids cs)" for x using stored_pages(2) [OF st that] .
  have "stored_list (pg_pages p') nxt ?ds" using sib i(6,7) by (simp add: stored_list_append)
  moreover have "ordered_list s hi ?ds" using o i(8-11) by (simp add: cs ordered_list_append below_def)
  moreover have "distinct (cids ?ds)"
  proof -
    have "distinct (cids xs @ gids c @ cids ys)" using d by (simp add: cs)
    moreover have "pg_pages p x \<noteq> None" if "x \<in> set (cids xs) \<union> set (cids ys)" for x
      by (rule used) (use that in \<open>auto simp: cs\<close>)
    ultimately have "distinct (cids xs @ (gids t1 @ gids t2) @ cids ys)" by (rule distinct_replace [OF _ i(4)])
    then show ?thesis by simp
  qed
  moreover have "\<forall>x \<in> set (cids ?ds). x \<in> set (cids cs) \<or> pg_pages p x = None"
    using i(4) by (auto simp: cs fresh_ids_def)
  moreover have "ckeys ?ds \<subseteq> insert key (ckeys cs)"
    using i(14) by (cases xs) (auto simp: cs ckeys_def)
  moreover have "added key v (centries cs) (centries ?ds)"
    using added_append [OF i(15), of "centries xs" "centries ys"] by (simp add: cs)
  moreover have "fst (hd ?ds) = fst (hd cs)" "first_leaf (snd (hd ?ds)) = first_leaf (snd (hd cs))"
    using i(5) by (cases xs; simp add: cs)+
  moreover have "\<forall>x. pg_pages p x \<noteq> None \<longrightarrow> pg_pages p' x \<noteq> None"
    "\<forall>x. pg_pages p x \<noteq> None \<longrightarrow> x \<notin> set (cids cs) \<longrightarrow> pg_pages p' x = pg_pages p x"
    using i(2) by (auto simp: frame_ok_def cs)
  ultimately show ?thesis using i(1,3,12,13,16) n by (auto simp: kids_ok_def cs)
qed

lemma first_leaf_node: "cs \<noteq> [] \<Longrightarrow> first_leaf (GNode i cs) = first_leaf (snd (hd cs))"
  by (cases cs) simp_all

lemma kids_ok_parts:
  assumes "kids_ok s key v n p nxt hi cs p' ds"
  shows "pager_inv p'" "free_pages p \<le> free_pages p' + n"
    "\<forall>i. pg_pages p i \<noteq> None \<longrightarrow> pg_pages p' i \<noteq> None"
    "\<forall>i. pg_pages p i \<noteq> None \<longrightarrow> i \<notin> set (cids cs) \<longrightarrow> pg_pages p' i = pg_pages p i"
    "distinct (cids ds)" "\<forall>i \<in> set (cids ds). i \<in> set (cids cs) \<or> pg_pages p i = None"
    "stored_list (pg_pages p') nxt ds" "ordered_list s hi ds"
    "\<forall>c \<in> set ds. depth_is (n - 1) (snd c)" "ds \<noteq> []" "fst (hd ds) = fst (hd cs)"
    "first_leaf (snd (hd ds)) = first_leaf (snd (hd cs))" "ckeys ds \<subseteq> insert key (ckeys cs)"
    "added key v (centries cs) (centries ds)"
    "(\<forall>c \<in> set cs. gfull (snd c)) \<longrightarrow> (\<forall>c \<in> set ds. gfull (snd c))"
  using assms unfolding kids_ok_def by - (elim conjE, assumption)+

lemmas kids_okD = kids_ok_parts(1,2) kids_ok_parts(3) [rule_format] kids_ok_parts(4) [rule_format]
  kids_ok_parts(5) kids_ok_parts(6) [rule_format] kids_ok_parts(7,8) kids_ok_parts(9) [rule_format]
  kids_ok_parts(10-15)

lemma gkeys_node: "gkeys (GNode i cs) = ckeys cs"
  by (simp add: ckeys_def)

lemma gids_node: "gids (GNode i cs) = i # cids cs"
  by simp

lemma node_whole:
  assumes k: "kids_ok s key v n p nxt hi cs p' ds" and cs: "cs \<noteq> []" "fst (hd cs) = lo" and n: "0 < n"
    and i: "pg_pages p i \<noteq> None" "i \<notin> set (cids cs)"
    and p'': "pager_inv p''" "pg_pages p'' = (pg_pages p')(i \<mapsto> b)" "free_pages p'' = free_pages p'"
    and b: "internal_page (gid (snd (hd ds))) (cells_of (tl ds)) b"
  shows "inserted s key v n p nxt lo hi (GNode i cs) p'' (GNode i ds)"
proof -
  note kd = kids_okD [OF k]
  have id: "i \<notin> set (cids ds)" using kd(6) [of i] i by blast
  then have "stored_list (pg_pages p'') nxt ds = stored_list (pg_pages p') nxt ds"
    by (intro stored_cong(2)) (auto simp: p'')
  then have st: "stored_list (pg_pages p'') nxt ds" using kd(7) by simp
  show ?thesis
    unfolding inserted_def gkeys_node first_leaf_node [OF cs(1)] first_leaf_node [OF kd(10)]
  proof (intro conjI)
    show "frame_ok p p'' (GNode i cs)"
      unfolding frame_ok_def gids_node
    proof (intro allI impI)
      fix x assume x: "pg_pages p x \<noteq> None"
      show "pg_pages p'' x \<noteq> None \<and> (x \<notin> set (i # cids cs) \<longrightarrow> pg_pages p'' x = pg_pages p x)"
        using kd(3) [OF x] kd(4) [OF x] by (simp add: p''(2))
    qed
    show "fresh_ids p (GNode i cs) (gids (GNode i ds))"
      unfolding fresh_ids_def gids_node
    proof (intro conjI ballI)
      show "distinct (i # cids ds)" using kd(5) id by simp
      fix x assume "x \<in> set (i # cids ds)"
      then consider "x = i" | "x \<in> set (cids ds)" by (auto simp only: list.set)
      then show "x \<in> set (i # cids cs) \<or> pg_pages p x = None"
        by cases (simp, drule kd(6), auto simp only: list.set)
    qed
    show "stored (pg_pages p'') nxt (GNode i ds)" using st kd(10) b by (simp add: p''(2))
    show "depth_is n (GNode i ds)" using kd(9) n by simp
  qed (use kd(1,2,8,10-15) p''(1,3) cs in \<open>simp_all\<close>)
qed

lemma node_split:
  assumes k: "kids_ok s key v n p nxt hi cs p' ds" and cs: "cs \<noteq> []" "fst (hd cs) = lo" and n: "0 < n"
    and i: "pg_pages p i \<noteq> None" "i \<notin> set (cids cs)"
    and ds: "ds = A @ (k', c') # B" "A \<noteq> []"
    and p'': "pager_inv p''" "pg_pages p'' = (pg_pages p')(i \<mapsto> b1, j \<mapsto> b2)" "pg_pages p' j = None" "j \<noteq> i"
      "free_pages p'' = free_pages p' - 1"
    and b: "internal_page (gid (snd (hd A))) (cells_of (tl A)) b1" "internal_page (gid c') (cells_of B) b2"
  shows "split_into s key v n p nxt lo hi (GNode i cs) p'' (GNode i A) k' (GNode j ((k', c') # B))"
proof -
  note kd = kids_okD [OF k]
  have id: "i \<notin> set (cids ds)" using kd(6) [of i] i by blast
  have jd: "j \<notin> set (cids ds)" using stored_pages(2) [OF kd(7), of j] p''(3) by blast
  have jp: "pg_pages p j = None" using kd(3) [of j] p''(3) by blast
  have "stored_list (pg_pages p'') nxt ds = stored_list (pg_pages p') nxt ds"
    using id jd by (intro stored_cong(2)) (auto simp: p'')
  then have st: "stored_list (pg_pages p'') (first_leaf c') A" "stored_list (pg_pages p'') nxt ((k', c') # B)"
    using kd(7) by (simp_all add: ds stored_list_append)
  have od: "ordered_list s (Some k') A" "ordered_list s hi ((k', c') # B)"
    using kd(8) by (simp_all add: ds ordered_list_append)
  have A: "hd A = hd ds" "hd A \<in> set A" using ds by simp_all
  have "sorted (map fst A @ k' # map fst B)" using ordered_list_sorted [OF kd(8)] by (simp add: ds)
  then have lo: "lo \<le> k'" using A kd(11) cs(2) by (auto simp: sorted_append)
  have keys: "insert k' (ckeys A \<union> ckeys ((k', c') # B)) \<subseteq> insert key (ckeys cs)"
  proof -
    have "insert k' (ckeys A \<union> ckeys ((k', c') # B)) \<subseteq> ckeys ds" using ds by (cases A) (auto simp: ckeys_def)
    with kd(13) show ?thesis by blast
  qed
  show ?thesis
    unfolding split_into_def gkeys_node first_leaf_node [OF cs(1)] first_leaf_node [OF ds(2)] A(1)
  proof (intro conjI)
    show "frame_ok p p'' (GNode i cs)"
      unfolding frame_ok_def gids_node
    proof (intro allI impI)
      fix x assume x: "pg_pages p x \<noteq> None"
      show "pg_pages p'' x \<noteq> None \<and> (x \<notin> set (i # cids cs) \<longrightarrow> pg_pages p'' x = pg_pages p x)"
        using kd(3) [OF x] kd(4) [OF x] x jp by (auto simp: p''(2))
    qed
    show "fresh_ids p (GNode i cs) (gids (GNode i A) @ gids (GNode j ((k', c') # B)))"
      unfolding fresh_ids_def gids_node
    proof (intro conjI ballI)
      show "distinct ((i # cids A) @ j # cids ((k', c') # B))" using kd(5) id jd p''(4) by (auto simp: ds)
      fix x assume "x \<in> set ((i # cids A) @ j # cids ((k', c') # B))"
      then consider "x = i" | "x = j" | "x \<in> set (cids ds)" by (auto simp: ds)
      then show "x \<in> set (i # cids cs) \<or> pg_pages p x = None"
        by cases (simp, simp add: jp, drule kd(6), auto simp only: list.set)
    qed
    show "stored (pg_pages p'') (first_leaf (GNode j ((k', c') # B))) (GNode i A)"
      using st(1) ds(2) b(1) p''(4) by (simp add: p''(2))
    show "stored (pg_pages p'') nxt (GNode j ((k', c') # B))" using st(2) b(2) by (simp add: p''(2))
    show "below False k' hi" using od(2) below_next [of k' hi B s] by simp
    show "depth_is n (GNode i A)" "depth_is n (GNode j ((k', c') # B))" using kd(9) [of "(k', c')"] kd(9) n by (auto simp: ds)
    show "ordered s lo (Some k') (GNode i A)" using od(1) ds(2) A(1) kd(11) cs(2) by simp
    show "ordered s k' hi (GNode j ((k', c') # B))" using od(2) by simp
    show "added key v (gentries (GNode i cs)) (gentries (GNode i A) @ gentries (GNode j ((k', c') # B)))"
      using kd(14) by (simp add: ds)
    show "gfull (GNode i cs) \<longrightarrow> gfull (GNode i A) \<and> gfull (GNode j ((k', c') # B))"
      using kd(15) by (simp add: ds)
  qed (use kd(1,2,12) p''(1,5) keys lo in \<open>simp_all\<close>)
qed

section \<open>Insertion\<close>

text \<open>The child that \<open>internal_child_for_key\<close> picks.\<close>

lemma pick_child:
  assumes pg: "internal_page (gid (snd (hd cs))) (cells_of (tl cs)) buf" and cs: "cs \<noteq> []"
    and o: "ordered_list s hi cs" and key: "fst (hd cs) \<le> key" "below True key hi"
  obtains xs k c ys where "cs = xs @ (k, c) # ys"
    "internal_child_for_key buf key = Inr (gid c, length xs)" "k \<le> key" "below True key (next_key hi ys)"
proof -
  obtain k0 c0 ds where c0: "cs = (k0, c0) # ds" using cs by (cases cs) auto
  let ?P = "\<lambda>e :: bytes \<times> gtree. fst e \<le> key"
  define us where "us = takeWhile ?P ds"
  have "sorted (map fst ds)" using ordered_list_sorted [OF o] by (simp add: c0)
  moreover have "map fst (cells_of ds) = map fst ds" by (simp add: cells_of_def)
  ultimately have srt: "sorted (map fst (cells_of ds))" by simp
  have n: "length (takeWhile (\<lambda>e. fst e \<le> key) (cells_of ds)) = length us"
    by (simp add: cells_of_def takeWhile_map us_def comp_def)
  have step: "internal_child_for_key buf key = Inr ((gid c0 # map snd (cells_of ds)) ! length us, length us)"
    using pg by (intro internal_child_for_key_ok [OF _ srt n [symmetric]]) (simp add: c0)
  define ws where "ws = dropWhile ?P ds"
  have ds: "ds = us @ ws" by (simp add: us_def ws_def)
  have hi: "below True key (next_key hi ws)"
  proof (cases ws)
    case (Cons d ys)
    then have "\<not> ?P d" using hd_dropWhile [of ?P ds] by (simp add: ws_def)
    with Cons show ?thesis by (simp add: below_def)
  next
    case Nil
    show ?thesis using key(2) unfolding Nil by simp
  qed
  show thesis
  proof (cases us rule: rev_cases)
    case Nil
    have "internal_child_for_key buf key = Inr (gid c0, length ([] :: (bytes \<times> gtree) list))"
      using step by (simp add: Nil)
    from that [of "[]" k0 c0 ws, OF _ this] show thesis using ds Nil hi key(1) by (simp add: c0)
  next
    case (snoc vs u)
    have u: "?P u" using snoc set_takeWhileD [of u ?P ds] by (auto simp: us_def)
    obtain k c where uk: "u = (k, c)" by fastforce
    have "(gid c0 # map snd (cells_of ds)) ! length us = gid c"
      unfolding ds by (simp add: snoc cells_of_def nth_append uk)
    then have "internal_child_for_key buf key = Inr (gid c, length ((k0, c0) # vs))" using step by (simp add: snoc)
    moreover have "cs = ((k0, c0) # vs) @ (k, c) # ws" using ds by (simp add: c0 snoc uk)
    ultimately show thesis using that [of "(k0, c0) # vs" k c ws] u hi by (simp add: uk)
  qed
qed

lemma node_halves_fit:
  assumes pg: "internal_page l (cells_of (tl cs)) buf" and w: "window a b"
    and cs: "cs = xs @ (k, c) # ys" and ds: "ds = xs @ (k, t1) # (sep, t2) # ys"
    and m: "m = length (tl ds) div 2 + 1" and sz: "\<forall>k \<in> insert sep (fst ` set (tl cs)). sized a b k"
  shows "entries_size (tl (take m ds)) \<le> 8160" "entries_size (tl (drop m ds)) \<le> 8160"
proof -
  have e: "entries_size (cells_of es) = entries_size es" for es
    by (simp add: entries_size_def cells_of_def comp_def)
  have es: "\<forall>e \<in> set (tl cs). sized a b (fst e)" "entries_size (tl cs) \<le> 8168"
    using entries_size_slotted [of Internal internal_cell "cells_of (tl cs)" buf] pg sz
    by (auto simp: internal_page_def bt_offsets PAGE_SIZE_def e)
  have ds': "\<forall>e \<in> set (tl ds). sized a b (fst e)" using sz by (cases xs) (auto simp: cs ds)
  have len: "length (tl ds) = Suc (length (tl cs))" by (simp add: cs ds)
  have "set (tl (take m ds)) \<subseteq> set (tl ds)" "set (tl (drop m ds)) \<subseteq> set (tl ds)"
    unfolding tl_take tl_drop by (auto dest: in_set_takeD in_set_dropD)
  then show "entries_size (tl (take m ds)) \<le> 8160" "entries_size (tl (drop m ds)) \<le> 8160"
    using ds' len m by (auto intro!: half_fits [OF w es])
qed

lemma room_child: "room a b key n p (GNode i cs) \<Longrightarrow> c \<in> set cs \<Longrightarrow> room a b key (n - 1) p (snd c)"
  by (auto simp: room_def)

lemma insert_below_split:
  assumes i: "pg_pages p i = Some buf" "i \<notin> set (cids cs)"
    and pg: "internal_page (gid (snd (hd cs))) (cells_of (tl cs)) buf"
    and st: "stored_list (pg_pages p) nxt cs" and cs: "cs = xs @ (k, c) # ys" "fst (hd cs) = lo"
    and d: "distinct (cids cs)" and o: "ordered_list s hi cs" and n: "0 < n" "\<forall>c \<in> set cs. depth_is (n - 1) (snd c)"
    and sp: "split_into s key v (n - 1) p (next_leaf nxt ys) k (next_key hi ys) c p1 t1 sep t2"
  shows "outcome s a b key v n p nxt lo hi (GNode i cs) path root
    (insert_into_parent ((i, length xs) # path) (gid t1) sep (gid t2) root p1)"
proof -
  define ds where "ds = xs @ (k, t1) # (sep, t2) # ys"
  define m where "m = length (tl ds) div 2 + 1"
  have k: "kids_ok s key v n p nxt hi cs p1 ds" unfolding ds_def by (rule kids_split [OF st cs(1) d o n sp])
  note kd = kids_okD [OF k]
  have cs0: "cs \<noteq> []" using cs by simp
  have i1: "pg_pages p1 i = Some buf" using kd(4) [of i] i by simp
  have ip: "pg_pages p i \<noteq> None" using i by simp
  have g: "gid t1 = gid c" using sp by (simp add: split_into_def)
  show ?thesis
  proof (rule insert_into_parent_step [OF kd(1) i1 pg cs(1) ds_def g m_def, where path = path and root = root])
    fix p' b'
    assume "insert_into_parent ((i, length xs) # path) (gid t1) sep (gid t2) root p1 = Inr (root, p')"
      and "pager_inv p'" "pg_pages p' = (pg_pages p1)(i \<mapsto> b')"
        "internal_page (gid (snd (hd ds))) (cells_of (tl ds)) b'" "free_pages p' = free_pages p1"
    then show ?thesis
      using node_whole [OF k cs0 cs(2) n(1) ip i(2)] unfolding outcome_def by blast
  next
    fix j p' b1 b2
    assume r: "insert_into_parent ((i, length xs) # path) (gid t1) sep (gid t2) root p1 =
        insert_into_parent path i (fst (ds ! m)) j root p'"
      and w: "pager_inv p'" "pg_pages p' = (pg_pages p1)(i \<mapsto> b1, j \<mapsto> b2)" "pg_pages p1 j = None" "j \<noteq> i"
        "internal_page (gid (snd (hd (take m ds)))) (cells_of (tl (take m ds))) b1"
        "internal_page (gid (snd (hd (drop m ds)))) (cells_of (tl (drop m ds))) b2"
        "free_pages p' = free_pages p1 - 1" "0 < free_pages p1"
    have m: "0 < m" "m < length ds" by (simp_all add: m_def ds_def)
    then obtain k' c' B where B: "drop m ds = (k', c') # B" by (cases "drop m ds") auto
    have "ds = take m ds @ (k', c') # B" using B by (metis append_take_drop_id)
    moreover have "take m ds \<noteq> []" using m by auto
    moreover have "fst (ds ! m) = k'" using B m by (metis fst_conv hd_drop_conv_nth list.sel(1))
    ultimately have "split_into s key v n p nxt lo hi (GNode i cs) p' (GNode i (take m ds)) (fst (ds ! m)) (GNode j (drop m ds))"
      using node_split [OF k cs0 cs(2) n(1) ip i(2) _ _ w(1-4,7,5), of k' c' B] w(6) B by simp
    then show ?thesis unfolding outcome_def r by (metis gid.simps(2))
  next
    fix e
    assume r: "insert_into_parent ((i, length xs) # path) (gid t1) sep (gid t2) root p1 = Inl e"
      and e: "free_pages p1 = 0 \<or> 8160 < entries_size (tl (take m ds)) \<or> 8160 < entries_size (tl (drop m ds))"
    have "\<not> room a b key n p (GNode i cs)"
    proof
      assume room: "room a b key n p (GNode i cs)"
      have "sep \<in> insert key (gkeys c)" using sp by (simp add: split_into_def)
      then have "\<forall>k \<in> insert sep (fst ` set (tl cs)). sized a b k" using room cs(1) by (auto simp: room_def)
      from node_halves_fit [OF pg _ cs(1) ds_def m_def this] room kd(2) e show False by (simp add: room_def)
    qed
    with r show ?thesis unfolding outcome_def by blast
  qed
qed

lemma insert_loop_ok:
  assumes inv: "pager_inv p"
  shows "depth_is n t \<Longrightarrow> stored (pg_pages p) nxt t \<Longrightarrow> distinct (gids t) \<Longrightarrow> ordered s lo hi t \<Longrightarrow>
    lo \<le> key \<Longrightarrow> below True key hi \<Longrightarrow>
    (s \<longrightarrow> distinct (map fst (gentries t)) \<and> key \<notin> fst ` set (gentries t)) \<Longrightarrow>
    \<exists>r. insert_loop key v path (gid t) root p = Some r \<and>
      outcome s a b key v n p nxt lo hi t path root r"
proof (induction n arbitrary: t nxt lo hi path)
  case 0
  then obtain i es where t: "t = GLeaf i es" by (cases t) auto
  with 0 obtain buf where buf: "pg_pages p i = Some buf" "leaf_page nxt es buf" by auto
  have "insert_loop key v path (gid t) root p = Some (insert_at_leaf key v path i buf root p)"
    using buf(2) by (subst insert_loop.simps)
      (simp add: t pgs.read_law [OF inv buf(1)] leaf_page_def slotted_def)
  with 0 show ?case unfolding t by (auto intro!: insert_at_leaf_ok [OF inv buf])
next
  case (Suc n)
  then obtain i cs where t: "t = GNode i cs" by (cases t) auto
  from Suc.prems obtain buf where i: "pg_pages p i = Some buf" and cs: "cs \<noteq> []" "fst (hd cs) = lo"
    and pg: "internal_page (gid (snd (hd cs))) (cells_of (tl cs)) buf"
    and st: "stored_list (pg_pages p) nxt cs" and o: "ordered_list s hi cs"
    and d: "i \<notin> set (cids cs)" "distinct (cids cs)" and n: "\<forall>c \<in> set cs. depth_is (Suc n - 1) (snd c)"
    by (auto simp: t)
  obtain xs k c ys where c: "cs = xs @ (k, c) # ys" "internal_child_for_key buf key = Inr (gid c, length xs)"
    "k \<le> key" "below True key (next_key hi ys)"
    using pick_child [OF pg cs(1) o _ Suc.prems(6)] Suc.prems(5) cs(2) by blast
  have "insert_loop key v path (gid t) root p = insert_loop key v ((i, length xs) # path) (gid c) root p"
    using pg by (subst insert_loop.simps)
      (simp add: t pgs.read_law [OF inv i] internal_page_def slotted_def c(2))
  moreover have "\<exists>r. insert_loop key v ((i, length xs) # path) (gid c) root p = Some r \<and>
      outcome s a b key v n p (next_leaf nxt ys) k (next_key hi ys) c ((i, length xs) # path) root r"
    using n st d(2) o c Suc.prems(7)
    by (intro Suc.IH) (auto simp: t stored_list_append ordered_list_append)
  ultimately obtain r where r: "insert_loop key v path (gid t) root p = Some r"
    "outcome s a b key v n p (next_leaf nxt ys) k (next_key hi ys) c ((i, length xs) # path) root r" by auto
  from r(2) consider
      (A) p' c' where "r = Inr (root, p')" "inserted s key v n p (next_leaf nxt ys) k (next_key hi ys) c p' c'"
    | (B) p' t1 sep t2 where "r = insert_into_parent ((i, length xs) # path) (gid t1) sep (gid t2) root p'"
        "split_into s key v n p (next_leaf nxt ys) k (next_key hi ys) c p' t1 sep t2"
    | (C) e where "r = Inl e" "\<not> room a b key n p c"
    unfolding outcome_def by blast
  then have "outcome s a b key v (Suc n) p nxt lo hi t path root r"
  proof cases
    case A
    let ?ds = "xs @ (k, c') # ys"
    have k: "kids_ok s key v (Suc n) p nxt hi cs p' ?ds"
      by (rule kids_inserted [OF st c(1) d(2) o n]) (use A(2) in simp)
    note kd = kids_okD [OF k]
    have g: "gid c' = gid c" using A(2) by (simp add: inserted_def)
    have "pg_pages p' = (pg_pages p')(i \<mapsto> buf)" using kd(4) [of i] i d by auto
    moreover have "internal_page (gid (snd (hd ?ds))) (cells_of (tl ?ds)) buf"
      using pg g by (cases xs) (simp_all add: c(1) cells_of_def)
    ultimately have "inserted s key v (Suc n) p nxt lo hi (GNode i cs) p' (GNode i ?ds)"
      using node_whole [OF k cs _ _ d(1) kd(1) _ refl] i by blast
    with A(1) show ?thesis unfolding outcome_def t by blast
  next
    case B
    show ?thesis
      unfolding t B(1) by (rule insert_below_split [OF i d(1) pg st c(1) cs(2) d(2) o _ n]) (use B(2) in simp_all)
  next
    case C
    with room_child [of a b key "Suc n" p i cs "(k, c)"] have "\<not> room a b key (Suc n) p t" by (auto simp: t c(1))
    with C(1) show ?thesis unfolding outcome_def by blast
  qed
  with r(1) show ?case by blast
qed

section \<open>Whole trees\<close>

text \<open>
  The tree at \<open>root\<close> consists of the pages \<open>I\<close>, is \<open>n\<close> levels deep, has the leaves \<open>ls\<close> from left to
  right, and the cells of its keys take between \<open>a\<close> and \<open>b\<close> bytes. The flag \<open>s\<close> says that the keys
  are distinct, which the separators then respect.
\<close>

definition btree ::
  "bool \<Rightarrow> nat \<Rightarrow> nat \<Rightarrow> nat \<Rightarrow> u64 set \<Rightarrow> pager \<Rightarrow> u64 \<Rightarrow> (u64 \<times> (bytes \<times> u64) list) list \<Rightarrow> bool" where
  "btree s a b n I p root ls \<longleftrightarrow>
     (\<exists>t. gid t = root \<and> gleaves t = ls \<and> set (gids t) = I \<and> depth_is n t \<and>
        stored (pg_pages p) 0 t \<and> distinct (gids t) \<and> ordered s [] None t \<and>
        (\<forall>k \<in> gkeys t. sized a b k))"

definition flat :: "(u64 \<times> (bytes \<times> u64) list) list \<Rightarrow> (bytes \<times> u64) list" where
  "flat ls = concat (map snd ls)"

lemma flat_gleaves: "flat (gleaves t) = gentries t"
proof (induction t)
  case (GNode i cs)
  then have "map (\<lambda>c. concat (map snd (gleaves (snd c)))) cs = map (\<lambda>c. gentries (snd c)) cs"
    by (intro map_cong) (auto simp: flat_def snds.simps)
  moreover have "concat (map snd (concat (map (\<lambda>c. gleaves (snd c)) cs))) =
      concat (map (\<lambda>c. concat (map snd (gleaves (snd c)))) cs)"
    by (induction cs) simp_all
  ultimately show ?case by (simp only: flat_def gleaves.simps gentries.simps)
qed (simp add: flat_def)

lemma flat_append [simp]: "flat (ls @ ms) = flat ls @ flat ms"
  by (simp add: flat_def)

lemma btree_sorted: "btree s a b n I p root ls \<Longrightarrow> sorted (map fst (flat ls))"
  using ordered_sorted(1) by (auto simp: btree_def flat_gleaves)

lemma btree_create_ok:
  assumes inv: "pager_inv p" and free: "0 < free_pages p"
  obtains root p' where "btree_create p = Inr (root, p')" "pager_inv p'" "btree s a b 0 {root} p' root [(root, [])]"
    "pg_pages p root = None" "pg_pages p' = (pg_pages p)(root \<mapsto> init_leaf)" "free_pages p' = free_pages p - 1"
proof -
  have "length init_leaf = PAGE_SIZE" using init_leaf_page by (simp add: leaf_page_def slotted_def)
  then obtain i p1 p2 where c: "allocate_page p = Inr (i, p1)" "write_page i init_leaf p1 = Inr p2" "pager_inv p2"
    "pg_pages p2 = (pg_pages p)(i \<mapsto> init_leaf)" "pg_pages p i = None" "free_pages p2 = free_pages p - 1"
    by (rule alloc_write_free [OF inv free])
  have "btree s a b 0 {i} p2 i [(i, [])]"
    unfolding btree_def using init_leaf_page by (intro exI [of _ "GLeaf i []"]) (simp add: c(4))
  with c that show thesis by (simp add: btree_create_def)
qed

lemma new_root_ok:
  assumes sp: "split_into s key v n p 0 [] None t p1 t1 sep t2" and sz: "window a b" "sized a b sep"
    and free: "0 < free_pages p1" and st: "stored (pg_pages p) 0 t"
  obtains i p' where "insert_into_parent [] (gid t1) sep (gid t2) root p1 = Inr (i, p')" "pager_inv p'"
    "stored (pg_pages p') 0 (GNode i [([], t1), (sep, t2)])" "distinct (gids (GNode i [([], t1), (sep, t2)]))"
    "frame_ok p p' t" "pg_pages p i = None" "free_pages p1 = free_pages p' + 1"
proof -
  from sp have p1: "pager_inv p1" "frame_ok p p1 t" "fresh_ids p t (gids t1 @ gids t2)"
    "stored (pg_pages p1) (first_leaf t2) t1" "stored (pg_pages p1) 0 t2"
    by (simp_all add: split_into_def)
  have len: "length sep < 2 ^ 32" "INTERNAL_HEADER_SIZE + 2 * length [] + 2 + cell_size sep \<le> PAGE_SIZE"
    using window_one [OF sz] by (simp_all add: cell_size_def bt_offsets PAGE_SIZE_def)
  obtain buf where buf: "internal_insert_at 0 sep (gid t2) (init_internal (gid t1)) = Inr buf"
    "internal_page (gid t1) (take 0 [] @ (sep, gid t2) # drop 0 []) buf"
    by (rule internal_insert_at_ok [OF init_internal_ok(1) _ len(1), of 0 "gid t1" "gid t2"])
       (use len(2) init_internal_ok(2) in simp_all)
  have "length buf = PAGE_SIZE" using buf(2) by (simp add: internal_page_def slotted_def)
  then obtain i q p' where c: "allocate_page p1 = Inr (i, q)" "write_page i buf q = Inr p'" "pager_inv p'"
    "pg_pages p' = (pg_pages p1)(i \<mapsto> buf)" "pg_pages p1 i = None" "free_pages p' = free_pages p1 - 1"
    by (rule alloc_write_free [OF p1(1) free])
  have ni: "i \<notin> set (gids t1)" "i \<notin> set (gids t2)"
    using stored_pages(1) [OF p1(4), of i] stored_pages(1) [OF p1(5), of i] c(5) by auto
  have "stored (pg_pages p') x t1 = stored (pg_pages p1) x t1" "stored (pg_pages p') x t2 = stored (pg_pages p1) x t2" for x
    using ni by (auto intro!: stored_cong(1) simp: c(4))
  then have "stored (pg_pages p') 0 (GNode i [([], t1), (sep, t2)])"
    using p1(4,5) buf(2) by (simp add: c(4) cells_of_def)
  moreover have "distinct (gids (GNode i [([], t1), (sep, t2)]))" using p1(3) ni by (simp add: fresh_ids_def)
  moreover have pi: "pg_pages p i = None" using p1(2) c(5) by (auto simp: frame_ok_def)
  moreover have "frame_ok p p' t" using p1(2) pi by (auto simp: frame_ok_def c(4))
  ultimately show thesis using that [of i p'] c(1-3,6) free buf(1) by simp
qed

lemma btree_insert_ok:
  assumes "pager_inv p" and "btree s a b n I p root ls" and "window a b" and "sized a b key"
    and "n + 1 < free_pages p" and "s \<longrightarrow> distinct (map fst (flat ls)) \<and> key \<notin> fst ` set (flat ls)"
  shows "\<exists>root' p' n' I' ls' xs ys.
    btree_insert key v root p = Some (Inr (root', p')) \<and> pager_inv p' \<and> n' \<le> n + 1 \<and>
    free_pages p \<le> free_pages p' + n + 2 \<and>
    btree s a b n' I' p' root' ls' \<and> flat ls = xs @ ys \<and> flat ls' = xs @ (key, v) # ys \<and>
    (\<forall>i. pg_pages p i \<noteq> None \<longrightarrow> i \<notin> I \<longrightarrow> pg_pages p' i = pg_pages p i) \<and>
    (\<forall>i \<in> I'. i \<in> I \<or> pg_pages p i = None) \<and>
    ((\<forall>l \<in> set ls. snd l \<noteq> []) \<longrightarrow> (\<forall>l \<in> set ls'. snd l \<noteq> []))"
proof -
  from assms(2) obtain t where t: "gid t = root" "gleaves t = ls" "set (gids t) = I" "depth_is n t"
    "stored (pg_pages p) 0 t" "distinct (gids t)" "ordered s [] None t" "\<forall>k \<in> gkeys t. sized a b k"
    by (auto simp: btree_def)
  have fl: "flat ls = gentries t" using flat_gleaves [of t] t(2) by simp
  have room: "room a b key n p t" using assms(3-5) t(8) by (simp add: room_def)
  have new: "s \<longrightarrow> distinct (map fst (gentries t)) \<and> key \<notin> fst ` set (gentries t)" using assms(6) fl by simp
  from insert_loop_ok [OF assms(1) t(4,5,6,7) _ _ new, of v "[]" root a b]
  obtain r where r: "btree_insert key v root p = Some r" "outcome s a b key v n p 0 [] None t [] root r"
    by (auto simp: btree_insert_def below_def t(1))
  from r(2) room consider
      (A) p' t' where "r = Inr (root, p')" "inserted s key v n p 0 [] None t p' t'"
    | (B) p1 t1 sep t2 where "r = insert_into_parent [] (gid t1) sep (gid t2) root p1"
        "split_into s key v n p 0 [] None t p1 t1 sep t2"
    unfolding outcome_def by blast
  then show ?thesis
  proof cases
    case A
    then have "btree s a b n (set (gids t')) p' root (gleaves t')"
      using t assms(4) unfolding btree_def by (intro exI [of _ t']) (auto simp: inserted_def fresh_ids_def)
    moreover obtain xs ys where "flat ls = xs @ ys" "flat (gleaves t') = xs @ (key, v) # ys"
      using A(2) by (auto simp: inserted_def added_def fl flat_gleaves)
    moreover have "frame_ok p p' t" "fresh_ids p t (gids t')" "gfull t \<longrightarrow> gfull t'" "pager_inv p'"
      "free_pages p \<le> free_pages p' + n + 2" using A(2) by (simp_all add: inserted_def)
    moreover have "btree_insert key v root p = Some (Inr (root, p'))" using A(1) r(1) by simp
    moreover have "n \<le> n + 1" by simp
    ultimately show ?thesis unfolding frame_ok_def fresh_ids_def gfull_def t(2,3) by blast
  next
    case B
    from B(2) assms(4) t(8) have keys: "\<forall>k \<in> insert sep (gkeys t1 \<union> gkeys t2). sized a b k"
      by (auto simp: split_into_def)
    have free: "0 < free_pages p1" using B(2) assms(5) by (simp add: split_into_def)
    have sep: "sized a b sep" using keys by simp
    let ?t = "\<lambda>i. GNode i [([], t1), (sep, t2)]"
    obtain i p' where n: "r = Inr (i, p')" "pager_inv p'" "stored (pg_pages p') 0 (?t i)"
      "distinct (gids (?t i))" "frame_ok p p' t" "pg_pages p i = None" "free_pages p1 = free_pages p' + 1"
      using new_root_ok [OF B(2) assms(3) sep free t(5), of root] B(1) by metis
    have "btree s a b (n + 1) (set (gids (?t i))) p' i (gleaves (?t i))"
      unfolding btree_def using n(3,4) B(2) keys
      by (intro exI [of _ "?t i"]) (auto simp: split_into_def below_def)
    moreover obtain xs ys where "flat ls = xs @ ys" "flat (gleaves (?t i)) = xs @ (key, v) # ys"
      using B(2) by (auto simp: split_into_def added_def fl flat_gleaves)
    moreover have "fresh_ids p t (gids (?t i))" "gfull t \<longrightarrow> gfull (?t i)"
      using B(2) n(4,6) by (auto simp: split_into_def fresh_ids_def)
    moreover have "btree_insert key v root p = Some (Inr (i, p'))" using n(1) r(1) by simp
    moreover have "free_pages p \<le> free_pages p' + n + 2" using B(2) n(7) by (simp add: split_into_def)
    moreover have "n + 1 \<le> n + 1" by simp
    ultimately show ?thesis using n(2,5) unfolding frame_ok_def fresh_ids_def gfull_def t(2,3) by blast
  qed
qed

text \<open>
  C19. Inserting a key into a B-tree returns and adds exactly the entry, at a place that keeps the
  entries sorted, under two conditions. The cell sizes of the new key and of all keys of the tree
  lie between two bounds \<open>a\<close> and \<open>b\<close>, the larger at most about twice the smaller and small against a
  page: a full page is split by the number of its cells and not by their sizes, and keys of very
  different sizes can leave a half that does not fit (see \<open>insert_large_key_panics\<close>). And more pages
  are free than one per level and a new root. Pages outside the tree keep their contents, the tree
  takes only pages that were free and at most one per level and two more, no leaf becomes empty,
  and a tree of distinct keys stays one.
\<close>

theorem btree_insert_spec:
  assumes "pager_inv p" and "btree s a b n I p root ls" and "window a b" and "sized a b key"
    and "n + 1 < free_pages p" and "s \<longrightarrow> distinct (map fst (flat ls)) \<and> key \<notin> fst ` set (flat ls)"
  shows "\<exists>root' p' n' I' ls' xs ys.
    btree_insert key v root p = Some (Inr (root', p')) \<and> pager_inv p' \<and> n' \<le> n + 1 \<and>
    free_pages p \<le> free_pages p' + n + 2 \<and>
    btree s a b n' I' p' root' ls' \<and> flat ls = xs @ ys \<and> flat ls' = xs @ (key, v) # ys \<and>
    (\<forall>i. pg_pages p i \<noteq> None \<longrightarrow> i \<notin> I \<longrightarrow> pg_pages p' i = pg_pages p i) \<and>
    (\<forall>i \<in> I'. i \<in> I \<or> pg_pages p i = None) \<and>
    ((\<forall>l \<in> set ls. snd l \<noteq> []) \<longrightarrow> (\<forall>l \<in> set ls'. snd l \<noteq> []))"
  using assms by (rule btree_insert_ok)

lemma key1_sized: "sized 12 12 [1]" "window 12 12"
proof -
  have "varint_u32_len 1 = 1" by (subst varint_u32_len.simps) (simp add: word_le_nat_alt)
  then show "sized 12 12 [1]" "window 12 12" by (simp_all add: sized_def cell_size_def window_def)
qed

theorem btree_insert_spec_witness:
  "\<exists>p root q root' q' n' I' ls'. pager_open None = Inr p \<and> btree_create p = Inr (root, q) \<and>
     btree_insert [1] 7 root q = Some (Inr (root', q')) \<and> btree True 12 12 n' I' q' root' ls' \<and>
     flat ls' = [([1], 7)]"
proof -
  obtain p where p: "pager_open None = Inr p" "pager_inv p" "pg_pages p = (\<lambda>_. None)"
    by (rule pager_create)
  have free: "free_pages p = 65534" by (rule free_pages_new [OF p(3)])
  obtain root q where q: "btree_create p = Inr (root, q)" "pager_inv q"
    "btree True 12 12 0 {root} q root [(root, [])]" "free_pages q = free_pages p - 1"
    by (rule btree_create_ok [OF p(2), of True 12 12]) (use free in simp)
  from btree_insert_spec [OF q(2,3) key1_sized(2,1), of 7] q(4) free
  obtain root' q' n' I' ls' xs ys where r: "btree_insert [1] 7 root q = Some (Inr (root', q'))"
    "btree True 12 12 n' I' q' root' ls'" "flat [(root, [])] = xs @ ys" "flat ls' = xs @ ([1], 7) # ys"
    by (auto simp: flat_def)
  from r(3,4) have "flat ls' = [([1], 7)]" by (simp add: flat_def)
  with p(1) q(1) r show ?thesis by blast
qed

end
