(* ===== verification/BTreeScan.thy ===== *)
theory BTreeScan
  imports BTreeInsert
begin

text \<open>
  Searching, scanning and deleting in the trees of \<open>BTreeInsert\<close>: a cursor stands in the chain of
  leaves and has the rest of the entries before it. On distinct keys the seek is exact; the
  theorems also say what a scan does at a leaf that deletions have emptied, and what a seek
  returns when one key has more entries than a leaf.
\<close>

section \<open>The chain of leaves\<close>

lemma flat_simps [simp]: "flat [] = []" "flat (l # ls) = snd l @ flat ls"
  by (simp_all add: flat_def)

definition leaf_next :: "u64 \<Rightarrow> (u64 \<times> (bytes \<times> u64) list) list \<Rightarrow> u64" where
  "leaf_next nxt ls = (case ls of [] \<Rightarrow> nxt | l # _ \<Rightarrow> fst l)"

fun leaf_chain :: "(u64 \<Rightarrow> bytes option) \<Rightarrow> u64 \<Rightarrow> (u64 \<times> (bytes \<times> u64) list) list \<Rightarrow> bool" where
  "leaf_chain pg nxt [] \<longleftrightarrow> True"
| "leaf_chain pg nxt ((i, es) # ls) \<longleftrightarrow>
     (\<exists>b. pg i = Some b \<and> leaf_page (leaf_next nxt ls) es b) \<and> leaf_chain pg nxt ls"

lemma leaf_next_simps [simp]: "leaf_next nxt [] = nxt" "leaf_next nxt (l # ls) = fst l"
  by (simp_all add: leaf_next_def)

lemma leaf_next_append: "leaf_next nxt (ls @ ms) = leaf_next (leaf_next nxt ms) ls"
  by (cases ls) simp_all

lemma leaf_chain_append:
  "leaf_chain pg nxt (ls @ ms) \<longleftrightarrow> leaf_chain pg (leaf_next nxt ms) ls \<and> leaf_chain pg nxt ms"
  by (induction ls) (auto simp: leaf_next_append)

lemma stored_chain:
  "stored pg nxt t \<Longrightarrow> leaf_chain pg nxt (gleaves t) \<and> gleaves t \<noteq> [] \<and> leaf_next nxt (gleaves t) = first_leaf t"
  "stored_list pg nxt cs \<Longrightarrow> leaf_chain pg nxt (concat (map (\<lambda>c. gleaves (snd c)) cs)) \<and>
     leaf_next nxt (concat (map (\<lambda>c. gleaves (snd c)) cs)) = next_leaf nxt cs \<and>
     (cs \<noteq> [] \<longrightarrow> concat (map (\<lambda>c. gleaves (snd c)) cs) \<noteq> [])"
proof (induction pg nxt t and pg nxt cs rule: stored_stored_list.induct)
  case (2 pg nxt i cs)
  then show ?case by (cases cs) auto
next
  case (4 pg nxt k c cs)
  then have "leaf_next (next_leaf nxt cs) (gleaves c) = first_leaf c" "gleaves c \<noteq> []" by simp_all
  moreover from this have "leaf_next x (gleaves c) = first_leaf c" for x by (cases "gleaves c") auto
  ultimately show ?case using 4 by (simp add: leaf_chain_append leaf_next_append)
qed auto

text \<open>
  The descent: the leaf it ends at, what stands left and right of it, and that the tree stays a
  tree when that leaf loses entries.
\<close>

definition descent :: "bool \<Rightarrow> pager \<Rightarrow> u64 \<Rightarrow> bytes \<Rightarrow> bytes option \<Rightarrow> gtree \<Rightarrow> bytes \<Rightarrow>
    (u64 \<times> (bytes \<times> u64) list) list \<Rightarrow> u64 \<Rightarrow> (bytes \<times> u64) list \<Rightarrow> (u64 \<times> (bytes \<times> u64) list) list \<Rightarrow> bool" where
  "descent s p nxt lo hi t key ls i es rs \<longleftrightarrow>
     gleaves t = ls @ (i, es) # rs \<and> (\<forall>e \<in> set (flat ls). below s (fst e) (Some key)) \<and>
     (\<forall>e \<in> set (flat rs). key < fst e) \<and>
     (\<forall>es' pg'. set es' \<subseteq> set es \<longrightarrow> sorted (map fst es') \<longrightarrow>
        (\<exists>b. pg' i = Some b \<and> leaf_page (leaf_next nxt rs) es' b) \<longrightarrow>
        (\<forall>j \<in> set (gids t). j \<noteq> i \<longrightarrow> pg' j = pg_pages p j) \<longrightarrow>
        (\<exists>t'. gid t' = gid t \<and> gleaves t' = ls @ (i, es') # rs \<and> gids t' = gids t \<and> first_leaf t' = first_leaf t \<and>
           stored pg' nxt t' \<and> ordered s lo hi t' \<and> gkeys t' \<subseteq> gkeys t \<and> (\<forall>n. depth_is n t \<longrightarrow> depth_is n t')))"

lemma descentD:
  assumes "descent s p nxt lo hi t key ls i es rs"
  shows "gleaves t = ls @ (i, es) # rs" "\<forall>e \<in> set (flat ls). below s (fst e) (Some key)"
    "\<forall>e \<in> set (flat rs). key < fst e"
  using assms unfolding descent_def by - (elim conjE, assumption)+

lemma descent_shrink:
  assumes d: "descent s p nxt lo hi t key ls i es rs" and es: "set es' \<subseteq> set es" "sorted (map fst es')"
    and pg: "\<exists>b. pg' i = Some b \<and> leaf_page (leaf_next nxt rs) es' b"
      "\<forall>j \<in> set (gids t). j \<noteq> i \<longrightarrow> pg' j = pg_pages p j"
  shows "\<exists>t'. gid t' = gid t \<and> gleaves t' = ls @ (i, es') # rs \<and> gids t' = gids t \<and> first_leaf t' = first_leaf t \<and>
    stored pg' nxt t' \<and> ordered s lo hi t' \<and> gkeys t' \<subseteq> gkeys t \<and> (\<forall>n. depth_is n t \<longrightarrow> depth_is n t')"
proof -
  note all = d [unfolded descent_def, THEN conjunct2, THEN conjunct2, THEN conjunct2, THEN spec [of _ es'], THEN spec [of _ pg']]
  from all [THEN mp, OF es(1), THEN mp, OF es(2), THEN mp, OF pg(1), THEN mp, OF pg(2)] show ?thesis .
qed

abbreviation cleaves :: "(bytes \<times> gtree) list \<Rightarrow> (u64 \<times> (bytes \<times> u64) list) list" where
  "cleaves cs \<equiv> concat (map (\<lambda>c. gleaves (snd c)) cs)"

lemma flat_cleaves: "flat (cleaves cs) = centries cs"
  using flat_gleaves [of "GNode 0 cs"] by simp

lemma below_le: "below s k (Some h) \<Longrightarrow> h \<le> h' \<Longrightarrow> below s k (Some h')"
  by (auto simp: below_def split: if_splits)

lemma descent_node:
  assumes cs: "cs = xs @ (k, c) # ys" and o: "ordered_list s hi cs" "fst (hd cs) = lo"
    and st: "stored (pg_pages p) nxt (GNode i cs)" and d: "distinct (gids (GNode i cs))"
    and key: "k \<le> key" "below True key (next_key hi ys)"
    and sub: "descent s p (next_leaf nxt ys) k (next_key hi ys) c key ls j es rs" "j \<in> set (gids c)"
  shows "descent s p nxt lo hi (GNode i cs) key (cleaves xs @ ls) j es (rs @ cleaves ys)"
proof -
  have st': "stored_list (pg_pages p) nxt ys" "stored_list (pg_pages p) (first_leaf c) xs"
    "\<exists>b. pg_pages p i = Some b \<and> internal_page (gid (snd (hd cs))) (cells_of (tl cs)) b"
    using st by (simp_all add: cs stored_list_append)
  have nx: "leaf_next nxt (cleaves ys) = next_leaf nxt ys" using stored_chain(2) [OF st'(1)] by blast
  have ol: "ordered_list s (Some k) xs" "ordered_list s hi ys" "below False k (next_key hi ys)"
    using o(1) by (simp_all add: cs ordered_list_append)
  have left: "below s (fst e) (Some key)" if "e \<in> set (centries xs)" for e
    using ordered_bounds(2) [OF ol(1) that] below_le key(1) by blast
  have right: "key < fst e" if "e \<in> set (centries ys)" for e
  proof -
    have "ys \<noteq> []" using that by auto
    then have "key < fst (hd ys)" using key(2) by (cases ys) (simp_all add: below_def)
    also have "\<dots> \<le> fst e" using ordered_bounds(2) [OF ol(2) that] by blast
    finally show ?thesis .
  qed
  have left': "\<forall>e \<in> set (centries xs). below s (fst e) (Some key)" by (intro ballI left)
  have right': "\<forall>e \<in> set (centries ys). key < fst e" by (intro ballI right)
  have dis: "i \<notin> set (gids c)" "set (gids c) \<inter> set (cids xs) = {}" "set (gids c) \<inter> set (cids ys) = {}"
    "i \<notin> set (cids xs)" "i \<notin> set (cids ys)" using d by (auto simp: cs)
  note sub' = descentD [OF sub(1)]
  show ?thesis
    unfolding descent_def
  proof (intro conjI allI impI)
    show "gleaves (GNode i cs) = (cleaves xs @ ls) @ (j, es) # rs @ cleaves ys" using sub' by (simp add: cs)
    show "\<forall>e \<in> set (flat (cleaves xs @ ls)). below s (fst e) (Some key)"
      unfolding flat_append flat_cleaves set_append ball_Un using sub' left' by blast
    show "\<forall>e \<in> set (flat (rs @ cleaves ys)). key < fst e"
      unfolding flat_append flat_cleaves set_append ball_Un using sub' right' by blast
  next
    fix es' pg'
    assume es': "set es' \<subseteq> set es" "sorted (map fst es')"
      "\<exists>b. pg' j = Some b \<and> leaf_page (leaf_next nxt (rs @ cleaves ys)) es' b"
      and same: "\<forall>x \<in> set (gids (GNode i cs)). x \<noteq> j \<longrightarrow> pg' x = pg_pages p x"
    have "\<forall>x \<in> set (gids c). x \<noteq> j \<longrightarrow> pg' x = pg_pages p x" using same by (auto simp: cs)
    from descent_shrink [OF sub(1) es'(1,2) _ this] es'(3)
    obtain c' where c': "gid c' = gid c" "gleaves c' = ls @ (j, es') # rs" "gids c' = gids c"
      "first_leaf c' = first_leaf c" "stored pg' (next_leaf nxt ys) c'" "ordered s k (next_key hi ys) c'"
      "gkeys c' \<subseteq> gkeys c" "\<forall>n. depth_is n c \<longrightarrow> depth_is n c'"
      unfolding leaf_next_append nx by blast
    have "pg' x = pg_pages p x" if "x \<in> set (cids xs) \<union> set (cids ys) \<union> {i}" for x
    proof -
      have "x \<in> set (gids (GNode i cs))" using that by (auto simp: cs)
      moreover have "x \<noteq> j" using that dis sub(2) by blast
      ultimately show ?thesis using same by blast
    qed
    then have "stored_list pg' (first_leaf c') xs" "stored_list pg' nxt ys" "pg' i = pg_pages p i"
      using st' c'(4) stored_cong(2) [of xs pg' "pg_pages p"] stored_cong(2) [of ys pg' "pg_pages p"] by auto
    moreover have "cells_of (tl (xs @ (k, c') # ys)) = cells_of (tl cs)" "gid (snd (hd (xs @ (k, c') # ys))) = gid (snd (hd cs))"
      using c'(1) by (cases xs; simp add: cs cells_of_def)+
    ultimately have "stored pg' nxt (GNode i (xs @ (k, c') # ys))"
      using st'(3) c'(5) by (simp add: stored_list_append)
    moreover have "ordered s lo hi (GNode i (xs @ (k, c') # ys))"
    proof -
      have "ordered_list s hi (xs @ (k, c') # ys)" using o(1) c'(6) by (simp add: cs ordered_list_append)
      moreover have "fst (hd (xs @ (k, c') # ys)) = lo" using o(2) by (cases xs) (simp_all add: cs)
      ultimately show ?thesis by simp
    qed
    moreover have "gkeys (GNode i (xs @ (k, c') # ys)) \<subseteq> gkeys (GNode i cs)"
      using c'(7) by (cases xs) (auto simp: cs)
    moreover have "first_leaf (GNode i (xs @ (k, c') # ys)) = first_leaf (GNode i cs)"
      using c'(4) by (cases xs) (simp_all add: cs)
    ultimately show "\<exists>t'. gid t' = gid (GNode i cs) \<and> gleaves t' = (cleaves xs @ ls) @ (j, es') # rs @ cleaves ys \<and>
        gids t' = gids (GNode i cs) \<and> first_leaf t' = first_leaf (GNode i cs) \<and> stored pg' nxt t' \<and>
        ordered s lo hi t' \<and> gkeys t' \<subseteq> gkeys (GNode i cs) \<and> (\<forall>n. depth_is n (GNode i cs) \<longrightarrow> depth_is n t')"
      using c'(2,3,8) by (intro exI [of _ "GNode i (xs @ (k, c') # ys)"]) (auto simp: cs)
  qed
qed

lemma descend_ok:
  assumes inv: "pager_inv p"
  shows "depth_is n t \<Longrightarrow> stored (pg_pages p) nxt t \<Longrightarrow> distinct (gids t) \<Longrightarrow> ordered s lo hi t \<Longrightarrow>
    lo \<le> key \<Longrightarrow> below True key hi \<Longrightarrow>
    \<exists>ls i es rs buf. descend p key (gid t) = Some (Inr (i, buf)) \<and> pg_pages p i = Some buf \<and>
      (\<forall>path. \<exists>path'. insert_loop key v path (gid t) root p = Some (insert_at_leaf key v path' i buf root p)) \<and>
      leaf_page (leaf_next nxt rs) es buf \<and> sorted (map fst es) \<and> i \<in> set (gids t) \<and>
      descent s p nxt lo hi t key ls i es rs"
proof (induction n arbitrary: t nxt lo hi)
  case 0
  then obtain i es where t: "t = GLeaf i es" by (cases t) auto
  with 0 obtain buf where buf: "pg_pages p i = Some buf" "leaf_page nxt es buf" by auto
  have k: "rbind (read_page p i) (\<lambda>buf. rbind (kind_of buf) (\<lambda>k. Inr (buf, k))) = Inr (buf, Leaf)"
    using buf(2) by (simp add: pgs.read_law [OF inv buf(1)] leaf_page_def slotted_def)
  have "descend p key (gid t) = Some (Inr (i, buf))"
    "insert_loop key v path (gid t) root p = Some (insert_at_leaf key v path i buf root p)" for path
    by (subst descend.simps, simp add: t k) (subst insert_loop.simps, simp add: t k)
  moreover have "descent s p nxt lo hi t key [] i es []"
    unfolding descent_def
  proof (intro conjI allI impI)
    fix es' pg'
    assume "set es' \<subseteq> set es" "sorted (map fst es')" "\<exists>b. pg' i = Some b \<and> leaf_page (leaf_next nxt []) es' b"
    then show "\<exists>t'. gid t' = gid t \<and> gleaves t' = [] @ (i, es') # [] \<and> gids t' = gids t \<and>
        first_leaf t' = first_leaf t \<and> stored pg' nxt t' \<and> ordered s lo hi t' \<and> gkeys t' \<subseteq> gkeys t \<and>
        (\<forall>n. depth_is n t \<longrightarrow> depth_is n t')"
      using 0 by (intro exI [of _ "GLeaf i es'"]) (auto simp: t)
  qed (simp_all add: t flat_def)
  moreover have "sorted (map fst es)" "i \<in> set (gids t)" "leaf_page (leaf_next nxt []) es buf"
    using 0 buf by (simp_all add: t)
  ultimately show ?case using buf(1) by blast
next
  case (Suc n)
  then obtain i cs where t: "t = GNode i cs" by (cases t) auto
  from Suc.prems obtain buf where i: "pg_pages p i = Some buf" and cs: "cs \<noteq> []" "fst (hd cs) = lo"
    and pg: "internal_page (gid (snd (hd cs))) (cells_of (tl cs)) buf"
    and st: "stored_list (pg_pages p) nxt cs" and o: "ordered_list s hi cs"
    and d: "distinct (cids cs)" and n: "\<forall>c \<in> set cs. depth_is n (snd c)"
    by (auto simp: t)
  obtain xs k c ys where c: "cs = xs @ (k, c) # ys" "internal_child_for_key buf key = Inr (gid c, length xs)"
    "k \<le> key" "below True key (next_key hi ys)"
    using pick_child [OF pg cs(1) o _ Suc.prems(6)] Suc.prems(5) cs(2) by blast
  have kind: "rbind (read_page p i) (\<lambda>buf. rbind (kind_of buf) (\<lambda>k. Inr (buf, k))) = Inr (buf, Internal)"
    using pg by (simp add: pgs.read_law [OF inv i] internal_page_def slotted_def)
  have step: "descend p key (gid t) = descend p key (gid c)"
    "insert_loop key v path (gid t) root p = insert_loop key v ((i, length xs) # path) (gid c) root p" for path
    by (subst descend.simps, simp add: t kind c(2)) (subst insert_loop.simps, simp add: t kind c(2))
  have "\<exists>ls j es rs buf. descend p key (gid c) = Some (Inr (j, buf)) \<and> pg_pages p j = Some buf \<and>
      (\<forall>path. \<exists>path'. insert_loop key v path (gid c) root p = Some (insert_at_leaf key v path' j buf root p)) \<and>
      leaf_page (leaf_next (next_leaf nxt ys) rs) es buf \<and> sorted (map fst es) \<and> j \<in> set (gids c) \<and>
      descent s p (next_leaf nxt ys) k (next_key hi ys) c key ls j es rs"
    using n st d o c by (intro Suc.IH) (auto simp: stored_list_append ordered_list_append)
  then obtain ls j es rs buf' where r: "descend p key (gid c) = Some (Inr (j, buf'))" "pg_pages p j = Some buf'"
    "\<And>path. \<exists>path'. insert_loop key v path (gid c) root p = Some (insert_at_leaf key v path' j buf' root p)"
    "leaf_page (leaf_next (next_leaf nxt ys) rs) es buf'" "sorted (map fst es)" "j \<in> set (gids c)"
    "descent s p (next_leaf nxt ys) k (next_key hi ys) c key ls j es rs" by blast
  have "stored_list (pg_pages p) nxt ys" using st by (simp add: c(1) stored_list_append)
  then have "leaf_next nxt (rs @ cleaves ys) = leaf_next (next_leaf nxt ys) rs"
    using stored_chain(2) by (simp add: leaf_next_append)
  moreover have "descent s p nxt lo hi t key (cleaves xs @ ls) j es (rs @ cleaves ys)"
    using descent_node [OF c(1) o cs(2) Suc.prems(2,3) [unfolded t] c(3,4) r(7,6)] by (simp add: t)
  moreover have "j \<in> set (gids t)" using r(6) by (auto simp: t c(1))
  ultimately show ?case using r(1-5) unfolding step by metis
qed

section \<open>Cursors\<close>

text \<open>The cursor stands in the leaf with the entries \<open>es\<close>; the leaves \<open>ls\<close> follow.\<close>

definition cursor_on :: "pager \<Rightarrow> cursor \<Rightarrow> (bytes \<times> u64) list \<Rightarrow> (u64 \<times> (bytes \<times> u64) list) list \<Rightarrow> bool" where
  "cursor_on p c es ls \<longleftrightarrow>
     leaf_chain (pg_pages p) 0 ((cu_leaf c, es) # ls) \<and> pg_pages p (cu_leaf c) = Some (cu_buf c) \<and>
     unat (cu_slot c) \<le> length es"

definition cursor_rest :: "cursor \<Rightarrow> (bytes \<times> u64) list \<Rightarrow> (u64 \<times> (bytes \<times> u64) list) list \<Rightarrow> (bytes \<times> u64) list" where
  "cursor_rest c es ls = drop (unat (cu_slot c)) es @ flat ls"

lemma leaf_page_count:
  assumes "leaf_page r es b"
  shows "cell_count b = length es" "length es < 2 ^ 15" "right_sibling b = r" "unat (of_nat (length es) :: u16) = length es"
proof -
  show "cell_count b = length es" "right_sibling b = r" using assms by (simp_all add: leaf_page_def slotted_def)
  have "header_size Leaf + 2 * length es \<le> PAGE_SIZE" using assms by (auto simp: leaf_page_def slotted_def)
  then show "length es < 2 ^ 15" by (simp add: PAGE_SIZE_def)
  then show "unat (of_nat (length es) :: u16) = length es" by (simp add: unat_word_of_nat_less)
qed

lemma cursor_page:
  assumes "cursor_on p c es ls"
  shows "leaf_page (leaf_next 0 ls) es (cu_buf c)" "leaf_chain (pg_pages p) 0 ls"
    "cursor_is_valid c \<longleftrightarrow> unat (cu_slot c) < length es"
proof -
  show pg: "leaf_page (leaf_next 0 ls) es (cu_buf c)" and "leaf_chain (pg_pages p) 0 ls"
    using assms by (auto simp: cursor_on_def)
  show "cursor_is_valid c \<longleftrightarrow> unat (cu_slot c) < length es"
    using leaf_page_count [OF pg] by (simp add: cursor_is_valid_def word_less_nat_alt)
qed

lemma cursor_on_next:
  assumes "cursor_on p c es ((j, fs) # ms)"
  obtains b where "right_sibling (cu_buf c) = j" "j \<noteq> 0" "pg_pages p j = Some b"
    "cursor_on p \<lparr>cu_leaf = j, cu_buf = b, cu_slot = 0\<rparr> fs ms"
proof -
  from cursor_page(2) [OF assms] obtain b where b: "pg_pages p j = Some b" by auto
  have "j \<noteq> 0" using b pgs.no_page_zero [of p] by auto
  then show thesis
    using that [of b] b cursor_page [OF assms] leaf_page_count(3) [OF cursor_page(1) [OF assms]]
    by (auto simp: cursor_on_def)
qed

text \<open>Where \<open>skip_leaves\<close> stops: here, in the next leaf that has entries, or at the end.\<close>

definition skipped :: "pager \<Rightarrow> cursor \<Rightarrow> (bytes \<times> u64) list \<Rightarrow> (u64 \<times> (bytes \<times> u64) list) list \<Rightarrow> cursor \<Rightarrow> bool" where
  "skipped p c es ls c' \<longleftrightarrow>
     (if unat (cu_slot c) < length es then c' = c
      else case dropWhile (\<lambda>l. snd l = []) ls of
        [] \<Rightarrow> \<not> cursor_is_valid c'
      | (j, fs) # ms \<Rightarrow> cu_slot c' = 0 \<and> cursor_on p c' fs ms)"

lemma skip_leaves_ok:
  assumes inv: "pager_inv p"
  shows "cursor_on p c es ls \<Longrightarrow>
    \<exists>c'. skip_leaves p (cu_leaf c) (cu_buf c) (cu_slot c) = Some (Inr c') \<and> skipped p c es ls c'"
proof (induction ls arbitrary: c es)
  case Nil
  have "right_sibling (cu_buf c) = 0" using leaf_page_count(3) [OF cursor_page(1) [OF Nil]] by simp
  then have "skip_leaves p (cu_leaf c) (cu_buf c) (cu_slot c) = Some (Inr c)"
    by (subst skip_leaves.simps) (simp add: Let_def)
  with cursor_page(3) [OF Nil] show ?case by (simp add: skipped_def)
next
  case (Cons l ms)
  obtain j fs where l: "l = (j, fs)" by fastforce
  note on = Cons.prems [unfolded l]
  note pg = leaf_page_count [OF cursor_page(1) [OF on]]
  show ?case
  proof (cases "unat (cu_slot c) < length es")
    case True
    then have "skip_leaves p (cu_leaf c) (cu_buf c) (cu_slot c) = Some (Inr c)"
      using pg by (subst skip_leaves.simps) (auto simp: Let_def word_less_nat_alt)
    with True show ?thesis by (simp add: skipped_def)
  next
    case False
    obtain b where b: "right_sibling (cu_buf c) = j" "j \<noteq> 0" "pg_pages p j = Some b"
      "cursor_on p \<lparr>cu_leaf = j, cu_buf = b, cu_slot = 0\<rparr> fs ms"
      by (rule cursor_on_next [OF on])
    let ?d = "\<lparr>cu_leaf = j, cu_buf = b, cu_slot = 0\<rparr>"
    have step: "skip_leaves p (cu_leaf c) (cu_buf c) (cu_slot c) = skip_leaves p j b 0"
      using False pg b(1,2) pgs.read_law [OF inv b(3)]
      by (subst skip_leaves.simps) (simp add: Let_def word_less_nat_alt)
    from Cons.IH [OF b(4)] obtain c' where c': "skip_leaves p j b 0 = Some (Inr c')" "skipped p ?d fs ms c'" by auto
    have "skipped p c es (l # ms) c'"
      using c'(2) b(4) False by (cases "fs = []") (auto simp: skipped_def l)
    with c'(1) step show ?thesis by simp
  qed
qed

lemma flat_dropWhile_empty: "flat (dropWhile (\<lambda>l. snd l = []) ls) = flat ls"
  by (induction ls) (auto simp: flat_def)

text \<open>What the operations of a cursor return that stands on an entry.\<close>

lemma cursor_read:
  assumes on: "cursor_on p c es ls" and lt: "unat (cu_slot c) < length es"
  shows "cursor_key c = Inr (fst (es ! unat (cu_slot c)))" "cursor_payload c = Inr (snd (es ! unat (cu_slot c)))"
  using leaf_cell_ok [OF cursor_page(1) [OF on] lt]
  by (simp_all add: cursor_key_def cursor_payload_def split_def)

lemma cursor_advance_ok:
  assumes inv: "pager_inv p" and on: "cursor_on p c es ls" and lt: "unat (cu_slot c) < length es"
  shows "Suc (unat (cu_slot c)) < length es \<Longrightarrow>
      \<exists>c'. cursor_advance p c = Inr (True, c') \<and> cursor_on p c' es ls \<and> unat (cu_slot c') = Suc (unat (cu_slot c))"
    and "Suc (unat (cu_slot c)) = length es \<Longrightarrow> ls = [] \<Longrightarrow> \<exists>c'. cursor_advance p c = Inr (False, c')"
    and "Suc (unat (cu_slot c)) = length es \<Longrightarrow> ls = (j, fs) # ms \<Longrightarrow>
      \<exists>c'. cursor_advance p c = Inr (fs \<noteq> [], c') \<and> cursor_on p c' fs ms \<and> cu_slot c' = 0"
proof -
  note pg = leaf_page_count [OF cursor_page(1) [OF on]]
  have s1: "unat (cu_slot c + 1) = Suc (unat (cu_slot c))"
    using lt pg(2) by (simp add: unat_word_ariths)
  have m1: "cu_slot c \<noteq> - 1" using s1 by auto
  have cnt: "cu_slot c + 1 < of_nat (cell_count (cu_buf c)) \<longleftrightarrow> Suc (unat (cu_slot c)) < length es"
    using pg s1 by (simp add: word_less_nat_alt)
  show "\<exists>c'. cursor_advance p c = Inr (True, c') \<and> cursor_on p c' es ls \<and> unat (cu_slot c') = Suc (unat (cu_slot c))"
    if "Suc (unat (cu_slot c)) < length es"
    using that on m1 cnt s1 cursor_page(1) [OF on] by (simp add: cursor_advance_def Let_def cursor_on_def)
  show "\<exists>c'. cursor_advance p c = Inr (False, c')" if "Suc (unat (cu_slot c)) = length es" "ls = []"
    using that m1 cnt pg(3) by (simp add: cursor_advance_def Let_def)
  show "\<exists>c'. cursor_advance p c = Inr (fs \<noteq> [], c') \<and> cursor_on p c' fs ms \<and> cu_slot c' = 0"
    if "Suc (unat (cu_slot c)) = length es" and ls: "ls = (j, fs) # ms"
  proof (rule cursor_on_next [OF on [unfolded ls]])
    fix b assume b: "right_sibling (cu_buf c) = j" "j \<noteq> 0" "pg_pages p j = Some b"
      "cursor_on p \<lparr>cu_leaf = j, cu_buf = b, cu_slot = 0\<rparr> fs ms"
    then show ?thesis
      using that(1) m1 cnt cursor_page(3) [OF b(4)] pgs.read_law [OF inv b(3)]
      by (simp add: cursor_advance_def Let_def)
  qed
qed

text \<open>A scan goes on to the first leaf that is empty.\<close>

lemma scan_loop_ok:
  assumes inv: "pager_inv p"
  shows "cursor_on p c es ls \<Longrightarrow> unat (cu_slot c) < length es \<Longrightarrow>
    scan_loop p c out = Some (Inr (out @ drop (unat (cu_slot c)) es @ flat (takeWhile (\<lambda>l. snd l \<noteq> []) ls)))"
proof (induction "length (cursor_rest c es ls)" arbitrary: c es ls out rule: less_induct)
  case less
  let ?k = "unat (cu_slot c)"
  note on = less.prems(1) and lt = less.prems(2)
  let ?e = "es ! ?k"
  have valid: "cursor_is_valid c" using cursor_page(3) [OF on] lt by simp
  have dr: "drop ?k es = ?e # drop (Suc ?k) es" using lt by (simp add: Cons_nth_drop_Suc)
  have step: "scan_loop p c out =
      (if b then scan_loop p c' (out @ [?e]) else Some (Inr (out @ [?e])))"
    if "cursor_advance p c = Inr (b, c')" for b c'
    using that valid cursor_read [OF on lt] by (subst scan_loop.simps) simp
  consider "Suc ?k < length es" | "Suc ?k = length es" "ls = []" | j fs ms where "Suc ?k = length es" "ls = (j, fs) # ms"
    using lt by (cases ls) (auto intro: Suc_lessI)
  then show ?case
  proof cases
    case 1
    from cursor_advance_ok(1) [OF inv on lt 1] obtain c' where
      c': "cursor_advance p c = Inr (True, c')" "cursor_on p c' es ls" "unat (cu_slot c') = Suc ?k" by blast
    have "length (cursor_rest c' es ls) < length (cursor_rest c es ls)" using lt c'(3) by (simp add: cursor_rest_def)
    from less.hyps [OF this c'(2)] 1 c'(3) step [OF c'(1)] show ?thesis by (simp add: dr)
  next
    case 2
    from cursor_advance_ok(2) [OF inv on lt 2] obtain c' where "cursor_advance p c = Inr (False, c')" by blast
    from step [OF this] 2 show ?thesis by (simp add: dr flat_def)
  next
    case 3
    from cursor_advance_ok(3) [OF inv on lt 3] obtain c' where
      c': "cursor_advance p c = Inr (fs \<noteq> [], c')" "cursor_on p c' fs ms" "cu_slot c' = 0" by blast
    have "length (cursor_rest c' fs ms) < length (cursor_rest c es ls)"
      using lt c'(3) by (simp add: cursor_rest_def 3 flat_def)
    from less.hyps [OF this c'(2)] 3 c'(3) step [OF c'(1)] show ?thesis
      by (cases "fs = []") (simp_all add: dr flat_def)
  qed
qed

section \<open>Seeking, scanning and deleting in a tree\<close>

text \<open>The leaf a key leads to, and the tree that is left when it loses entries.\<close>

lemma btree_descend:
  assumes inv: "pager_inv p" and t: "btree s a b n I p root ls"
  obtains l1 i es l2 buf where "ls = l1 @ (i, es) # l2" "descend p key root = Some (Inr (i, buf))"
    "pg_pages p i = Some buf" "leaf_page (leaf_next 0 l2) es buf" "sorted (map fst es)"
    "leaf_chain (pg_pages p) 0 ((i, es) # l2)" "i \<in> I"
    "\<forall>e \<in> set (flat l1). below s (fst e) (Some key)" "\<forall>e \<in> set (flat l2). key < fst e"
    "\<exists>path'. btree_insert key v root p = Some (insert_at_leaf key v path' i buf root p)"
    "\<And>es' p' buf'. set es' \<subseteq> set es \<Longrightarrow> sorted (map fst es') \<Longrightarrow> leaf_page (leaf_next 0 l2) es' buf' \<Longrightarrow>
      pg_pages p' = (pg_pages p)(i \<mapsto> buf') \<Longrightarrow> btree s a b n I p' root (l1 @ (i, es') # l2)"
proof -
  from t obtain t where t: "gid t = root" "gleaves t = ls" "set (gids t) = I" "depth_is n t"
    "stored (pg_pages p) 0 t" "distinct (gids t)" "ordered s [] None t" "\<forall>k \<in> gkeys t. sized a b k"
    by (auto simp: btree_def)
  from descend_ok [OF inv t(4,5,6,7), of key v root]
  obtain l1 i es l2 buf where d: "descend p key root = Some (Inr (i, buf))" "pg_pages p i = Some buf"
    "\<forall>path. \<exists>path'. insert_loop key v path root root p = Some (insert_at_leaf key v path' i buf root p)"
    "leaf_page (leaf_next 0 l2) es buf" "sorted (map fst es)" "i \<in> set (gids t)"
    "descent s p 0 [] None t key l1 i es l2"
    by (auto simp: t(1) below_def)
  note ds = descentD [OF d(7)]
  have ch: "leaf_chain (pg_pages p) 0 ((i, es) # l2)"
    using stored_chain(1) [OF t(5)] unfolding ds(1) leaf_chain_append by blast
  have shrink: "btree s a b n I p' root (l1 @ (i, es') # l2)"
    if "set es' \<subseteq> set es" "sorted (map fst es')" "leaf_page (leaf_next 0 l2) es' buf'"
      "pg_pages p' = (pg_pages p)(i \<mapsto> buf')" for es' p' buf'
  proof -
    have "\<exists>b. pg_pages p' i = Some b \<and> leaf_page (leaf_next 0 l2) es' b"
      "\<forall>j \<in> set (gids t). j \<noteq> i \<longrightarrow> pg_pages p' j = pg_pages p j" using that by auto
    from descent_shrink [OF d(7) that(1,2) this] obtain t' where "gid t' = gid t" "gleaves t' = l1 @ (i, es') # l2"
      "gids t' = gids t" "stored (pg_pages p') 0 t'" "ordered s [] None t'" "gkeys t' \<subseteq> gkeys t" "depth_is n t'"
      using t(4) by blast
    then show ?thesis using t(1,3,6,8) unfolding btree_def by (intro exI [of _ t']) auto
  qed
  show thesis
    by (rule that [OF _ d(1,2,4,5) ch _ ds(2,3) _ shrink]) (use t(2,3) ds(1) d(3,6) in \<open>simp_all add: btree_insert_def\<close>)
qed

lemma btree_seek:
  assumes inv: "pager_inv p" and t: "btree s a b n I p root ls"
  obtains l1 i es l2 c where "ls = l1 @ (i, es) # l2"
    "\<forall>e \<in> set (flat l1). below s (fst e) (Some key)" "\<forall>e \<in> set (flat l2). key < fst e"
    "sorted (map fst es)" "cursor_lower_bound p root key = Some (Inr c)"
    "dropWhile (\<lambda>e. fst e < key) es \<noteq> [] \<longrightarrow>
       cursor_on p c es l2 \<and> cu_leaf c = i \<and> unat (cu_slot c) = length (takeWhile (\<lambda>e. fst e < key) es)"
    "dropWhile (\<lambda>e. fst e < key) es = [] \<longrightarrow>
       (case dropWhile (\<lambda>l. snd l = []) l2 of
          [] \<Rightarrow> \<not> cursor_is_valid c
        | (j, fs) # ms \<Rightarrow> cu_slot c = 0 \<and> cursor_on p c fs ms)"
proof -
  obtain l1 i es l2 buf where d: "ls = l1 @ (i, es) # l2" "descend p key root = Some (Inr (i, buf))"
    "pg_pages p i = Some buf" "leaf_page (leaf_next 0 l2) es buf" "sorted (map fst es)"
    "leaf_chain (pg_pages p) 0 ((i, es) # l2)"
    "\<forall>e \<in> set (flat l1). below s (fst e) (Some key)" "\<forall>e \<in> set (flat l2). key < fst e"
    by (rule btree_descend [OF inv t, of key]) (rule that)
  define k where "k = length (takeWhile (\<lambda>e. fst e < key) es)"
  have "length es = k + length (dropWhile (\<lambda>e. fst e < key) es)"
    using arg_cong [OF takeWhile_dropWhile_id [of "\<lambda>e. fst e < key" es], of length] unfolding k_def length_append by simp
  then have k: "k \<le> length es" "k < length es \<longleftrightarrow> dropWhile (\<lambda>e. fst e < key) es \<noteq> []"
    unfolding length_greater_0_conv [symmetric] by linarith+
  have uk: "unat (of_nat k :: u16) = k"
    using leaf_page_count(2) [OF d(4)] k(1) by (simp add: unat_word_of_nat_less)
  let ?c = "\<lparr>cu_leaf = i, cu_buf = buf, cu_slot = of_nat k\<rparr>"
  have on: "cursor_on p ?c es l2" using d(3,6) uk k(1) by (simp add: cursor_on_def)
  from skip_leaves_ok [OF inv on] obtain c where
    c: "skip_leaves p i buf (of_nat k) = Some (Inr c)" "skipped p ?c es l2 c" by auto
  have "cursor_lower_bound p root key = Some (Inr c)"
    using c(1) leaf_lower_bound_ok [OF d(4,5), of key] by (simp add: cursor_lower_bound_def d(2) k_def)
  then show thesis
    by (rule that [OF d(1,7,8,5)]) (use c(2) on k uk in \<open>auto simp: skipped_def k_def split: if_splits\<close>)
qed

lemma dropWhile_prefix:
  assumes "\<forall>x \<in> set xs. P x" and "\<forall>z \<in> set zs. \<not> P z"
  shows "dropWhile P (xs @ ys @ zs) = dropWhile P ys @ zs"
proof -
  have "dropWhile P (ys @ zs) = dropWhile P ys @ zs"
    using assms(2) by (induction ys) (cases zs, simp_all)
  then show ?thesis using assms(1) by (simp add: dropWhile_append2)
qed

lemma dropWhile_nth: "dropWhile P xs \<noteq> [] \<Longrightarrow> hd (dropWhile P xs) = xs ! length (takeWhile P xs) \<and> length (takeWhile P xs) < length xs"
  by (induction xs) auto

text \<open>The first entry of a new tree.\<close>

lemma empty_tree_insert:
  assumes inv: "pager_inv q" and pg: "pg_pages q root = Some init_leaf" and sz: "window a b" "sized a b key"
  obtains r where "btree_insert key v root q = Some (Inr (root, r))" "pager_inv r"
    "btree s a b 0 {root} r root [(root, [(key, v)])]" "free_pages r = free_pages q"
    "\<forall>i. i \<noteq> root \<longrightarrow> pg_pages r i = pg_pages q i"
proof -
  have beg: "cell_content_begin init_leaf = PAGE_SIZE"
    by (simp add: init_leaf_def Let_def bt_offsets PAGE_SIZE_def BT_MAGIC_def BT_VERSION_def subslice_overwrite_same
        subslice_overwrite_after subslice_overwrite_before cell_content_begin_def del: replicate.simps)
  have len: "length key < 2 ^ 32" "COMMON_HEADER_SIZE + 2 * length [] + 2 + cell_size key \<le> PAGE_SIZE"
    using window_one [OF sz] by (simp_all add: cell_size_def bt_offsets PAGE_SIZE_def)
  obtain buf where buf: "leaf_insert_at 0 key v init_leaf = Inr buf" "leaf_page 0 [(key, v)] buf"
    by (rule leaf_insert_at_ok [OF init_leaf_page, of 0 key v]) (use len beg in simp_all)
  have "length buf = PAGE_SIZE" using buf(2) by (simp add: leaf_page_def slotted_def)
  with pgs.write_law [OF inv pg, of buf] obtain r where
    r: "write_page root buf q = Inr r" "pager_inv r" "pg_pages r = (pg_pages q)(root \<mapsto> buf)" by auto
  have "kind_of init_leaf = Inr Leaf" using init_leaf_page by (simp add: leaf_page_def slotted_def)
  then have "btree_insert key v root q = Some (Inr (root, r))"
    using buf(1) r(1) leaf_lower_bound_ok [OF init_leaf_page, of key] pgs.read_law [OF inv pg]
    by (simp add: btree_insert_def) (subst insert_loop.simps, simp add: insert_at_leaf_def)
  moreover have "btree s a b 0 {root} r root [(root, [(key, v)])]"
    unfolding btree_def by (intro exI [of _ "GLeaf root [(key, v)]"]) (use sz buf r(3) in \<open>auto simp: below_def\<close>)
  moreover have "free_pages r = free_pages q" using free_pages_write [of q root r buf] r(3) pg by simp
  ultimately show thesis using that [OF _ r(2)] r(3) by simp
qed

lemma first_insert:
  assumes inv: "pager_inv p" and free: "1 < free_pages p" and sz: "window a b" "sized a b key"
  obtains root q r where "btree_create p = Inr (root, q)" "btree_insert key v root q = Some (Inr (root, r))"
    "pager_inv r" "btree s a b 0 {root} r root [(root, [(key, v)])]" "free_pages p = free_pages r + 1"
proof -
  obtain root q where q: "btree_create p = Inr (root, q)" "pager_inv q"
    "pg_pages q = (pg_pages p)(root \<mapsto> init_leaf)" "free_pages q = free_pages p - 1"
    by (rule btree_create_ok [OF inv, of s a b]) (use free in simp)
  have "pg_pages q root = Some init_leaf" using q(3) by simp
  then obtain r where "btree_insert key v root q = Some (Inr (root, r))" "pager_inv r"
    "btree s a b 0 {root} r root [(root, [(key, v)])]" "free_pages r = free_pages q"
    by (rule empty_tree_insert [OF q(2) _ sz, of root v s])
  with that [OF q(1), of r] q(4) free show thesis by simp
qed

text \<open>A tree with one entry, and insertions of a key so long that a leaf has room for two.\<close>

lemma tree_of_one:
  obtains p root n I ls where "pager_inv p" "btree True 12 12 n I p root ls" "flat ls = [([1], 7)]" "1 < free_pages p"
proof -
  obtain p where p: "pager_inv p" "pg_pages p = (\<lambda>_. None)" by (rule pager_create)
  have free: "free_pages p = 65534" by (rule free_pages_new [OF p(2)])
  obtain root r where "pager_inv r" "btree True 12 12 0 {root} r root [(root, [([1], 7)])]" "free_pages p = free_pages r + 1"
    by (rule first_insert [OF p(1) _ key1_sized(2,1), of 7 True]) (use free in simp)
  with that [of r 0 "{root}" root "[(root, [([1], 7)])]"] free show thesis by simp
qed

definition long_key :: bytes where
  "long_key = replicate 3988 0"

lemma long_key_sized: "sized 4000 4000 long_key" "window 4000 4000"
proof -
  have "varint_u32_len 3988 = 2"
    by (subst varint_u32_len.simps, subst varint_u32_len.simps) (simp add: word_le_nat_alt drop_bit_eq_div unat_div)
  then show "sized 4000 4000 long_key" "window 4000 4000"
    by (simp_all add: sized_def cell_size_def window_def long_key_def)
qed

lemma long_key_insert:
  assumes "pager_inv p" "btree False 4000 4000 n I p root ls" "n + 1 < free_pages p"
    "\<forall>e \<in> set (flat ls). fst e = long_key"
  obtains p' root' n' I' ls' where "btree_insert long_key v root p = Some (Inr (root', p'))" "pager_inv p'"
    "btree False 4000 4000 n' I' p' root' ls'" "n' \<le> n + 1" "free_pages p \<le> free_pages p' + n + 2"
    "\<forall>e \<in> set (flat ls'). fst e = long_key" "length (flat ls') = Suc (length (flat ls))"
    "(\<forall>l \<in> set ls. snd l \<noteq> []) \<longrightarrow> (\<forall>l \<in> set ls'. snd l \<noteq> [])"
proof -
  from btree_insert_ok [OF assms(1,2) long_key_sized(2,1) assms(3), of v]
  obtain root' p' n' I' ls' xs ys where r: "btree_insert long_key v root p = Some (Inr (root', p'))" "pager_inv p'"
    "btree False 4000 4000 n' I' p' root' ls'" "n' \<le> n + 1" "free_pages p \<le> free_pages p' + n + 2"
    "flat ls = xs @ ys" "flat ls' = xs @ (long_key, v) # ys"
    "(\<forall>l \<in> set ls. snd l \<noteq> []) \<longrightarrow> (\<forall>l \<in> set ls'. snd l \<noteq> [])" by blast
  show thesis by (rule that [OF r(1-5) _ _ r(8)]) (use assms(4) r(6,7) in auto)
qed

lemma seek_first:
  assumes "pager_inv p" and "btree True a b n I p root ls"
  shows "\<exists>c. cursor_lower_bound p root key = Some (Inr c) \<and>
    (case dropWhile (\<lambda>e. fst e < key) (flat ls) of
       [] \<Rightarrow> \<not> cursor_is_valid c
     | (k, v) # _ \<Rightarrow> cursor_is_valid c \<and> cursor_key c = Inr k \<and> cursor_payload c = Inr v)"
  supply dropWhile_eq_Nil_conv [simp del]
proof (rule btree_seek [OF assms, of key])
  fix l1 i es l2 c
  let ?P = "\<lambda>e::bytes \<times> u64. fst e < key"
  assume ls: "ls = l1 @ (i, es) # l2" "\<forall>e \<in> set (flat l1). below True (fst e) (Some key)"
    "\<forall>e \<in> set (flat l2). key < fst e" and c: "cursor_lower_bound p root key = Some (Inr c)"
    and one: "dropWhile ?P es \<noteq> [] \<longrightarrow> cursor_on p c es l2 \<and> cu_leaf c = i \<and> unat (cu_slot c) = length (takeWhile ?P es)"
    and two: "dropWhile ?P es = [] \<longrightarrow> (case dropWhile (\<lambda>l. snd l = []) l2 of [] \<Rightarrow> \<not> cursor_is_valid c
        | (j, fs) # ms \<Rightarrow> cu_slot c = 0 \<and> cursor_on p c fs ms)"
  have D: "dropWhile ?P (flat ls) = dropWhile ?P es @ flat l2"
  proof -
    have "\<forall>e \<in> set (flat l1). ?P e" "\<forall>e \<in> set (flat l2). \<not> ?P e"
      using ls(2,3) by (auto simp: below_def dest: order.asym)
    from dropWhile_prefix [OF this, of es] show ?thesis by (simp add: ls(1) flat_def)
  qed
  have "case dropWhile ?P es @ flat l2 of [] \<Rightarrow> \<not> cursor_is_valid c
    | (k, v) # _ \<Rightarrow> cursor_is_valid c \<and> cursor_key c = Inr k \<and> cursor_payload c = Inr v"
  proof (cases "dropWhile ?P es = []")
    case True
    show ?thesis
    proof (cases "dropWhile (\<lambda>l. snd l = []) l2")
      case Nil
      then have "flat l2 = []" using flat_dropWhile_empty [of l2] by (simp add: flat_def)
      with True two Nil show ?thesis by simp
    next
      case (Cons l ms)
      obtain j fs where l: "l = (j, fs)" by fastforce
      have "fs \<noteq> []" using Cons hd_dropWhile [of "\<lambda>l. snd l = []" l2] by (simp add: l)
      then obtain e fs' where fs: "fs = e # fs'" by (cases fs) auto
      have "flat l2 = e # fs' @ flat ms" using flat_dropWhile_empty [of l2] by (simp add: Cons l fs flat_def)
      with True two Cons show ?thesis
        using cursor_read [of p c fs ms] cursor_page(3) [of p c fs ms] by (auto simp: l fs split: prod.split)
    qed
  next
    case False
    with one have on: "cursor_on p c es l2" "unat (cu_slot c) = length (takeWhile ?P es)" by auto
    from False dropWhile_nth [OF False] obtain e r where "dropWhile ?P es = e # r" "e = es ! unat (cu_slot c)"
      "unat (cu_slot c) < length es" using on(2) by (cases "dropWhile ?P es") auto
    then show ?thesis using cursor_read [OF on(1)] cursor_page(3) [OF on(1)] by (simp split: prod.split)
  qed
  with c D show ?thesis by simp
qed

text \<open>
  C36. Seeking a key in a B-tree of distinct keys returns a cursor on the first entry whose key is
  not less than it, and an invalid cursor exactly when there is none.
\<close>

theorem btree_seek_spec:
  assumes "pager_inv p" and "btree True a b n I p root ls"
  shows "\<exists>c. cursor_lower_bound p root key = Some (Inr c) \<and>
    (case dropWhile (\<lambda>e. fst e < key) (flat ls) of
       [] \<Rightarrow> \<not> cursor_is_valid c
     | (k, v) # _ \<Rightarrow> cursor_is_valid c \<and> cursor_key c = Inr k \<and> cursor_payload c = Inr v)"
  using assms by (rule seek_first)

theorem btree_seek_spec_witness:
  "\<exists>p n I root ls c d. btree True 12 12 n I p root ls \<and> flat ls = [([1], 7)] \<and>
     cursor_lower_bound p root [0, 5] = Some (Inr c) \<and> cursor_key c = Inr [1] \<and> cursor_payload c = Inr 7 \<and>
     cursor_lower_bound p root [1, 0] = Some (Inr d) \<and> \<not> cursor_is_valid d"
proof (rule tree_of_one)
  fix p n I root ls
  assume t: "pager_inv p" "btree True 12 12 n I p root ls" "flat ls = [([1], 7)]"
  have "([1::u8] < [0, 5]) = False" "([1::u8] < [1, 0]) = True" by simp_all
  then obtain c d where "cursor_lower_bound p root [0, 5] = Some (Inr c)" "cursor_key c = Inr [1]" "cursor_payload c = Inr 7"
    "cursor_lower_bound p root [1, 0] = Some (Inr d)" "\<not> cursor_is_valid d"
    using btree_seek_spec [OF t(1,2), of "[0, 5]"] btree_seek_spec [OF t(1,2), of "[1, 0]"] t(3) by auto
  with t show ?thesis by blast
qed

text \<open>
  C38. A scan of a B-tree of distinct keys returns its entries in order from the first leaf that has
  any up to, and not including, the next leaf that has none: of a tree without empty leaves, every
  entry; of a tree with a leaf that deletions have emptied, nothing that stands behind it.
\<close>

theorem scan_all_spec:
  assumes "pager_inv p" and "btree True a b n I p root ls"
  shows "scan_all p root = Some (Inr (flat (takeWhile (\<lambda>l. snd l \<noteq> []) (dropWhile (\<lambda>l. snd l = []) ls))))"
  supply dropWhile_eq_Nil_conv [simp del]
proof (rule btree_seek [OF assms, of "[]"])
  fix l1 i es l2 c
  assume ls: "ls = l1 @ (i, es) # l2" "\<forall>e \<in> set (flat l1). below True (fst e) (Some [])"
    and c: "cursor_lower_bound p root [] = Some (Inr c)"
    and one: "dropWhile (\<lambda>e. fst e < []) es \<noteq> [] \<longrightarrow>
       cursor_on p c es l2 \<and> cu_leaf c = i \<and> unat (cu_slot c) = length (takeWhile (\<lambda>e. fst e < []) es)"
    and two: "dropWhile (\<lambda>e. fst e < []) es = [] \<longrightarrow> (case dropWhile (\<lambda>l. snd l = []) l2 of [] \<Rightarrow> \<not> cursor_is_valid c
        | (j, fs) # ms \<Rightarrow> cu_slot c = 0 \<and> cursor_on p c fs ms)"
  have e: "dropWhile (\<lambda>e::bytes \<times> u64. fst e < []) es = es" "takeWhile (\<lambda>e::bytes \<times> u64. fst e < []) es = []"
    by (cases es; simp)+
  have "flat l1 = []" using ls(2) by (cases "flat l1") (auto simp: below_def)
  then have l1: "\<forall>l \<in> set l1. snd l = []" by (simp add: flat_def)
  have d: "dropWhile (\<lambda>l. snd l = []) ls = dropWhile (\<lambda>l. snd l = []) ((i, es) # l2)"
    unfolding ls(1) using l1 by (simp add: dropWhile_append2)
  have sc: "scan_all p root = scan_loop p c []" by (simp add: scan_all_def c)
  show ?thesis
  proof (cases "es = []")
    case True
    show ?thesis
    proof (cases "dropWhile (\<lambda>l. snd l = []) l2")
      case Nil
      then have "\<not> cursor_is_valid c" using two [unfolded Nil] True by simp
      then have "scan_loop p c [] = Some (Inr [])" by (subst scan_loop.simps) simp
      with True Nil d sc show ?thesis by (simp add: flat_def)
    next
      case (Cons l ms)
      obtain j fs where l: "l = (j, fs)" by fastforce
      have "fs \<noteq> []" using Cons hd_dropWhile [of "\<lambda>l. snd l = []" l2] by (simp add: l)
      moreover have "cursor_on p c fs ms" "cu_slot c = 0" using two True Cons by (simp_all add: l)
      ultimately show ?thesis
        using scan_loop_ok [OF assms(1), of c fs ms "[]"] True Cons d sc by (simp add: l flat_def)
    qed
  next
    case False
    then show ?thesis using one e scan_loop_ok [OF assms(1), of c es l2 "[]"] d sc by (simp add: flat_def)
  qed
qed

theorem scan_all_spec_witness:
  "\<exists>p n I root ls. btree True 12 12 n I p root ls \<and> flat ls = [([1], 7)] \<and>
     scan_all p root = Some (Inr (flat (takeWhile (\<lambda>l. snd l \<noteq> []) (dropWhile (\<lambda>l. snd l = []) ls))))"
  by (rule tree_of_one) (use scan_all_spec in blast)

text \<open>Looking an entry up in a leaf of distinct keys.\<close>

lemma delete_in_leaf_ok:
  assumes inv: "pager_inv p" and i: "pg_pages p i = Some buf" and pg: "leaf_page r es buf"
    and s: "sorted (map fst es)" "distinct (map fst es)"
  shows "if (key, v) \<in> set es
    then \<exists>buf' p'. delete_in_leaf key v i buf p = Inr (True, p') \<and> pager_inv p' \<and>
      pg_pages p' = (pg_pages p)(i \<mapsto> buf') \<and> leaf_page r (remove1 (key, v) es) buf'
    else delete_in_leaf key v i buf p = Inr (False, p)"
proof -
  let ?c = "\<lambda>j. cmp_pair (es ! j) (key, v)"
  let ?f = "\<lambda>j. rbind (unwrap (leaf_cell_key_and_payload buf j)) (\<lambda>e. Inr (cmp_pair e (key, v)))"
  note cnt = leaf_page_count(1) [OF pg]
  have f: "?f ([0..<length es] ! j) = Inr (?c j)" if "j < length [0..<length es]" for j
    using leaf_cell_ok [OF pg, of j] that by (simp add: unwrap_def)
  have lt: "fst (es ! j) < fst (es ! k)" if "j < k" "k < length es" for j k
    using that s sorted_wrt_nth_less [of "(<)" "map fst es" j k] by (simp add: strict_sorted_iff)
  have mono: "rank (?c j) \<le> rank (?c k)" if "j \<le> k" "k < length [0..<length es]" for j k
    using that lt [of j k] by (cases "j = k") (auto simp: cmp_pair_def cmp_def split: prod.splits)
  have eq: "?c j = Equal \<longleftrightarrow> es ! j = (key, v)" for j
    by (cases "es ! j") (auto simp: cmp_pair_def cmp_def split: if_splits)
  have dis: "distinct es" using s(2) by (simp add: distinct_map)
  show ?thesis
  proof (rule binary_search_by_ok [of "[0..<length es]" ?f ?c, OF f mono])
    fix j assume j: "binary_search_by ?f [0..<length es] = Inr (Inr j)" "j < length [0..<length es]" "?c j = Equal"
    then have e: "es ! j = (key, v)" "j < length es" using eq by simp_all
    obtain buf' where b: "delete_from_leaf j buf = Inr buf'" "leaf_page r (take j es @ drop (Suc j) es) buf'"
      by (rule delete_from_leaf_ok [OF pg e(2)])
    have "length buf' = PAGE_SIZE" using b(2) by (simp add: leaf_page_def slotted_def)
    then obtain p' where p': "write_page i buf' p = Inr p'" "pager_inv p'" "pg_pages p' = (pg_pages p)(i \<mapsto> buf')"
      using pgs.write_law [OF inv] i by blast
    have "remove1 (key, v) es = take j es @ drop (Suc j) es"
      using e dis id_take_nth_drop [OF e(2)] by (metis distinct_append not_distinct_conv_prefix remove1_append remove1.simps(2) disjoint_iff list.set_intros(1))
    moreover have "(key, v) \<in> set es" using e nth_mem by metis
    moreover have "delete_in_leaf key v i buf p = Inr (True, p')" using b p' j(1) by (simp add: delete_in_leaf_def cnt)
    ultimately show ?thesis using b(2) p' by auto
  next
    fix j assume j: "binary_search_by ?f [0..<length es] = Inr (Inl j)"
      "\<And>k. k < j \<Longrightarrow> ?c k = Less" "\<And>k. j \<le> k \<Longrightarrow> k < length [0..<length es] \<Longrightarrow> ?c k = Greater"
    have "es ! k \<noteq> (key, v)" if "k < length es" for k
      using j(2) [of k] j(3) [of k] eq [of k] that by (cases "k < j") auto
    then have "(key, v) \<notin> set es" by (auto simp: in_set_conv_nth)
    then show ?thesis using j(1) by (simp add: delete_in_leaf_def cnt)
  qed
qed

text \<open>
  C37. Deleting from a B-tree of distinct keys returns whether the entry was there and removes
  exactly it: the other entries, the pages the tree is made of, its root and every page outside
  the tree stay as they were.
\<close>

theorem btree_delete_spec:
  assumes "pager_inv p" and "btree True a b n I p root ls" and "distinct (map fst (flat ls))"
  shows "\<exists>p' ls'. btree_delete key v root p = Some (Inr ((key, v) \<in> set (flat ls), p')) \<and> pager_inv p' \<and>
    btree True a b n I p' root ls' \<and> flat ls' = remove1 (key, v) (flat ls) \<and> map fst ls' = map fst ls \<and>
    (\<forall>i. i \<notin> I \<longrightarrow> pg_pages p' i = pg_pages p i)"
proof (rule btree_descend [OF assms(1,2), of key])
  fix l1 i es l2 buf
  assume ls: "ls = l1 @ (i, es) # l2" and d: "descend p key root = Some (Inr (i, buf))"
    and i: "pg_pages p i = Some buf" "i \<in> I" and pg: "leaf_page (leaf_next 0 l2) es buf" "sorted (map fst es)"
    and l1: "\<forall>e \<in> set (flat l1). below True (fst e) (Some key)" and l2: "\<forall>e \<in> set (flat l2). key < fst e"
    and shrink: "\<And>es' p' buf'. set es' \<subseteq> set es \<Longrightarrow> sorted (map fst es') \<Longrightarrow> leaf_page (leaf_next 0 l2) es' buf' \<Longrightarrow>
      pg_pages p' = (pg_pages p)(i \<mapsto> buf') \<Longrightarrow> btree True a b n I p' root (l1 @ (i, es') # l2)"
  have fl: "flat (l1 @ (i, xs) # l2) = flat l1 @ xs @ flat l2" for xs by (simp add: flat_def)
  have dis: "distinct (map fst es)" using assms(3) by (simp add: ls fl)
  have out: "(key, v) \<notin> set (flat l1)" "(key, v) \<notin> set (flat l2)" using l1 l2 by (auto simp: below_def)
  show ?thesis
  proof (cases "(key, v) \<in> set es")
    case True
    with delete_in_leaf_ok [OF assms(1) i(1) pg dis, of key v] obtain buf' p' where p':
      "delete_in_leaf key v i buf p = Inr (True, p')" "pager_inv p'" "pg_pages p' = (pg_pages p)(i \<mapsto> buf')"
      "leaf_page (leaf_next 0 l2) (remove1 (key, v) es) buf'" by auto
    have "sorted (map fst (remove1 (key, v) es))"
      using pg(2) by (metis sorted_map_remove1)
    from shrink [OF set_remove1_subset this p'(4,3)] p'(1,2) True out i(2) show ?thesis
      by (intro exI [of _ p'] exI [of _ "l1 @ (i, remove1 (key, v) es) # l2"])
         (auto simp: btree_delete_def d ls fl remove1_append p'(3))
  next
    case False
    with delete_in_leaf_ok [OF assms(1) i(1) pg dis, of key v] have "delete_in_leaf key v i buf p = Inr (False, p)" by simp
    then show ?thesis using False out assms(1,2)
      by (intro exI [of _ p] exI [of _ ls]) (simp add: btree_delete_def d ls fl remove1_idem)
  qed
qed

theorem btree_delete_spec_witness:
  "\<exists>p n I root ls p' ls'. btree True 12 12 n I p root ls \<and> flat ls = [([1], 7)] \<and>
     btree_delete [1] 7 root p = Some (Inr (True, p')) \<and> btree True 12 12 n I p' root ls' \<and> flat ls' = []"
proof (rule tree_of_one)
  fix p n I root ls
  assume t: "pager_inv p" "btree True 12 12 n I p root ls" "flat ls = [([1], 7)]"
  then obtain p' ls' where "btree_delete [1] 7 root p = Some (Inr (True, p'))" "btree True 12 12 n I p' root ls'" "flat ls' = []"
    using btree_delete_spec [OF t(1,2), of "[1]" 7] by auto
  with t show ?thesis by blast
qed

text \<open>A leaf that is stored in a page has entries that fit it.\<close>

lemma btree_leaf_fits:
  assumes "btree s a b n I p root ls" "l \<in> set ls"
  shows "COMMON_HEADER_SIZE + entries_size (snd l) \<le> PAGE_SIZE"
proof -
  have mem: "\<exists>r b. leaf_page r (snd l) b" if "leaf_chain pg nxt ls" "l \<in> set ls" for pg nxt
    using that by (induction pg nxt ls rule: leaf_chain.induct) (auto, blast)
  obtain t where "stored (pg_pages p) 0 t" "gleaves t = ls" using assms(1) by (auto simp: btree_def)
  then have "leaf_chain (pg_pages p) 0 ls" using stored_chain(1) by blast
  from mem [OF this assms(2)] obtain r buf where "slotted Leaf (map leaf_cell (snd l)) buf" by (auto simp: leaf_page_def)
  then have "header_size Leaf + entries_size (snd l) \<le> PAGE_SIZE"
    by (rule entries_size_slotted) simp
  then show ?thesis by simp
qed

text \<open>
  C39. When every entry of a B-tree has the same key and its last leaf is not empty, a seek of that key starts in the last leaf:
  what a reader then sees are the entries of that leaf only, and those of the leaves before it
  are lost to it.
\<close>

theorem seek_duplicates_last_leaf:
  assumes "pager_inv p" and "btree False a b n I p root ls"
    and "snd (last ls) \<noteq> []" and "\<forall>e \<in> set (flat ls). fst e = key"
  shows "\<exists>c. cursor_lower_bound p root key = Some (Inr c) \<and> cu_leaf c = fst (last ls) \<and>
    scan_loop p c [] = Some (Inr (snd (last ls)))"
proof (rule btree_seek [OF assms(1,2), of key])
  fix l1 i es l2 c
  assume ls: "ls = l1 @ (i, es) # l2" and l2: "\<forall>e \<in> set (flat l2). key < fst e"
    and c: "cursor_lower_bound p root key = Some (Inr c)"
    and one: "dropWhile (\<lambda>e. fst e < key) es \<noteq> [] \<longrightarrow>
       cursor_on p c es l2 \<and> cu_leaf c = i \<and> unat (cu_slot c) = length (takeWhile (\<lambda>e. fst e < key) es)"
  have "flat l2 = []" using l2 assms(4) by (cases "flat l2") (auto simp: ls)
  then have l2: "l2 = []" using assms(3) last_in_set [of l2] by (auto simp: ls flat_def split: if_splits)
  obtain e es' where es: "es = e # es'" using assms(3) by (cases es) (auto simp: ls l2)
  have "fst e = key" using assms(4) by (simp add: ls es flat_def)
  then have "cursor_on p c es l2" "cu_leaf c = i" "unat (cu_slot c) = 0" using one by (simp_all add: es)
  then show ?thesis using scan_loop_ok [OF assms(1), of c es l2 "[]"] c by (simp add: ls l2 es flat_def)
qed

theorem seek_duplicates_last_leaf_witness:
  "\<exists>p0 r0 p1 p2 r2 p3 r3 p4 c es. pager_open None = Inr p0 \<and> btree_create p0 = Inr (r0, p1) \<and>
     btree_insert long_key 1 r0 p1 = Some (Inr (r0, p2)) \<and> btree_insert long_key 2 r0 p2 = Some (Inr (r2, p3)) \<and>
     btree_insert long_key 3 r2 p3 = Some (Inr (r3, p4)) \<and>
     cursor_lower_bound p4 r3 long_key = Some (Inr c) \<and> scan_loop p4 c [] = Some (Inr es) \<and> length es < 3"
proof -
  obtain p0 where p0: "pager_open None = Inr p0" "pager_inv p0" "pg_pages p0 = (\<lambda>_. None)" by (rule pager_create)
  have f0: "free_pages p0 = 65534" by (rule free_pages_new [OF p0(3)])
  obtain r0 p1 p2 where p2: "btree_create p0 = Inr (r0, p1)" "btree_insert long_key 1 r0 p1 = Some (Inr (r0, p2))" "pager_inv p2"
    "btree False 4000 4000 0 {r0} p2 r0 [(r0, [(long_key, 1)])]" "free_pages p0 = free_pages p2 + 1"
    by (rule first_insert [OF p0(2) _ long_key_sized(2,1), of 1 False]) (use f0 in simp)
  have f2: "0 + 1 < free_pages p2" using p2(5) f0 by simp
  obtain r2 p3 n3 i3 l3 where p3: "btree_insert long_key 2 r0 p2 = Some (Inr (r2, p3))" "pager_inv p3"
    "btree False 4000 4000 n3 i3 p3 r2 l3" "n3 \<le> 0 + 1" "free_pages p2 \<le> free_pages p3 + 0 + 2"
    "\<forall>e \<in> set (flat l3). fst e = long_key" "length (flat l3) = 2" "\<forall>l \<in> set l3. snd l \<noteq> []"
    by (rule long_key_insert [OF p2(3,4) f2, of 2]) simp_all
  have f3: "n3 + 1 < free_pages p3" using p3(4,5) p2(5) f0 by simp
  obtain r3 p4 n4 i4 l4 where p4: "btree_insert long_key 3 r2 p3 = Some (Inr (r3, p4))" "pager_inv p4"
    "btree False 4000 4000 n4 i4 p4 r3 l4" "\<forall>e \<in> set (flat l4). fst e = long_key" "length (flat l4) = 3"
    "\<forall>l \<in> set l4. snd l \<noteq> []"
    by (rule long_key_insert [OF p3(2,3) f3 p3(6), of 3]) (use p3(7,8) in simp_all)
  have l4: "last l4 \<in> set l4" using p4(5) by (cases l4) simp_all
  from seek_duplicates_last_leaf [OF p4(2,3) _ p4(4)] p4(6) l4 obtain c where
    c: "cursor_lower_bound p4 r3 long_key = Some (Inr c)" "scan_loop p4 c [] = Some (Inr (snd (last l4)))" by blast
  have "set (snd (last l4)) \<subseteq> set (flat l4)" using l4 by (auto simp: flat_def)
  then have "\<forall>e \<in> set (snd (last l4)). fst e = long_key" using p4(4) by blast
  then have "\<forall>e \<in> set (snd (last l4)). sized 4000 4000 (fst e)" using long_key_sized(1) by simp
  from sized_entries(1) [OF this] have "4000 * length (snd (last l4)) \<le> 8192"
    using btree_leaf_fits [OF p4(3) l4] unfolding PAGE_SIZE_def by linarith
  then have "length (snd (last l4)) < 3" by simp
  with p0(1) p2(1,2) p3(1) p4(1) c show ?thesis by blast
qed

text \<open>Splitting a leaf panics when one of the halves does not fit a page.\<close>

lemma entries_size_mem: "e \<in> set es \<Longrightarrow> cell_size (fst e) + 2 \<le> entries_size es"
  by (induction es) auto

lemma rebuild_leaf_cases: "is_panic (rebuild_leaf r es) \<or> (\<exists>b. rebuild_leaf r es = Inr b)"
  using rebuild_leaf_panics [of es r] rebuild_leaf_ok [of es r]
  by (cases "COMMON_HEADER_SIZE + entries_size es \<le> PAGE_SIZE") (auto simp: not_le)

lemma panic_rbind_left: "is_panic m \<Longrightarrow> is_panic (rbind m f)"
  by (cases m) (simp_all add: is_panic_Inl)

text \<open>
  Inserting a key whose cell is larger than what an empty leaf has room for panics, whenever
  the file has a free page: the leaf is split, and the half with the key does not fit its page.
\<close>

lemma insert_large_key_panics:
  assumes "pager_inv p" and "btree s a b n I p root ls" and "0 < free_pages p"
    and "PAGE_SIZE < COMMON_HEADER_SIZE + (cell_size key + 2)" and "length key < 2 ^ 32"
  shows "\<exists>r. btree_insert key v root p = Some r \<and> is_panic r"
proof (rule btree_descend [OF assms(1,2), of key v])
  fix l1 i es l2 buf
  assume pg: "leaf_page (leaf_next 0 l2) es buf" "sorted (map fst es)"
    and ins: "\<exists>path'. btree_insert key v root p = Some (insert_at_leaf key v path' i buf root p)"
  from ins obtain path where path: "btree_insert key v root p = Some (insert_at_leaf key v path i buf root p)" by blast
  note cnt = leaf_page_count(1) [OF pg(1)]
  have "cell_content_begin buf \<le> PAGE_SIZE" using pg(1) by (simp add: leaf_page_def slotted_def)
  then have "cell_content_begin buf < COMMON_HEADER_SIZE + 2 * length es + 2 + cell_size key"
    using assms(4) by simp
  from insert_at_full(1) [OF pg(1) assms(5) this]
  have split: "insert_at_leaf key v path i buf root p = insert_split_leaf key v path i buf root p"
    by (simp add: insert_at_leaf_def leaf_lower_bound_ok [OF pg] is_panic_Inl)
  have all: "collect_results (\<lambda>i. unwrap (leaf_cell_key_and_payload buf i)) [0..<cell_count buf] = Inr es"
    by (rule collect_results_ok) (simp_all add: leaf_cell_ok [OF pg(1)] cnt unwrap_def)
  obtain r where r: "binary_search_by (\<lambda>(k, _). Inr (cmp k key)) es = Inr r" "either_pos r \<le> length es"
    by (rule search_entries [OF pg(2)])
  obtain j q where q: "allocate_page p = Inr (j, q)" by (rule alloc_free [OF assms(1,3)])
  define fs where "fs = take (either_pos r) es @ (key, v) # drop (either_pos r) es"
  let ?m = "length fs div 2"
  have big: "is_panic (rebuild_leaf x xs)" if "(key, v) \<in> set xs" for x xs
    using entries_size_mem [OF that] assms(4) by (intro rebuild_leaf_panics) simp
  have "(key, v) \<in> set (take ?m fs @ drop ?m fs)" unfolding append_take_drop_id by (simp add: fs_def)
  then have "is_panic (rebuild_leaf (right_sibling buf) (drop ?m fs)) \<or> is_panic (rebuild_leaf j (take ?m fs))"
    using big unfolding set_append by blast
  moreover have "insert_split_leaf key v path i buf root p =
      rbind (rebuild_leaf (right_sibling buf) (drop ?m fs)) (\<lambda>right_buf.
      rbind (rebuild_leaf j (take ?m fs)) (\<lambda>buf.
      rbind (write_page i buf q) (\<lambda>p.
      rbind (write_page j right_buf p) (\<lambda>p.
      insert_into_parent path i (fst (drop ?m fs ! 0)) j root p))))"
    using r q all by (simp add: insert_split_leaf_def Let_def vec_insert_def flip: fs_def)
  ultimately have "is_panic (insert_split_leaf key v path i buf root p)"
    using rebuild_leaf_cases [of "right_sibling buf" "drop ?m fs"] by (auto simp: panic_rbind_left)
  then show ?thesis using path split by simp
qed

lemma insert_large_key_panics_example:
  "\<exists>p n I root ls r. btree True 12 12 n I p root ls \<and> btree_insert (replicate 8200 0) 7 root p = Some r \<and> is_panic r"
proof (rule tree_of_one)
  fix p n I root ls
  assume t: "pager_inv p" "btree True 12 12 n I p root ls" "1 < free_pages p"
  define k :: bytes where "k = replicate 8200 0"
  have "PAGE_SIZE < COMMON_HEADER_SIZE + (cell_size k + 2)" "length k < 2 ^ 32"
    by (simp_all add: cell_size_def PAGE_SIZE_def k_def)
  from insert_large_key_panics [OF t(1,2) _ this, of 7] t(3) obtain r where "btree_insert k 7 root p = Some r" "is_panic r"
    by auto
  with t(2) show ?thesis unfolding k_def by blast
qed

end
