(* ===== verification/BTreeCursor.thy ===== *)
theory BTreeCursor
  imports BTreeScan
begin

text \<open>
  A cursor as the list of entries before it, in a tree without empty leaves.
\<close>

definition sees :: "pager \<Rightarrow> cursor \<Rightarrow> (bytes \<times> u64) list \<Rightarrow> bool" where
  "sees p c E \<longleftrightarrow> E = [] \<and> \<not> cursor_is_valid c \<or>
     (\<exists>es ls. cursor_on p c es ls \<and> unat (cu_slot c) < length es \<and> (\<forall>l \<in> set ls. snd l \<noteq> []) \<and>
        E = drop (unat (cu_slot c)) es @ flat ls)"

lemma sees_Nil: "sees p c [] \<Longrightarrow> \<not> cursor_is_valid c"
  by (auto simp: sees_def)

lemma sees_Cons:
  assumes inv: "pager_inv p" and sees: "sees p c ((k, v) # E)"
  shows "cursor_is_valid c" "cursor_key c = Inr k" "cursor_payload c = Inr v"
    "\<exists>c'. cursor_advance p c = Inr (E \<noteq> [], c') \<and> (E \<noteq> [] \<longrightarrow> sees p c' E)"
proof -
  from sees obtain es ls where on: "cursor_on p c es ls" and lt: "unat (cu_slot c) < length es"
    and ne: "\<forall>l \<in> set ls. snd l \<noteq> []" and E: "(k, v) # E = drop (unat (cu_slot c)) es @ flat ls"
    by (auto simp: sees_def)
  have d: "drop (unat (cu_slot c)) es = es ! unat (cu_slot c) # drop (Suc (unat (cu_slot c))) es"
    using lt by (simp add: Cons_nth_drop_Suc)
  then have e: "es ! unat (cu_slot c) = (k, v)" and E': "E = drop (Suc (unat (cu_slot c))) es @ flat ls" using E by simp_all
  show "cursor_is_valid c" using cursor_page(3) [OF on] lt by simp
  show "cursor_key c = Inr k" "cursor_payload c = Inr v" using cursor_read [OF on lt] e by simp_all
  consider "Suc (unat (cu_slot c)) < length es" | "Suc (unat (cu_slot c)) = length es" "ls = []"
    | j fs ms where "Suc (unat (cu_slot c)) = length es" "ls = (j, fs) # ms"
    using lt by (cases ls) (auto intro: Suc_lessI)
  then show "\<exists>c'. cursor_advance p c = Inr (E \<noteq> [], c') \<and> (E \<noteq> [] \<longrightarrow> sees p c' E)"
  proof cases
    case 1
    from cursor_advance_ok(1) [OF inv on lt 1] 1 ne E' show ?thesis unfolding sees_def by fastforce
  next
    case 2
    from cursor_advance_ok(2) [OF inv on lt 2] 2 E' show ?thesis by simp
  next
    case 3
    then have fs: "fs \<noteq> []" "E = fs @ flat ms" "\<forall>l \<in> set ms. snd l \<noteq> []" using ne E' by simp_all
    from cursor_advance_ok(3) [OF inv on lt 3] obtain c' where
      "cursor_advance p c = Inr (fs \<noteq> [], c')" "cursor_on p c' fs ms" "cu_slot c' = 0" by blast
    with fs show ?thesis unfolding sees_def by fastforce
  qed
qed

lemma seek_sees:
  assumes inv: "pager_inv p" and t: "btree True a b n I p root ls" and ne: "\<forall>l \<in> set ls. snd l \<noteq> []"
  obtains c where "cursor_lower_bound p root key = Some (Inr c)" "sees p c (dropWhile (\<lambda>e. fst e < key) (flat ls))"
  supply dropWhile_eq_Nil_conv [simp del]
proof (rule btree_seek [OF inv t, of key])
  fix l1 i es l2 c
  let ?P = "\<lambda>e::bytes \<times> u64. fst e < key"
  assume ls: "ls = l1 @ (i, es) # l2" "\<forall>e \<in> set (flat l1). below True (fst e) (Some key)"
    "\<forall>e \<in> set (flat l2). key < fst e" and c: "cursor_lower_bound p root key = Some (Inr c)"
    and one: "dropWhile ?P es \<noteq> [] \<longrightarrow> cursor_on p c es l2 \<and> cu_leaf c = i \<and> unat (cu_slot c) = length (takeWhile ?P es)"
    and two: "dropWhile ?P es = [] \<longrightarrow> (case dropWhile (\<lambda>l. snd l = []) l2 of [] \<Rightarrow> \<not> cursor_is_valid c
        | (j, fs) # ms \<Rightarrow> cu_slot c = 0 \<and> cursor_on p c fs ms)"
  have "\<forall>e \<in> set (flat l1). ?P e" "\<forall>e \<in> set (flat l2). \<not> ?P e" using ls(2,3) by (auto simp: below_def dest: order.asym)
  from dropWhile_prefix [OF this, of es] have D: "dropWhile ?P (flat ls) = dropWhile ?P es @ flat l2" by (simp add: ls(1))
  have l2: "\<forall>l \<in> set l2. snd l \<noteq> []" using ne by (simp add: ls(1))
  then have "dropWhile (\<lambda>l. snd l = []) l2 = l2" by (cases l2) simp_all
  then have "sees p c (dropWhile ?P es @ flat l2)"
  proof (cases "dropWhile ?P es = []")
    case True
    with two l2 \<open>dropWhile (\<lambda>l. snd l = []) l2 = l2\<close> show ?thesis by (cases l2) (fastforce simp: sees_def)+
  next
    case False
    with one dropWhile_nth [OF False] l2 show ?thesis by (auto simp: sees_def dropWhile_eq_drop)
  qed
  with c D show thesis by (intro that [of c]) simp_all
qed

text \<open>The entries of sorted keys that have a prefix stand together, first among those that are not less.\<close>

lemma prefix_block:
  fixes P :: bytes
  shows "P \<le> x \<Longrightarrow> x \<le> y \<Longrightarrow> take (length P) y = P \<Longrightarrow> take (length P) x = P"
proof (induction P arbitrary: x y)
  case (Cons b P)
  then obtain x1 x2 y2 where xy: "x = x1 # x2" "y = b # y2" by (cases x; cases y) auto
  with Cons.prems have "x1 = b" "P \<le> x2" "x2 \<le> y2" by auto
  with Cons.IH [of x2 y2] Cons.prems(3) show ?case by (simp add: xy)
qed simp

lemma sorted_prefix_block:
  fixes P :: bytes
  assumes "sorted (map fst E)" "\<forall>e \<in> set E. P \<le> fst e"
  shows "takeWhile (\<lambda>e. take (length P) (fst e) = P) E = filter (\<lambda>e. take (length P) (fst e) = P) E"
  using assms
proof (induction E)
  case (Cons e E)
  show ?case
  proof (cases "take (length P) (fst e) = P")
    case True
    then show ?thesis using Cons by simp
  next
    case False
    then have "\<forall>f \<in> set E. take (length P) (fst f) \<noteq> P"
      using Cons.prems prefix_block [of P "fst e"] by auto
    then show ?thesis using False by (simp add: filter_empty_conv)
  qed
qed simp

lemma dropWhile_sorted:
  fixes P :: bytes
  assumes "sorted (map fst xs)"
  shows "set (dropWhile (\<lambda>e. fst e < P) xs) = {e \<in> set xs. P \<le> fst e}" "sorted (map fst (dropWhile (\<lambda>e. fst e < P) xs))"
  using assms by (induction xs) force+

lemma prefix_le:
  fixes P :: bytes
  shows "take (length P) k = P \<Longrightarrow> P \<le> k"
proof (induction P arbitrary: k)
  case (Cons b P)
  then show ?case by (cases k) auto
qed simp

lemma sorted_first:
  assumes "sorted (map fst es)" "distinct (map fst es)" "(k, v) \<in> set es"
  shows "\<exists>r. dropWhile (\<lambda>e. fst e < k) es = (k, v) # r"
  using assms by (induction es) (force simp: less_le)+

end
