(* ===== verification/PropertyStore.thy ===== *)
theory PropertyStore
  imports Compaction BlobStore BTreeCursor "HOL-Library.Product_Lexorder"
begin

text \<open>
  The property store, nervusdb-storage/src/read_path_property_store.rs, and the part of
  \<open>compact\<close> in engine.rs that fills it: the properties of the runs are written as blobs, and a
  B-tree maps a key made of the node or edge and the property name to the first page of the blob.
\<close>

section \<open>Definitions\<close>

text \<open>\<open>m.ok()?\<close> in a function that returns an option: an error is \<open>None\<close>, a panic stays one.\<close>

definition try_ok :: "'a result \<Rightarrow> ('a \<Rightarrow> 'b option result) \<Rightarrow> 'b option result" where
  "try_ok m f = (case m of Inl e \<Rightarrow> if is_panic (Inl e :: unit result) then Inl e else Inr None | Inr a \<Rightarrow> f a)"

definition node_prop_key :: "u32 \<Rightarrow> rstring \<Rightarrow> bytes" where
  "node_prop_key node key = [0] @ to_be node @ to_be (of_nat (length key) :: u32) @ key"

definition edge_prop_key :: "edge_key \<Rightarrow> rstring \<Rightarrow> bytes" where
  "edge_prop_key edge key =
    [1] @ to_be (ek_src edge) @ to_be (ek_rel edge) @ to_be (ek_dst edge) @
    to_be (of_nat (length key) :: u32) @ key"

definition decode_property_blob :: "pager \<Rightarrow> u64 \<Rightarrow> property_value option result option" where
  "decode_property_blob p blob_id =
    map_option (\<lambda>r. try_ok r (\<lambda>bytes.
      case pv_decode bytes of Inl _ \<Rightarrow> Inr None | Inr v \<Rightarrow> Inr (Some v))) (blob_read p blob_id)"

text \<open>The entry a cursor stands on, when its key is the one that was sought.\<close>

definition found_blob :: "bytes \<Rightarrow> cursor \<Rightarrow> u64 option result" where
  "found_blob btree_key cursor =
    (if cursor_is_valid cursor then
       try_ok (cursor_key cursor) (\<lambda>got_key.
         if got_key = btree_key then try_ok (cursor_payload cursor) (\<lambda>v. Inr (Some v)) else Inr None)
     else Inr None)"

definition read_property_from_store :: "pager \<Rightarrow> u64 \<Rightarrow> bytes \<Rightarrow> property_value option result option" where
  "read_property_from_store p properties_root btree_key =
    (if properties_root = 0 then Some (Inr None)
     else case cursor_lower_bound p properties_root btree_key of
       None \<Rightarrow> None
     | Some r \<Rightarrow>
         (case try_ok r (found_blob btree_key) of
            Inl e \<Rightarrow> Some (Inl e)
          | Inr None \<Rightarrow> Some (Inr None)
          | Inr (Some blob_id) \<Rightarrow> decode_property_blob p blob_id))"

definition read_node_property_from_store ::
  "pager \<Rightarrow> u64 \<Rightarrow> u32 \<Rightarrow> rstring \<Rightarrow> property_value option result option" where
  "read_node_property_from_store p properties_root node key =
    read_property_from_store p properties_root (node_prop_key node key)"

definition read_edge_property_from_store ::
  "pager \<Rightarrow> u64 \<Rightarrow> edge_key \<Rightarrow> rstring \<Rightarrow> property_value option result option" where
  "read_edge_property_from_store p properties_root edge key =
    read_property_from_store p properties_root (edge_prop_key edge key)"

text \<open>
  One round of the loops that collect all properties of a node or an edge: \<open>True\<close> when the loop
  breaks. The key has \<open>m\<close> bytes before the name, the last four of them its length.
\<close>

definition fetch_entry :: "bytes \<Rightarrow> nat \<Rightarrow> (rstring, property_value) btmap \<Rightarrow> cursor \<Rightarrow> (rstring \<times> u64) list \<Rightarrow>
    (bool \<times> (rstring \<times> u64) list) option result" where
  "fetch_entry prefix m props cursor to_fetch =
    try_ok (cursor_key cursor) (\<lambda>key.
      if take (length prefix) key \<noteq> prefix then Inr (Some (True, to_fetch))
      else if length key < m then Inr (Some (True, to_fetch))
      else
        let key_len = unat (from_be (subslice (m - 4) 4 key) :: u32)
        in if length key < m + key_len then Inl (Panic ''range end index out of range for slice'')
           else case from_utf8 () (subslice m key_len key) of
             Inl _ \<Rightarrow> Inr None
           | Inr key_name \<Rightarrow>
               if bt_get props key_name = None
               then try_ok (cursor_payload cursor) (\<lambda>v. Inr (Some (False, to_fetch @ [(key_name, v)])))
               else Inr (Some (False, to_fetch)))"

partial_function (option) fetch_loop :: "pager \<Rightarrow> bytes \<Rightarrow> nat \<Rightarrow> (rstring, property_value) btmap \<Rightarrow> cursor \<Rightarrow>
    (rstring \<times> u64) list \<Rightarrow> (rstring \<times> u64) list option result option" where
  "fetch_loop p prefix m props cursor to_fetch =
    (if \<not> cursor_is_valid cursor then Some (Inr (Some to_fetch))
     else case fetch_entry prefix m props cursor to_fetch of
       Inl e \<Rightarrow> Some (Inl e)
     | Inr None \<Rightarrow> Some (Inr None)
     | Inr (Some (stop, to_fetch)) \<Rightarrow>
         if stop then Some (Inr (Some to_fetch))
         else case try_ok (cursor_advance p cursor) (\<lambda>r. Inr (Some r)) of
           Inl e \<Rightarrow> Some (Inl e)
         | Inr None \<Rightarrow> Some (Inr None)
         | Inr (Some (more_left, cursor)) \<Rightarrow>
             if more_left then fetch_loop p prefix m props cursor to_fetch
             else Some (Inr (Some to_fetch)))"

fun insert_fetched :: "pager \<Rightarrow> (rstring \<times> u64) list \<Rightarrow> (rstring, property_value) btmap \<Rightarrow>
    (rstring, property_value) btmap option result option" where
  "insert_fetched p [] props = Some (Inr (Some props))"
| "insert_fetched p ((key_name, blob_id) # rest) props =
     (case decode_property_blob p blob_id of
        None \<Rightarrow> None
      | Some (Inl e) \<Rightarrow> Some (Inl e)
      | Some (Inr None) \<Rightarrow> Some (Inr None)
      | Some (Inr (Some v)) \<Rightarrow> insert_fetched p rest (bt_insert key_name v props))"

text \<open>\<open>None\<close> inside the result is the \<open>None\<close> of the source; the maps are then lost.\<close>

definition extend_properties_from_store :: "pager \<Rightarrow> u64 \<Rightarrow> bytes \<Rightarrow> nat \<Rightarrow> (rstring, property_value) btmap \<Rightarrow>
    (rstring, property_value) btmap option result option" where
  "extend_properties_from_store p properties_root prefix m props =
    (if properties_root = 0 then Some (Inr (Some props))
     else case cursor_lower_bound p properties_root prefix of
       None \<Rightarrow> None
     | Some r \<Rightarrow>
         (case try_ok r (\<lambda>c. Inr (Some c)) of
            Inl e \<Rightarrow> Some (Inl e)
          | Inr None \<Rightarrow> Some (Inr None)
          | Inr (Some cursor) \<Rightarrow>
              (case fetch_loop p prefix m props cursor [] of
                 None \<Rightarrow> None
               | Some (Inl e) \<Rightarrow> Some (Inl e)
               | Some (Inr None) \<Rightarrow> Some (Inr None)
               | Some (Inr (Some to_fetch)) \<Rightarrow> insert_fetched p to_fetch props)))"

definition extend_node_properties_from_store where
  "extend_node_properties_from_store p properties_root node props =
    extend_properties_from_store p properties_root ([0] @ to_be (node :: u32)) 9 props"

definition extend_edge_properties_from_store where
  "extend_edge_properties_from_store p properties_root edge props =
    extend_properties_from_store p properties_root
      ([1] @ to_be (ek_src edge) @ to_be (ek_rel edge) @ to_be (ek_dst edge)) 17 props"

subsection \<open>Property sinking\<close>

text \<open>\<open>entry(..).or_insert(..)\<close> for every property of every run, newest run first.\<close>

definition or_insert :: "'k::linorder \<Rightarrow> 'v \<Rightarrow> ('k, 'v) btmap \<Rightarrow> ('k, 'v) btmap" where
  "or_insert k v m = (case bt_get m k of None \<Rightarrow> bt_insert k v m | Some _ \<Rightarrow> m)"

definition sink_run :: "('n::linorder, (rstring, property_value) btmap) btmap \<Rightarrow>
    ('n \<times> rstring, property_value) btmap \<Rightarrow> ('n \<times> rstring, property_value) btmap" where
  "sink_run maps sink =
    fold (\<lambda>(n, props) sink. fold (\<lambda>(key, val). or_insert (n, key) val) props sink) maps sink"

definition sink_node_props :: "l0_run list \<Rightarrow> (u32 \<times> rstring, property_value) btmap" where
  "sink_node_props runs = fold (\<lambda>run. sink_run (run_node_properties run)) runs []"

definition sink_edge_props :: "l0_run list \<Rightarrow> (edge_key \<times> rstring, property_value) btmap" where
  "sink_edge_props runs = fold (\<lambda>run. sink_run (run_edge_properties run)) runs []"

fun sink_loop :: "(bytes \<times> property_value) list \<Rightarrow> u64 \<Rightarrow> pager \<Rightarrow> (u64 \<times> pager) result option" where
  "sink_loop [] root p = Some (Inr (root, p))"
| "sink_loop ((btree_key, v) # rest) root p =
     (case rbind (pv_encode v) (\<lambda>encoded_val. blob_write encoded_val p) of
        Inl e \<Rightarrow> Some (Inl e)
      | Inr (blob_id, p) \<Rightarrow>
          (case btree_insert btree_key blob_id root p of
             None \<Rightarrow> None
           | Some (Inl e) \<Rightarrow> Some (Inl e)
           | Some (Inr (root, p)) \<Rightarrow> sink_loop rest root p))"

definition sink_properties :: "l0_run list \<Rightarrow> u64 \<Rightarrow> pager \<Rightarrow> (u64 \<times> pager) result option" where
  "sink_properties runs current_root p =
    (let node_props = sink_node_props runs; edge_props = sink_edge_props runs
     in if node_props = [] \<and> edge_props = [] then Some (Inr (current_root, p))
        else case (if current_root = 0 then btree_create p else Inr (current_root, p)) of
          Inl e \<Rightarrow> Some (Inl e)
        | Inr (root, p) \<Rightarrow>
            (case sink_loop (map (\<lambda>((node, key), v). (node_prop_key node key, v)) node_props) root p of
               None \<Rightarrow> None
             | Some (Inl e) \<Rightarrow> Some (Inl e)
             | Some (Inr (root, p)) \<Rightarrow>
                 sink_loop (map (\<lambda>((edge, key), v). (edge_prop_key edge key, v)) edge_props) root p))"

section \<open>The keys\<close>

lemma try_ok_Inr [simp]: "try_ok (Inr a) f = f a"
  by (simp add: try_ok_def)

lemma prop_key_inject:
  assumes "length key < 2 ^ 32" "length key' < 2 ^ 32"
  shows "node_prop_key n key = node_prop_key n' key' \<longleftrightarrow> n = n' \<and> key = key'"
    "edge_prop_key e key = edge_prop_key e' key' \<longleftrightarrow> e = e' \<and> key = key'"
  by (auto simp: node_prop_key_def edge_prop_key_def append_eq_append_conv length_to_be_widths intro: edge_key.expand
      dest!: arg_cong [where f = "from_be :: bytes \<Rightarrow> u32"])

section \<open>Blobs beside a tree\<close>

text \<open>A blob whose pages are not pages of the tree.\<close>

definition blob_at :: "pager \<Rightarrow> u64 set \<Rightarrow> u64 \<Rightarrow> bytes \<Rightarrow> bool" where
  "blob_at p I pid data \<longleftrightarrow>
     (\<exists>l. chain_wf l \<and> concat (map snd l) = data \<and> pid = chain_next l \<and>
        chain_map l \<subseteq>\<^sub>m pg_pages p \<and> dom (chain_map l) \<inter> I = {})"

lemma blob_at_read: "pager_inv p \<Longrightarrow> blob_at p I pid data \<Longrightarrow> blob_read p pid = Some (Inr data)"
  using read_loop_chain by (fastforce simp: blob_at_def blob_read_def blob_read_direct_def)

text \<open>It stays when only pages of the tree change and the tree takes only pages that were free.\<close>

lemma blob_at_frame:
  assumes "blob_at p I pid data" "\<forall>i. pg_pages p i \<noteq> None \<longrightarrow> i \<notin> I \<longrightarrow> pg_pages p' i = pg_pages p i"
    "\<forall>i \<in> I'. i \<in> I \<or> pg_pages p i = None"
  shows "blob_at p' I' pid data"
proof -
  from assms(1) obtain l where l: "chain_wf l" "concat (map snd l) = data" "pid = chain_next l"
    "chain_map l \<subseteq>\<^sub>m pg_pages p" "dom (chain_map l) \<inter> I = {}" by (auto simp: blob_at_def)
  have in_p: "pg_pages p i \<noteq> None \<and> i \<notin> I" if "i \<in> dom (chain_map l)" for i
    using that l(4,5) by (metis IntI domD empty_iff map_le_def option.distinct(1))
  have "chain_map l \<subseteq>\<^sub>m pg_pages p'" using l(4) in_p assms(2) by (auto simp: map_le_def)
  moreover have "dom (chain_map l) \<inter> I' = {}" using in_p assms(3) by blast
  ultimately show ?thesis using l(1-3) by (auto simp: blob_at_def)
qed

definition blob_need :: "bytes \<Rightarrow> nat" where
  "blob_need data = max 1 (length (blob_chunks data))"

lemma blob_write_fits:
  assumes inv: "pager_inv p" and free: "blob_need data \<le> free_pages p"
  obtains pid p' where "blob_write data p = Inr (pid, p')" "pager_inv p'" "free_pages p' = free_pages p - blob_need data"
    "pg_pages p \<subseteq>\<^sub>m pg_pages p'" "\<And>I. I \<subseteq> dom (pg_pages p) \<Longrightarrow> blob_at p' I pid data"
proof -
  have chunks: "\<exists>pid p'. blob_write_chunks cs last p = Inr (pid, p') \<and> free_pages p' = free_pages p - length cs"
    if "length cs \<le> free_pages p" "pager_inv p" "\<forall>c \<in> set cs. length c \<le> MAX_DATA_PER_PAGE" for cs last p
    using that
  proof (induction cs arbitrary: last p)
    case (Cons c cs)
    have "length (blob_page last c) = PAGE_SIZE" "0 < free_pages p" using Cons.prems blob_page_simps by auto
    then obtain i q r where "allocate_page p = Inr (i, q)" "write_page i (blob_page last c) q = Inr r" "pager_inv r"
      "free_pages r = free_pages p - 1" using alloc_write_free [OF Cons.prems(2)] by metis
    with Cons.IH [of r i] Cons.prems show ?case by auto
  qed simp
  have "\<exists>pid p'. blob_write data p = Inr (pid, p') \<and> free_pages p' = free_pages p - blob_need data"
  proof (cases "data = []")
    case True
    have "length (replicate 8192 0) = PAGE_SIZE" "0 < free_pages p" using free by (simp_all add: blob_need_def PAGE_SIZE_def)
    then show ?thesis
      using alloc_write_free [OF inv, of "replicate 8192 0"] True
      by (fastforce simp: blob_write_def blob_write_direct_def blob_need_def)
  next
    case False
    then have "blob_chunks data \<noteq> []" by (cases data) simp_all
    then have "blob_need data = length (blob_chunks data)" by (cases "blob_chunks data") (simp_all add: blob_need_def)
    then show ?thesis
      using chunks [of "rev (blob_chunks data)" p 0] free inv False blob_chunks_le [of _ data]
      by (auto simp: blob_write_def blob_write_direct_def)
  qed
  then obtain pid p' where w: "blob_write data p = Inr (pid, p')" "free_pages p' = free_pages p - blob_need data" by blast
  obtain l where l: "pager_inv p'" "chain_wf l" "concat (map snd l) = data" "pid = chain_next l"
    "pg_pages p' = pg_pages p ++ chain_map l" "dom (pg_pages p) \<inter> fst ` set l = {}"
    by (rule blob_write_chain [OF inv w(1)])
  have d: "dom (pg_pages p) \<inter> dom (chain_map l) = {}" using l(6) by (simp add: dom_chain_map)
  have "pg_pages p \<subseteq>\<^sub>m pg_pages p'" unfolding l(5) using d by (metis map_add_comm map_le_map_add)
  moreover have "blob_at p' I pid data" if "I \<subseteq> dom (pg_pages p)" for I
  proof -
    have "dom (chain_map l) \<inter> I = {}" using that d by blast
    with l show ?thesis unfolding blob_at_def by (intro exI [of _ l]) simp
  qed
  ultimately show thesis using that [OF w(1) l(1) w(2)] by blast
qed

section \<open>The store as a map\<close>

text \<open>
  The store \<open>M\<close> from keys to values that a tree and the blobs beside it hold. No leaf of the tree
  is empty, because nothing is ever deleted from it.
\<close>

definition prop_store :: "nat \<Rightarrow> nat \<Rightarrow> nat \<Rightarrow> u64 set \<Rightarrow> pager \<Rightarrow> u64 \<Rightarrow> (bytes \<rightharpoonup> property_value) \<Rightarrow> bool" where
  "prop_store a b n I p root M \<longleftrightarrow>
     (\<exists>ls. btree True a b n I p root ls \<and> (\<forall>l \<in> set ls. snd l \<noteq> []) \<and> distinct (map fst (flat ls)) \<and>
        dom M = fst ` set (flat ls) \<and>
        (\<forall>k pid. (k, pid) \<in> set (flat ls) \<longrightarrow>
           (\<exists>v bs. M k = Some v \<and> pv_wf v \<and> pv_encode v = Inr bs \<and> blob_at p I pid bs)))"

definition value_need :: "property_value \<Rightarrow> nat" where
  "value_need v = (case pv_encode v of Inl _ \<Rightarrow> 0 | Inr bs \<Rightarrow> blob_need bs)"

text \<open>Only pages of the tree and pages that were free change, and the tree takes only pages that were free.\<close>

definition beside :: "pager \<Rightarrow> u64 set \<Rightarrow> pager \<Rightarrow> u64 set \<Rightarrow> bool" where
  "beside p I p' I' \<longleftrightarrow> (\<forall>i. pg_pages p i \<noteq> None \<longrightarrow> i \<notin> I \<longrightarrow> pg_pages p' i = pg_pages p i) \<and>
     (\<forall>i \<in> I'. i \<in> I \<or> pg_pages p i = None)"

lemma beside_refl: "beside p I p I"
  by (simp add: beside_def)

lemma beside_trans: "beside p I q J \<Longrightarrow> beside q J r K \<Longrightarrow> beside p I r K"
  unfolding beside_def by metis

lemma btree_pages: "btree s a b n I p root ls \<Longrightarrow> I \<subseteq> dom (pg_pages p)"
  using stored_pages(1) by (fastforce simp: btree_def)

lemma btree_cong:
  "btree s a b n I p root ls \<Longrightarrow> (\<forall>i \<in> I. pg_pages q i = pg_pages p i) \<Longrightarrow> btree s a b n I q root ls"
  using stored_cong(1) unfolding btree_def by metis

lemma encode_ok: "pv_wf v \<Longrightarrow> \<exists>bs. pv_encode v = Inr bs \<and> pv_decode bs = Inr v"
  using pv_encode_parses(1) [of v] unfolding pv_parses_def by (metis append_Nil2 pv_decode_def rbind_simps(2) split_conv)

lemma sink_one:
  assumes inv: "pager_inv p" and st: "prop_store a b n I p root M" and w: "window a b" "sized a b k"
    and k: "k \<notin> dom M" and v: "pv_wf v" and free: "value_need v + n + 2 \<le> free_pages p"
  obtains pid q root' p' n' I' where "rbind (pv_encode v) (\<lambda>bs. blob_write bs p) = Inr (pid, q)"
    "btree_insert k pid root q = Some (Inr (root', p'))" "pager_inv p'" "prop_store a b n' I' p' root' (M(k \<mapsto> v))"
    "n' \<le> n + 1" "free_pages p \<le> free_pages p' + value_need v + n + 2" "beside p I p' I'"
proof -
  from st obtain ls where t: "btree True a b n I p root ls" "\<forall>l \<in> set ls. snd l \<noteq> []" "distinct (map fst (flat ls))"
    "dom M = fst ` set (flat ls)"
    and vals: "\<And>k pid. (k, pid) \<in> set (flat ls) \<Longrightarrow> \<exists>v bs. M k = Some v \<and> pv_wf v \<and> pv_encode v = Inr bs \<and> blob_at p I pid bs"
    by (auto simp: prop_store_def)
  obtain bs where bs: "pv_encode v = Inr bs" using encode_ok [OF v] by blast
  then have need: "blob_need bs = value_need v" by (simp add: value_need_def)
  obtain pid q where q: "blob_write bs p = Inr (pid, q)" "pager_inv q" "free_pages q = free_pages p - blob_need bs"
    "pg_pages p \<subseteq>\<^sub>m pg_pages q" "\<And>I. I \<subseteq> dom (pg_pages p) \<Longrightarrow> blob_at q I pid bs"
    by (rule blob_write_fits [OF inv, of bs]) (use free need in auto)
  have same: "pg_pages q i = pg_pages p i" if "pg_pages p i \<noteq> None" for i
    using q(4) that by (metis domIff map_le_def)
  have tq: "btree True a b n I q root ls"
  proof (rule btree_cong [OF t(1)], rule ballI)
    fix i assume "i \<in> I"
    then show "pg_pages q i = pg_pages p i" using same btree_pages [OF t(1)] by blast
  qed
  have "n + 1 < free_pages q" using free need q(3) by simp
  from btree_insert_ok [OF q(2) tq w this, of pid] t(3,4) k
  obtain root' p' n' I' ls' xs ys where r: "btree_insert k pid root q = Some (Inr (root', p'))" "pager_inv p'" "n' \<le> n + 1"
    "free_pages q \<le> free_pages p' + n + 2" "btree True a b n' I' p' root' ls'" "flat ls = xs @ ys" "flat ls' = xs @ (k, pid) # ys"
    "\<forall>i. pg_pages q i \<noteq> None \<longrightarrow> i \<notin> I \<longrightarrow> pg_pages p' i = pg_pages q i" "\<forall>i \<in> I'. i \<in> I \<or> pg_pages q i = None"
    "\<forall>l \<in> set ls'. snd l \<noteq> []" using t(2) by auto
  have blob: "blob_at p' I' pid' bs'" if "blob_at q I pid' bs'" for pid' bs' by (rule blob_at_frame [OF that r(8,9)])
  have old: "blob_at q I pid' bs'" if "blob_at p I pid' bs'" for pid' bs'
    by (rule blob_at_frame [OF that]) (use same in auto)
  have "prop_store a b n' I' p' root' (M(k \<mapsto> v))"
    unfolding prop_store_def
  proof (intro exI [of _ ls'] conjI allI impI)
    show "distinct (map fst (flat ls'))" "dom (M(k \<mapsto> v)) = fst ` set (flat ls')" using t(3,4) k r(6,7) by auto
    fix k' pid' assume e: "(k', pid') \<in> set (flat ls')"
    show "\<exists>w bs. (M(k \<mapsto> v)) k' = Some w \<and> pv_wf w \<and> pv_encode w = Inr bs \<and> blob_at p' I' pid' bs"
    proof (cases "(k', pid') \<in> set (flat ls)")
      case True
      moreover have "k' \<noteq> k" using True k t(4) by force
      ultimately show ?thesis using vals [OF True] old blob by fastforce
    next
      case False
      with e r(6,7) have "k' = k" "pid' = pid" by auto
      with v bs blob q(5) [OF btree_pages [OF t(1)]] show ?thesis by auto
    qed
  qed (use r in simp_all)
  moreover have "beside p I p' I'" unfolding beside_def using r(8,9) same by (metis (no_types, lifting))
  ultimately show thesis using r(1-4) q(1,3) bs need free by (intro that [of pid q root' p' n' I']) auto
qed

fun sink_need :: "nat \<Rightarrow> (bytes \<times> property_value) list \<Rightarrow> nat" where
  "sink_need n [] = 0"
| "sink_need n ((_, v) # es) = value_need v + n + 2 + sink_need (n + 1) es"

lemma sink_need_mono: "m \<le> m' \<Longrightarrow> sink_need m es \<le> sink_need m' es"
  by (induction m es arbitrary: m' rule: sink_need.induct) (auto intro!: add_mono)

lemma sink_loop_ok:
  assumes "pager_inv p" "prop_store a b n I p root M" "window a b" "\<forall>e \<in> set es. sized a b (fst e) \<and> pv_wf (snd e)"
    "distinct (map fst es)" "dom M \<inter> fst ` set es = {}" "sink_need n es \<le> free_pages p"
  shows "\<exists>root' p' n' I'. sink_loop es root p = Some (Inr (root', p')) \<and> pager_inv p' \<and> n' \<le> n + length es \<and>
    prop_store a b n' I' p' root' (M ++ map_of es) \<and> free_pages p \<le> free_pages p' + sink_need n es \<and> beside p I p' I'"
  using assms
proof (induction es arbitrary: p n I root M)
  case Nil
  then show ?case using beside_refl by auto
next
  case (Cons e es)
  obtain k v where e: "e = (k, v)" by fastforce
  obtain pid q root1 p1 n1 I1 where s: "rbind (pv_encode v) (\<lambda>bs. blob_write bs p) = Inr (pid, q)"
    "btree_insert k pid root q = Some (Inr (root1, p1))" "pager_inv p1" "prop_store a b n1 I1 p1 root1 (M(k \<mapsto> v))"
    "n1 \<le> n + 1" "free_pages p \<le> free_pages p1 + value_need v + n + 2" "beside p I p1 I1"
    by (rule sink_one [OF Cons.prems(1,2,3), of k v]) (use Cons.prems in \<open>auto simp: e\<close>)
  have "sink_need n1 es \<le> sink_need (n + 1) es" using sink_need_mono s(5) by blast
  then have "sink_need n1 es \<le> free_pages p1" using s(6) Cons.prems(7) by (simp add: e)
  moreover have "dom (M(k \<mapsto> v)) \<inter> fst ` set es = {}" using Cons.prems(5,6) by (auto simp: e)
  moreover have "\<forall>e \<in> set es. sized a b (fst e) \<and> pv_wf (snd e)" "distinct (map fst es)" using Cons.prems(4,5) by simp_all
  ultimately obtain root' p' n' I' where r: "sink_loop es root1 p1 = Some (Inr (root', p'))" "pager_inv p'" "n' \<le> n1 + length es"
    "prop_store a b n' I' p' root' (M(k \<mapsto> v) ++ map_of es)" "free_pages p1 \<le> free_pages p' + sink_need n1 es"
    "beside p1 I1 p' I'" using Cons.IH [OF s(3,4) Cons.prems(3)] by blast
  have "k \<notin> dom (map_of es)" using Cons.prems(5) by (simp add: e dom_map_of_conv_image_fst)
  then have "M(k \<mapsto> v) ++ map_of es = M ++ map_of (e # es)" by (auto simp: e map_add_def fun_eq_iff domIff split: option.splits)
  with r(4) have "prop_store a b n' I' p' root' (M ++ map_of (e # es))" by simp
  moreover have "sink_loop (e # es) root p = Some (Inr (root', p'))" using r(1) s(1,2) by (simp add: e)
  moreover have "n' \<le> n + length (e # es)" "free_pages p \<le> free_pages p' + sink_need n (e # es)"
    using r(3,5) s(5,6) sink_need_mono [OF s(5), of es] by (simp_all add: e)
  ultimately show ?case using r(2) beside_trans [OF s(7) r(6)] by blast
qed

text \<open>What is read is what is stored.\<close>

lemma decode_stored:
  assumes "pager_inv p" "pv_wf v" "pv_encode v = Inr bs" "blob_at p I pid bs"
  shows "decode_property_blob p pid = Some (Inr (Some v))"
  using blob_at_read [OF assms(1,4)] encode_ok [OF assms(2)] assms(3) by (auto simp: decode_property_blob_def)

lemma read_stored:
  assumes inv: "pager_inv p" and st: "prop_store a b n I p root M" and root: "root \<noteq> 0"
  shows "read_property_from_store p root k = Some (Inr (M k))"
proof -
  from st obtain ls where t: "btree True a b n I p root ls" "distinct (map fst (flat ls))" "dom M = fst ` set (flat ls)"
    and vals: "\<And>k pid. (k, pid) \<in> set (flat ls) \<Longrightarrow> \<exists>v bs. M k = Some v \<and> pv_wf v \<and> pv_encode v = Inr bs \<and> blob_at p I pid bs"
    by (auto simp: prop_store_def)
  let ?D = "dropWhile (\<lambda>e. fst e < k) (flat ls)"
  obtain c where c: "cursor_lower_bound p root k = Some (Inr c)"
    "case ?D of [] \<Rightarrow> \<not> cursor_is_valid c | (k, v) # _ \<Rightarrow> cursor_is_valid c \<and> cursor_key c = Inr k \<and> cursor_payload c = Inr v"
    using seek_first [OF inv t(1), of k] by blast
  show ?thesis
  proof (cases "M k")
    case None
    then have "k \<notin> fst ` set (flat ls)" using t(3) by blast
    then have "found_blob k c = Inr None"
      using c(2) set_dropWhileD [of _ "\<lambda>e. fst e < k" "flat ls"]
      by (cases ?D) (force simp: found_blob_def split: prod.splits)+
    then show ?thesis using c(1) root None by (simp add: read_property_from_store_def)
  next
    case (Some v)
    then obtain pid where pid: "(k, pid) \<in> set (flat ls)" using t(3) by force
    from sorted_first [OF btree_sorted [OF t(1)] t(2) pid] c(2) have "found_blob k c = Inr (Some pid)"
      by (auto simp: found_blob_def)
    moreover have "decode_property_blob p pid = Some (Inr (Some v))"
      using vals [OF pid] Some decode_stored [OF inv] by fastforce
    ultimately show ?thesis using c(1) root Some by (simp add: read_property_from_store_def)
  qed
qed

section \<open>What is sunk\<close>

lemma or_insert_ok:
  assumes "bt_wf m"
  shows "bt_wf (or_insert k v m)"
    "bt_get (or_insert k v m) x = (case bt_get m x of None \<Rightarrow> if x = k then Some v else None | Some w \<Rightarrow> Some w)"
  using assms by (auto simp: or_insert_def bt_get_insert split: option.split)

lemma fold_or_insert:
  "bt_wf m \<Longrightarrow> bt_wf (fold (\<lambda>(k, v). or_insert k v) kvs m) \<and>
     bt_get (fold (\<lambda>(k, v). or_insert k v) kvs m) x = (case bt_get m x of None \<Rightarrow> map_of kvs x | Some w \<Rightarrow> Some w)"
proof (induction kvs arbitrary: m)
  case (Cons e kvs)
  obtain k v where e: "e = (k, v)" by fastforce
  from Cons.IH [OF or_insert_ok(1) [OF Cons.prems], of k v] or_insert_ok(2) [OF Cons.prems, of k v x]
  show ?case by (auto simp: e split: option.split)
qed (simp split: option.split)

abbreviation prop_pairs :: "('n, (rstring, property_value) btmap) btmap \<Rightarrow> (('n \<times> rstring) \<times> property_value) list" where
  "prop_pairs maps \<equiv> concat (map (\<lambda>(n, props). map (\<lambda>(key, val). ((n, key), val)) props) maps)"

lemma map_of_prop_pairs:
  "distinct (map fst maps) \<Longrightarrow>
    map_of (prop_pairs maps) (n, k) = Option.bind (bt_get maps n) (\<lambda>props. bt_get props k)"
proof (induction maps)
  case (Cons e maps)
  obtain n' props where e: "e = (n', props)" by fastforce
  have one: "map_of (map (\<lambda>(key, val). ((n', key), val)) props) (n, k) = (if n = n' then map_of props k else None)"
    by (induction props) auto
  have "map_of maps n = None" if "n = n'" using Cons.prems that by (auto simp: e map_of_eq_None_iff)
  then show ?case using Cons by (auto simp: e one bt_get_def map_add_def split: option.split)
qed (simp add: bt_get_def)

lemma sink_run_ok:
  assumes "bt_wf m" "bt_wf maps"
  shows "bt_wf (sink_run maps m)" "bt_get (sink_run maps m) (n, k) =
    (case bt_get m (n, k) of None \<Rightarrow> Option.bind (bt_get maps n) (\<lambda>props. bt_get props k) | Some w \<Rightarrow> Some w)"
proof -
  have "sink_run maps m = fold (\<lambda>(x, v). or_insert x v) (prop_pairs maps) m"
    by (induction maps arbitrary: m) (auto simp: sink_run_def fold_map comp_def split_def)
  then show "bt_wf (sink_run maps m)" "bt_get (sink_run maps m) (n, k) =
    (case bt_get m (n, k) of None \<Rightarrow> Option.bind (bt_get maps n) (\<lambda>props. bt_get props k) | Some w \<Rightarrow> Some w)"
    using fold_or_insert [OF assms(1), of "prop_pairs maps"] map_of_prop_pairs [OF bt_wf_distinct [OF assms(2)], of n k]
    by (simp_all split: option.split)
qed

text \<open>The value of the newest run that has one, whatever the runs say is removed.\<close>

definition newest_set :: "(l0_run \<Rightarrow> ('n, (rstring, property_value) btmap) btmap) \<Rightarrow> l0_run list \<Rightarrow> 'n \<Rightarrow> rstring \<Rightarrow> property_value option" where
  "newest_set maps runs n key =
     property_from_runs (\<lambda>_. False) (\<lambda>r. Option.bind (bt_get (maps r) n) (\<lambda>props. bt_get props key)) runs"

lemma fold_sink_run:
  "bt_wf m \<Longrightarrow> \<forall>r \<in> set runs. bt_wf (maps r) \<Longrightarrow>
    bt_wf (fold (\<lambda>run. sink_run (maps run)) runs m) \<and> bt_get (fold (\<lambda>run. sink_run (maps run)) runs m) (n, k) =
      (case bt_get m (n, k) of None \<Rightarrow> newest_set maps runs n k | Some w \<Rightarrow> Some w)"
proof (induction runs arbitrary: m)
  case (Cons r runs)
  have wf: "bt_wf (maps r)" using Cons.prems by simp
  from Cons.IH [OF sink_run_ok(1) [OF Cons.prems(1) wf]] Cons.prems(2) sink_run_ok(2) [OF Cons.prems(1) wf, of n k]
  show ?case by (auto simp: newest_set_def split: option.split)
qed (simp add: newest_set_def split: option.split)

lemma run_maps_wf: "r \<in> set (runs_of h) \<Longrightarrow> bt_wf (run_node_properties r) \<and> bt_wf (run_edge_properties r)"
  using run_of_ok(1) by (auto simp: runs_of_def run_inv_def run_props_inv_def)

lemma sunk_props:
  "bt_wf (sink_node_props (runs_of h))" "bt_get (sink_node_props (runs_of h)) (n, k) = newest_set run_node_properties (runs_of h) n k"
  "bt_wf (sink_edge_props (runs_of h))" "bt_get (sink_edge_props (runs_of h)) (e, k) = newest_set run_edge_properties (runs_of h) e k"
  using fold_sink_run [of "[]" "runs_of h" run_node_properties n k] fold_sink_run [of "[]" "runs_of h" run_edge_properties e k] run_maps_wf [of _ h]
  by (simp_all add: sink_node_props_def sink_edge_props_def)

definition sink_entries :: "l0_run list \<Rightarrow> (bytes \<times> property_value) list" where
  "sink_entries runs = map (\<lambda>((node, key), v). (node_prop_key node key, v)) (sink_node_props runs) @
     map (\<lambda>((edge, key), v). (edge_prop_key edge key, v)) (sink_edge_props runs)"

lemma sink_loop_append:
  "sink_loop (as @ bs) root p = (case sink_loop as root p of
     None \<Rightarrow> None | Some (Inl e) \<Rightarrow> Some (Inl e) | Some (Inr (root, p)) \<Rightarrow> sink_loop bs root p)"
  by (induction as root p rule: sink_loop.induct) (auto split: sum.split option.split)

lemma sink_properties_eq:
  "sink_properties runs current_root p =
    (if sink_entries runs = [] then Some (Inr (current_root, p))
     else case (if current_root = 0 then btree_create p else Inr (current_root, p)) of
       Inl e \<Rightarrow> Some (Inl e)
     | Inr (root, p) \<Rightarrow> sink_loop (sink_entries runs) root p)"
  by (auto simp: sink_properties_def sink_entries_def sink_loop_append Let_def split: sum.split option.split)

text \<open>Filling a new tree.\<close>

lemma fresh_store:
  assumes inv: "pager_inv p" and w: "window a b" "\<forall>e \<in> set es. sized a b (fst e) \<and> pv_wf (snd e)"
    and d: "distinct (map fst es)" "es \<noteq> []" and free: "1 + sink_need 0 es \<le> free_pages p"
  obtains root q root' p' n I where "btree_create p = Inr (root, q)" "sink_loop es root q = Some (Inr (root', p'))"
    "pager_inv p'" "prop_store a b n I p' root' (map_of es)" "beside p {} p' I"
    "free_pages p \<le> free_pages p' + 1 + sink_need 0 es"
proof -
  obtain k v es' where es: "es = (k, v) # es'" using d(2) by (cases es) auto
  obtain root q where q: "btree_create p = Inr (root, q)" "pager_inv q" "pg_pages p root = None"
    "pg_pages q = (pg_pages p)(root \<mapsto> init_leaf)" "free_pages q = free_pages p - 1"
    by (rule btree_create_ok [OF inv, of True a b]) (use free in simp)
  obtain bs where bs: "pv_encode v = Inr bs" using encode_ok w(2) es by auto
  then have need: "blob_need bs = value_need v" by (simp add: value_need_def)
  obtain pid q1 where b: "blob_write bs q = Inr (pid, q1)" "pager_inv q1" "free_pages q1 = free_pages q - blob_need bs"
    "pg_pages q \<subseteq>\<^sub>m pg_pages q1" "\<And>I. I \<subseteq> dom (pg_pages q) \<Longrightarrow> blob_at q1 I pid bs"
    by (rule blob_write_fits [OF q(2), of bs]) (use free need es q(5) in auto)
  have keep: "pg_pages q1 i = pg_pages q i" if "pg_pages q i \<noteq> None" for i using b(4) that by (metis domIff map_le_def)
  then have "pg_pages q1 root = Some init_leaf" using q(4) by simp
  then obtain r where r: "btree_insert k pid root q1 = Some (Inr (root, r))" "pager_inv r"
    "btree True a b 0 {root} r root [(root, [(k, pid)])]" "free_pages r = free_pages q1"
    "\<forall>i. i \<noteq> root \<longrightarrow> pg_pages r i = pg_pages q1 i"
    by (rule empty_tree_insert [OF b(2) _ w(1), of root k pid True]) (use w(2) es in auto)
  have "blob_at r {root} pid bs" by (rule blob_at_frame [OF b(5) [of "{root}"]]) (use q(4) r(5) in auto)
  then have st: "prop_store a b 0 {root} r root [k \<mapsto> v]"
    unfolding prop_store_def using r(3) bs w(2) es by (intro exI [of _ "[(root, [(k, pid)])]"]) auto
  have bes: "beside p {} r {root}" using q(3,4) r(5) keep unfolding beside_def by (metis fun_upd_apply option.distinct(1) singletonD)
  have room: "sink_need 0 es' \<le> free_pages r"
    using sink_need_mono [of 0 1 es'] free r(4) b(3) q(5) need by (simp add: es)
  have "\<forall>e \<in> set es'. sized a b (fst e) \<and> pv_wf (snd e)" "distinct (map fst es')" "dom [k \<mapsto> v] \<inter> fst ` set es' = {}"
    using w(2) d(1) by (auto simp: es)
  from sink_loop_ok [OF r(2) st w(1) this room] obtain root' p' n I where f: "sink_loop es' root r = Some (Inr (root', p'))"
    "pager_inv p'" "prop_store a b n I p' root' ([k \<mapsto> v] ++ map_of es')" "beside r {root} p' I"
    "free_pages r \<le> free_pages p' + sink_need 0 es'" by blast
  have "k \<notin> dom (map_of es')" using d(1) by (simp add: es dom_map_of_conv_image_fst)
  then have "[k \<mapsto> v] ++ map_of es' = map_of es" by (auto simp: es map_add_def fun_eq_iff domIff split: option.splits)
  with f(3) have "prop_store a b n I p' root' (map_of es)" by simp
  moreover have "sink_loop es root q = Some (Inr (root', p'))" using f(1) bs b(1) r(1) by (simp add: es)
  moreover have "free_pages p \<le> free_pages p' + 1 + sink_need 0 es"
    using sink_need_mono [of 0 1 es'] f(5) r(4) b(3) q(5) need by (simp add: es)
  ultimately show thesis using that q(1) f(2) beside_trans [OF bes f(4)] by blast
qed

text \<open>The keys of the entries tell them apart.\<close>

lemma prop_keys_differ [simp]: "node_prop_key n k \<noteq> edge_prop_key e k'" "edge_prop_key e k' \<noteq> node_prop_key n k"
  by (simp_all add: node_prop_key_def edge_prop_key_def)

lemma sized_name:
  assumes "window a b"
  shows "sized a b (node_prop_key n k) \<Longrightarrow> length k < 2 ^ 32" "sized a b (edge_prop_key e k) \<Longrightarrow> length k < 2 ^ 32"
  using window_one [OF assms, of "node_prop_key n k"] window_one [OF assms, of "edge_prop_key e k"]
  by (simp_all add: cell_size_def node_prop_key_def edge_prop_key_def)

lemma name_length:
  "node_prop_key n k = node_prop_key n' k' \<Longrightarrow> length k = length k'"
  "edge_prop_key e k = edge_prop_key e' k' \<Longrightarrow> length k = length k'"
  by (drule arg_cong [where f = length], simp add: node_prop_key_def edge_prop_key_def length_to_be_widths)+

lemma map_of_keyed:
  "\<forall>x \<in> fst ` set m. (f x = f y) = (x = y) \<Longrightarrow> map_of (map (\<lambda>(x, v). (f x, v)) m) (f y) = map_of m y"
  by (induction m) auto

lemma distinct_keyed:
  assumes "distinct (map fst m)" "\<forall>x \<in> fst ` set m. \<forall>y. (f x = f y) = (x = y)"
  shows "distinct (map fst (map (\<lambda>(x, v). (f x, v)) m))"
proof -
  have "map fst (map (\<lambda>(x, v). (f x, v)) m) = map f (map fst m)" by (simp add: split_def)
  moreover have "inj_on f (set (map fst m))" using assms(2) by (simp add: inj_on_def)
  ultimately show ?thesis using assms(1) by (simp only: distinct_map)
qed

lemma map_of_none: "\<forall>x \<in> fst ` set m. f x \<noteq> z \<Longrightarrow> map_of (map (\<lambda>(x, v). (f x, v)) m) z = None"
  by (induction m) auto

lemma sunk_entries:
  assumes w: "window a b" "\<forall>e \<in> set (sink_entries (runs_of h)). sized a b (fst e) \<and> pv_wf (snd e)"
  shows "distinct (map fst (sink_entries (runs_of h)))"
    "map_of (sink_entries (runs_of h)) (node_prop_key n k) = newest_set run_node_properties (runs_of h) n k"
    "map_of (sink_entries (runs_of h)) (edge_prop_key e k) = newest_set run_edge_properties (runs_of h) e k"
proof -
  let ?N = "sink_node_props (runs_of h)" and ?E = "sink_edge_props (runs_of h)"
  let ?nk = "\<lambda>x. node_prop_key (fst x) (snd x)" and ?ek = "\<lambda>x. edge_prop_key (fst x) (snd x)"
  have S: "sink_entries (runs_of h) = map (\<lambda>(x, v). (?nk x, v)) ?N @ map (\<lambda>(x, v). (?ek x, v)) ?E"
    by (simp add: sink_entries_def split_def)
  have sz: "\<forall>e \<in> set (map (\<lambda>(x, v). (?nk x, v)) ?N). sized a b (fst e)" "\<forall>e \<in> set (map (\<lambda>(x, v). (?ek x, v)) ?E). sized a b (fst e)"
    using w(2) unfolding S by simp_all
  have lenN: "length (snd x) < 2 ^ 32" if "x \<in> fst ` set ?N" for x
    using that sz(1) by (intro sized_name(1) [OF w(1), of "fst x"]) auto
  have lenE: "length (snd x) < 2 ^ 32" if "x \<in> fst ` set ?E" for x
    using that sz(2) by (intro sized_name(2) [OF w(1), of "fst x"]) auto
  have injN: "x = y" if "x \<in> fst ` set ?N" "?nk x = ?nk y" for x y
    using prop_key_inject(1) [of "snd x" "snd y" "fst x" "fst y"] lenN [OF that(1)] name_length(1) [OF that(2)] that(2)
    by (simp add: prod_eq_iff)
  have injE: "x = y" if "x \<in> fst ` set ?E" "?ek x = ?ek y" for x y
    using prop_key_inject(2) [of "snd x" "snd y" "fst x" "fst y"] lenE [OF that(1)] name_length(2) [OF that(2)] that(2)
    by (simp add: prod_eq_iff)
  have inj: "\<forall>x \<in> fst ` set ?N. \<forall>y. (?nk x = ?nk y) = (x = y)" "\<forall>x \<in> fst ` set ?E. \<forall>y. (?ek x = ?ek y) = (x = y)"
    using injN injE by blast+
  show "distinct (map fst (sink_entries (runs_of h)))"
  proof -
    have "set (map fst (map (\<lambda>(x, v). (?nk x, v)) ?N)) \<inter> set (map fst (map (\<lambda>(x, v). (?ek x, v)) ?E)) = {}" by auto
    then show ?thesis
      using distinct_keyed [OF bt_wf_distinct [OF sunk_props(1) [of h]] inj(1)] distinct_keyed [OF bt_wf_distinct [OF sunk_props(3) [of h]] inj(2)]
      unfolding S map_append distinct_append by blast
  qed
  have none: "map_of (map (\<lambda>(x, v). (?nk x, v)) ?N) (edge_prop_key e k) = None"
    "map_of (map (\<lambda>(x, v). (?ek x, v)) ?E) (node_prop_key n k) = None"
    by (intro map_of_none; simp)+
  show "map_of (sink_entries (runs_of h)) (node_prop_key n k) = newest_set run_node_properties (runs_of h) n k"
    using map_of_keyed [of ?N ?nk "(n, k)"] inj(1) none(2) sunk_props(2) [of h n k]
    unfolding S map_of_append by (simp add: map_add_def bt_get_def split: option.split)
  show "map_of (sink_entries (runs_of h)) (edge_prop_key e k) = newest_set run_edge_properties (runs_of h) e k"
    using map_of_keyed [of ?E ?ek "(e, k)"] inj(2) none(1) sunk_props(4) [of h e k]
    unfolding S map_of_append by (simp add: map_add_def bt_get_def split: option.split)
qed

section \<open>Reading all properties\<close>

text \<open>The keys of one node or edge: the prefix, the length of the name, the name.\<close>

definition prefixed :: "bytes \<Rightarrow> bytes \<Rightarrow> bool" where
  "prefixed prefix k \<longleftrightarrow> (\<exists>name. k = prefix @ to_be (of_nat (length name) :: u32) @ name \<and> utf8_valid name \<and> length name < 2 ^ 32)"

lemma fetch_entry_ok:
  assumes "cursor_key c = Inr k" "cursor_payload c = Inr v" "prefixed prefix k"
  shows "fetch_entry prefix (length prefix + 4) props c out =
    Inr (Some (False, if bt_get props (drop (length prefix + 4) k) = None then out @ [(drop (length prefix + 4) k, v)] else out))"
proof -
  from assms(3) obtain name where k: "k = prefix @ to_be (of_nat (length name) :: u32) @ name" "utf8_valid name" "length name < 2 ^ 32"
    by (auto simp: prefixed_def)
  then have "unat (from_be (subslice (length prefix) 4 k) :: u32) = length name"
    "subslice (length prefix + 4) (length name) k = name" "drop (length prefix + 4) k = name"
    by (simp_all add: subslice_def unat_word_of_nat_less)
  then show ?thesis using k by (simp add: fetch_entry_def assms(1,2))
qed

lemma fetch_loop_ok:
  assumes inv: "pager_inv p"
  shows "sees p c E \<Longrightarrow> \<forall>e \<in> set (takeWhile (\<lambda>e. take (length prefix) (fst e) = prefix) E). prefixed prefix (fst e) \<Longrightarrow>
    fetch_loop p prefix (length prefix + 4) props c out = Some (Inr (Some (out @
      filter (\<lambda>e. bt_get props (fst e) = None)
        (map (\<lambda>e. (drop (length prefix + 4) (fst e), snd e)) (takeWhile (\<lambda>e. take (length prefix) (fst e) = prefix) E)))))"
proof (induction E arbitrary: c out)
  case Nil
  then show ?case by (subst fetch_loop.simps) (simp add: sees_Nil)
next
  case (Cons e E)
  obtain k v where e: "e = (k, v)" by fastforce
  note see = sees_Cons [OF inv Cons.prems(1) [unfolded e]]
  show ?case
  proof (cases "take (length prefix) k = prefix")
    case False
    then have "fetch_entry prefix (length prefix + 4) props c out = Inr (Some (True, out))"
      by (simp add: fetch_entry_def see(2))
    with False show ?thesis by (subst fetch_loop.simps) (simp add: see(1) e)
  next
    case True
    then have "prefixed prefix k" using Cons.prems(2) by (simp add: e)
    note entry = fetch_entry_ok [OF see(2,3) this, of props out]
    obtain c' where c': "cursor_advance p c = Inr (E \<noteq> [], c')" "E \<noteq> [] \<longrightarrow> sees p c' E" using see(4) by blast
    show ?thesis
      using Cons.IH [of c'] c' Cons.prems(2) True
      by (subst fetch_loop.simps) (cases "E = []", auto simp: see(1) entry e)
  qed
qed

lemma insert_fetched_ok:
  assumes "\<forall>(name, pid) \<in> set fs. \<exists>v. W name = Some v \<and> decode_property_blob p pid = Some (Inr (Some v))" "bt_wf props"
  shows "\<exists>props'. insert_fetched p fs props = Some (Inr (Some props')) \<and> bt_wf props' \<and>
    (\<forall>name. bt_get props' name = (if name \<in> fst ` set fs then W name else bt_get props name))"
  using assms
proof (induction fs arbitrary: props)
  case (Cons f fs)
  obtain name pid where f: "f = (name, pid)" by fastforce
  with Cons.prems obtain v where v: "W name = Some v" "decode_property_blob p pid = Some (Inr (Some v))" by auto
  from Cons.IH [of "bt_insert name v props"] Cons.prems obtain props' where
    "insert_fetched p fs (bt_insert name v props) = Some (Inr (Some props'))" "bt_wf props'"
    "\<forall>nm. bt_get props' nm = (if nm \<in> fst ` set fs then W nm else bt_get (bt_insert name v props) nm)" by auto
  with v Cons.prems(2) show ?case by (auto simp: f bt_get_insert)
qed simp

lemma extend_stored:
  assumes inv: "pager_inv p" and st: "prop_store a b n I p root M" "root \<noteq> 0" and wf: "bt_wf props"
    and keys: "\<forall>k \<in> dom M. take (length prefix) k = prefix \<longrightarrow> prefixed prefix k"
  shows "\<exists>props'. extend_properties_from_store p root prefix (length prefix + 4) props = Some (Inr (Some props')) \<and> bt_wf props' \<and>
    (\<forall>name. bt_get props' name = (case bt_get props name of
       None \<Rightarrow> M (prefix @ to_be (of_nat (length name) :: u32) @ name) | Some v \<Rightarrow> Some v))"
proof -
  from st obtain ls where t: "btree True a b n I p root ls" "\<forall>l \<in> set ls. snd l \<noteq> []" "dom M = fst ` set (flat ls)"
    and vals: "\<And>k pid. (k, pid) \<in> set (flat ls) \<Longrightarrow> \<exists>v bs. M k = Some v \<and> pv_wf v \<and> pv_encode v = Inr bs \<and> blob_at p I pid bs"
    by (auto simp: prop_store_def)
  let ?D = "dropWhile (\<lambda>e. fst e < prefix) (flat ls)" and ?has = "\<lambda>e::bytes \<times> u64. take (length prefix) (fst e) = prefix"
  let ?W = "\<lambda>name. M (prefix @ to_be (of_nat (length name) :: u32) @ name)"
  let ?name = "\<lambda>e::bytes \<times> u64. (drop (length prefix + 4) (fst e), snd e)"
  obtain c where c: "cursor_lower_bound p root prefix = Some (Inr c)" "sees p c ?D" by (rule seek_sees [OF inv t(1,2)])
  have so: "sorted (map fst (flat ls))" by (rule btree_sorted [OF t(1)])
  have "sorted (map fst ?D)" "\<forall>e \<in> set ?D. prefix \<le> fst e" using dropWhile_sorted [OF so] by auto
  then have tw: "takeWhile ?has ?D = filter ?has ?D" by (rule sorted_prefix_block)
  have block: "set (takeWhile ?has ?D) = {e \<in> set (flat ls). ?has e}"
    unfolding tw using dropWhile_sorted(1) [OF so, of prefix] prefix_le by auto
  have pre: "prefixed prefix (fst e)" if "e \<in> set (takeWhile ?has ?D)" for e
    using that keys t(3) unfolding block by auto
  have key: "fst e = prefix @ to_be (of_nat (length (fst (?name e))) :: u32) @ fst (?name e)" if "e \<in> set (takeWhile ?has ?D)" for e
    using pre [OF that] by (auto simp: prefixed_def)
  let ?fs = "filter (\<lambda>e. bt_get props (fst e) = None) (map ?name (takeWhile ?has ?D))"
  have fetch: "fetch_loop p prefix (length prefix + 4) props c [] = Some (Inr (Some ?fs))"
    using fetch_loop_ok [OF inv c(2)] pre by simp
  have names: "name \<in> fst ` set ?fs \<longleftrightarrow> bt_get props name = None \<and> ?W name \<noteq> None" for name
  proof
    assume "name \<in> fst ` set ?fs"
    then obtain e where e: "e \<in> set (takeWhile ?has ?D)" "name = fst (?name e)" "bt_get props name = None" by auto
    then have "fst e \<in> dom M" unfolding block t(3) by simp
    then have "?W name \<noteq> None" unfolding e(2) key [OF e(1), symmetric] by blast
    with e(3) show "bt_get props name = None \<and> ?W name \<noteq> None" ..
  next
    assume r: "bt_get props name = None \<and> ?W name \<noteq> None"
    then obtain pid where e: "(prefix @ to_be (of_nat (length name) :: u32) @ name, pid) \<in> set (flat ls)" (is "?e \<in> _")
      using t(3) by force
    then have "?e \<in> set (takeWhile ?has ?D)" unfolding block by simp
    then have "?name ?e \<in> set ?fs" using r by (force simp del: takeWhile.simps)
    then show "name \<in> fst ` set ?fs" by (force simp del: set_filter)
  qed
  have "\<forall>(name, pid) \<in> set ?fs. \<exists>v. ?W name = Some v \<and> decode_property_blob p pid = Some (Inr (Some v))"
  proof clarify
    fix name pid assume "(name, pid) \<in> set ?fs"
    then obtain e where e: "e \<in> set (takeWhile ?has ?D)" "name = fst (?name e)" "pid = snd e" by auto
    then have "(fst e, pid) \<in> set (flat ls)" unfolding block by simp
    from vals [OF this] decode_stored [OF inv] show "\<exists>v. ?W name = Some v \<and> decode_property_blob p pid = Some (Inr (Some v))"
      unfolding e(2) key [OF e(1), symmetric] by blast
  qed
  from insert_fetched_ok [OF this wf] obtain props' where "insert_fetched p ?fs props = Some (Inr (Some props'))" "bt_wf props'"
    "\<forall>name. bt_get props' name = (if name \<in> fst ` set ?fs then ?W name else bt_get props name)" by blast
  then show ?thesis using c(1) fetch st(2) unfolding names
    by (auto simp: extend_properties_from_store_def split: option.split)
qed

section \<open>Properties\<close>

text \<open>What a compaction needs: keys of sizes for which split pages fit, values that have an encoding, and room.\<close>

definition sinkable :: "nat \<Rightarrow> nat \<Rightarrow> pager \<Rightarrow> l0_run list \<Rightarrow> bool" where
  "sinkable a b p runs \<longleftrightarrow> pager_inv p \<and> window a b \<and>
     (\<forall>e \<in> set (sink_entries runs). sized a b (fst e) \<and> pv_wf (snd e)) \<and>
     1 + sink_need 0 (sink_entries runs) \<le> free_pages p"

lemma prop_store_root:
  assumes "prop_store a b n I p root M"
  shows "root \<noteq> 0"
proof -
  from assms obtain ls where t: "btree True a b n I p root ls" by (auto simp: prop_store_def)
  then have "root \<in> I" using gid_in_gids by (auto simp: btree_def)
  then have "pg_pages p root \<noteq> None" using btree_pages [OF t] by blast
  then show ?thesis using pgs.no_page_zero [of p] by metis
qed

lemma sink_ok:
  assumes s: "sinkable a b p (runs_of h)"
  shows "\<exists>root p' n I. sink_properties (runs_of h) 0 p = Some (Inr (root, p')) \<and> pager_inv p' \<and>
    (\<forall>i. pg_pages p i \<noteq> None \<longrightarrow> pg_pages p' i = pg_pages p i) \<and>
    free_pages p \<le> free_pages p' + 1 + sink_need 0 (sink_entries (runs_of h)) \<and>
    (if sink_entries (runs_of h) = [] then root = 0
     else root \<noteq> 0 \<and> prop_store a b n I p' root (map_of (sink_entries (runs_of h))))"
proof (cases "sink_entries (runs_of h) = []")
  case True
  then show ?thesis using s by (simp add: sink_properties_eq sinkable_def)
next
  case False
  from s have w: "pager_inv p" "window a b" "\<forall>e \<in> set (sink_entries (runs_of h)). sized a b (fst e) \<and> pv_wf (snd e)"
    "1 + sink_need 0 (sink_entries (runs_of h)) \<le> free_pages p" by (simp_all add: sinkable_def)
  obtain root q root' p' n I where "btree_create p = Inr (root, q)"
    "sink_loop (sink_entries (runs_of h)) root q = Some (Inr (root', p'))" "pager_inv p'"
    "prop_store a b n I p' root' (map_of (sink_entries (runs_of h)))" "beside p {} p' I"
    "free_pages p \<le> free_pages p' + 1 + sink_need 0 (sink_entries (runs_of h))"
    by (rule fresh_store [OF w(1-3) sunk_entries(1) [OF w(2,3)] False w(4)])
  then show ?thesis using False prop_store_root by (fastforce simp: sink_properties_eq beside_def)
qed

text \<open>The store \<open>root\<close> holds what a compaction of the history writes.\<close>

definition holds_sunk :: "nat \<Rightarrow> nat \<Rightarrow> pager \<Rightarrow> u64 \<Rightarrow> (u64 \<times> wal_record list) list \<Rightarrow> bool" where
  "holds_sunk a b p root h \<longleftrightarrow> pager_inv p \<and> window a b \<and>
     (\<forall>e \<in> set (sink_entries (runs_of h)). sized a b (fst e) \<and> pv_wf (snd e)) \<and>
     (if sink_entries (runs_of h) = [] then root = 0
      else root \<noteq> 0 \<and> (\<exists>n I. prop_store a b n I p root (map_of (sink_entries (runs_of h)))))"

lemma prop_store_extend:
  assumes "prop_store a b n I p root M" "\<forall>i. pg_pages p i \<noteq> None \<longrightarrow> pg_pages q i = pg_pages p i"
  shows "prop_store a b n I q root M"
proof -
  have blob: "blob_at q I pid bs" if "blob_at p I pid bs" for pid bs
    by (rule blob_at_frame [OF that]) (use assms(2) in auto)
  have tree: "btree True a b n I q root ls" if "btree True a b n I p root ls" for ls
    by (rule btree_cong [OF that]) (use btree_pages [OF that] assms(2) in auto)
  show ?thesis using assms(1) blob tree unfolding prop_store_def by metis
qed

lemma holds_sunk_extend:
  assumes "holds_sunk a b p root h" "pager_inv q" "\<forall>i. pg_pages p i \<noteq> None \<longrightarrow> pg_pages q i = pg_pages p i"
  shows "holds_sunk a b q root h"
proof -
  have "\<exists>n I. prop_store a b n I q root M" if "\<exists>n I. prop_store a b n I p root M" for M
    using that prop_store_extend [OF _ assms(3)] by blast
  then show ?thesis using assms(1,2) by (simp add: holds_sunk_def split: if_splits)
qed

text \<open>
  The first compaction writes the properties of any history of transactions to a new property
  store; pages that were in use keep their contents.
\<close>

lemma sink_holds:
  assumes "sinkable a b p (runs_of h)"
  shows "\<exists>root p'. sink_properties (runs_of h) 0 p = Some (Inr (root, p')) \<and> holds_sunk a b p' root h \<and>
    (\<forall>i. pg_pages p i \<noteq> None \<longrightarrow> pg_pages p' i = pg_pages p i) \<and>
    free_pages p \<le> free_pages p' + 1 + sink_need 0 (sink_entries (runs_of h))"
  using sink_ok [OF assms] assms unfolding holds_sunk_def sinkable_def by (auto split: if_splits)

text \<open>
  A lookup in the store returns, for every node, edge and name, the value that the newest run gives
  it, and nothing where no run gives one. The lookup does return.
\<close>

lemma sunk_read:
  assumes "holds_sunk a b p root h"
  shows "read_node_property_from_store p root n k = Some (Inr (newest_set run_node_properties (runs_of h) n k))"
    "read_edge_property_from_store p root e k = Some (Inr (newest_set run_edge_properties (runs_of h) e k))"
proof -
  have w: "window a b" "\<forall>e \<in> set (sink_entries (runs_of h)). sized a b (fst e) \<and> pv_wf (snd e)" and p: "pager_inv p"
    using assms by (simp_all add: holds_sunk_def)
  have "read_property_from_store p root k = Some (Inr (map_of (sink_entries (runs_of h)) k))" for k
    using assms read_stored [OF p] by (auto simp: holds_sunk_def read_property_from_store_def split: if_splits)
  then show "read_node_property_from_store p root n k = Some (Inr (newest_set run_node_properties (runs_of h) n k))"
    "read_edge_property_from_store p root e k = Some (Inr (newest_set run_edge_properties (runs_of h) e k))"
    unfolding read_node_property_from_store_def read_edge_property_from_store_def by (simp_all add: sunk_entries [OF w])
qed

text \<open>The names of properties are Rust strings.\<close>

definition names_ok :: "l0_run list \<Rightarrow> bool" where
  "names_ok runs \<longleftrightarrow> (\<forall>x \<in> fst ` set (sink_node_props runs). utf8_valid (snd x)) \<and>
     (\<forall>x \<in> fst ` set (sink_edge_props runs). utf8_valid (snd x))"

lemma sunk_prefixed:
  assumes w: "window a b" "\<forall>e \<in> set (sink_entries (runs_of h)). sized a b (fst e) \<and> pv_wf (snd e)" and names: "names_ok (runs_of h)"
    and k: "k \<in> dom (map_of (sink_entries (runs_of h)))"
  shows "take 5 k = [0] @ to_be (n :: u32) \<Longrightarrow> prefixed ([0] @ to_be n) k"
    "take 13 k = [1] @ to_be (ek_src e) @ to_be (ek_rel e) @ to_be (ek_dst e) \<Longrightarrow>
      prefixed ([1] @ to_be (ek_src e) @ to_be (ek_rel e) @ to_be (ek_dst e)) k"
proof -
  from k have "k \<in> fst ` set (sink_entries (runs_of h))" by (simp add: dom_map_of_conv_image_fst)
  then consider (N) m name where "k = node_prop_key m name" "utf8_valid name" "length name < 2 ^ 32"
    | (E) f name where "k = edge_prop_key f name" "utf8_valid name" "length name < 2 ^ 32"
    using w(2) names sized_name [OF w(1)] unfolding sink_entries_def names_ok_def by fastforce
  note cases = this
  show "prefixed ([0] @ to_be n) k" if "take 5 k = [0] @ to_be n"
    using cases that by cases (auto simp: node_prop_key_def edge_prop_key_def prefixed_def)
  show "prefixed ([1] @ to_be (ek_src e) @ to_be (ek_rel e) @ to_be (ek_dst e)) k"
    if "take 13 k = [1] @ to_be (ek_src e) @ to_be (ek_rel e) @ to_be (ek_dst e)"
    using cases that by cases (auto simp: node_prop_key_def edge_prop_key_def prefixed_def)
qed

text \<open>
  Extending a map of properties from the store adds exactly the properties of that node or edge that
  the map does not have yet: the entries of other nodes and edges, which stand before and behind in
  the same tree, are not touched.
\<close>

lemma sunk_read_all:
  assumes st: "holds_sunk a b p root h" and names: "names_ok (runs_of h)" and wf: "bt_wf props"
  shows "\<exists>ps. extend_node_properties_from_store p root n props = Some (Inr (Some ps)) \<and>
       (\<forall>k. bt_get ps k = (case bt_get props k of None \<Rightarrow> newest_set run_node_properties (runs_of h) n k | Some v \<Rightarrow> Some v))"
    "\<exists>ps. extend_edge_properties_from_store p root e props = Some (Inr (Some ps)) \<and>
       (\<forall>k. bt_get ps k = (case bt_get props k of None \<Rightarrow> newest_set run_edge_properties (runs_of h) e k | Some v \<Rightarrow> Some v))"
proof -
  have w: "window a b" "\<forall>e \<in> set (sink_entries (runs_of h)). sized a b (fst e) \<and> pv_wf (snd e)" and p: "pager_inv p"
    using st by (simp_all add: holds_sunk_def)
  let ?M = "map_of (sink_entries (runs_of h))"
  let ?np = "[0] @ to_be n" and ?ep = "[1] @ to_be (ek_src e) @ to_be (ek_rel e) @ to_be (ek_dst e)"
  have ext: "\<exists>ps. extend_properties_from_store p root prefix (length prefix + 4) props = Some (Inr (Some ps)) \<and>
    (\<forall>k. bt_get ps k = (case bt_get props k of None \<Rightarrow> ?M (prefix @ to_be (of_nat (length k) :: u32) @ k) | Some v \<Rightarrow> Some v))"
    if "\<forall>k \<in> dom ?M. take (length prefix) k = prefix \<longrightarrow> prefixed prefix k" for prefix
  proof (cases "sink_entries (runs_of h) = []")
    case True
    then show ?thesis using st by (auto simp: holds_sunk_def extend_properties_from_store_def split: option.split)
  next
    case False
    then show ?thesis using extend_stored [OF p _ _ wf that] st by (simp add: holds_sunk_def) blast
  qed
  have k: "?np @ to_be (of_nat (length k) :: u32) @ k = node_prop_key n k" "?ep @ to_be (of_nat (length k) :: u32) @ k = edge_prop_key e k" for k
    by (simp_all add: node_prop_key_def edge_prop_key_def)
  have len: "length ?np = 5" "length ?ep = 13" by simp_all
  from ext [of ?np] ext [of ?ep] sunk_prefixed [OF w names]
  show "\<exists>ps. extend_node_properties_from_store p root n props = Some (Inr (Some ps)) \<and>
       (\<forall>k. bt_get ps k = (case bt_get props k of None \<Rightarrow> newest_set run_node_properties (runs_of h) n k | Some v \<Rightarrow> Some v))"
    "\<exists>ps. extend_edge_properties_from_store p root e props = Some (Inr (Some ps)) \<and>
       (\<forall>k. bt_get ps k = (case bt_get props k of None \<Rightarrow> newest_set run_edge_properties (runs_of h) e k | Some v \<Rightarrow> Some v))"
    unfolding k len sunk_entries [OF w] extend_node_properties_from_store_def extend_edge_properties_from_store_def by simp_all
qed

text \<open>A property removed after it was set is gone from the runs, but is still among what is sunk.\<close>

lemma removed_newest:
  "newest_set run_node_properties (runs_of (h @ [(t1, [SetNodeProperty n k v]), (t2, [RemoveNodeProperty n k])])) n k = Some v"
    "node_property_from_runs (runs_of (h @ [(t1, [SetNodeProperty n k v]), (t2, [RemoveNodeProperty n k])])) n k = None"
proof -
  have runs: "runs_of (h @ [(t1, [SetNodeProperty n k v]), (t2, [RemoveNodeProperty n k])]) = run_of t2 [RemoveNodeProperty n k] # run_of t1 [SetNodeProperty n k v] # runs_of h"
    by (simp add: runs_of_def)
  have "bset_has (run_tombstoned_node_properties (run_of t2 [RemoveNodeProperty n k])) n k"
    "Option.bind (bt_get (run_node_properties (run_of t2 [RemoveNodeProperty n k])) n) (\<lambda>ps. bt_get ps k) = None"
    "Option.bind (bt_get (run_node_properties (run_of t1 [SetNodeProperty n k v])) n) (\<lambda>ps. bt_get ps k) = Some v"
    using arg_cong [OF run_of_ok(2) [of t2 "[RemoveNodeProperty n k]"], of "\<lambda>d. d_node_props d n k"]
      arg_cong [OF run_of_ok(2) [of t1 "[SetNodeProperty n k v]"], of "\<lambda>d. d_node_props d n k"]
      run_of_ok(1) [of t2 "[RemoveNodeProperty n k]"]
    by (auto simp: run_abs_def run_prop_effect_def delta_empty_def upd2_def run_inv_def run_props_inv_def split: if_splits option.splits)
  then show "newest_set run_node_properties (runs_of (h @ [(t1, [SetNodeProperty n k v]), (t2, [RemoveNodeProperty n k])])) n k = Some v"
    "node_property_from_runs (runs_of (h @ [(t1, [SetNodeProperty n k v]), (t2, [RemoveNodeProperty n k])])) n k = None"
    by (simp_all add: runs newest_set_def node_property_from_runs_def)
qed

end
