(* ===== verification/MetaRoots.thy ===== *)
theory MetaRoots
  imports PropertyStore IdMap Compaction
begin

text \<open>
  The operations that store segments, blobs and trees change pages and the page count of the meta
  page (nervusdb-storage/src/pager.rs) and nothing else of it, so the id map that
  nervusdb-storage/src/idmap.rs reads back from a file is the same after them.
\<close>

section \<open>Definitions\<close>

text \<open>The meta page without its page count: what allocating and writing pages leave alone.\<close>

definition roots :: "pager \<Rightarrow> meta" where
  "roots p = (pg_meta p)\<lparr>mt_next_page_id := 0\<rparr>"

text \<open>An operation that leaves it alone when it succeeds.\<close>

definition kept :: "pager \<Rightarrow> ('a \<times> pager) result \<Rightarrow> bool" where
  "kept p r \<longleftrightarrow> (\<forall>x q. r = Inr (x, q) \<longrightarrow> roots q = roots p)"

section \<open>What storing keeps\<close>

lemma write_roots: "write_page i b p = Inr p' \<Longrightarrow> roots p' = roots p"
  by (simp add: roots_def write_page_meta)

lemma allocate_roots: "allocate_page p = Inr (i, p') \<Longrightarrow> roots p' = roots p"
  by (auto simp: allocate_page_def ensure_allocated_def flush_meta_and_bitmap_def rbind_Inr_iff Let_def roots_def split: if_splits option.splits)

lemmas page_roots = write_roots allocate_roots

lemma kept_rbind: "(\<And>a. r = Inr a \<Longrightarrow> kept p (f a)) \<Longrightarrow> kept p (rbind r f)"
  by (auto simp: kept_def rbind_Inr_iff)

lemma kept_pure [simp]: "kept p (Inr (x, q)) \<longleftrightarrow> roots q = roots p" "kept p (Inl e)"
  by (simp_all add: kept_def)

lemma kept_trans: "kept q r \<Longrightarrow> roots q = roots p \<Longrightarrow> kept p r"
  by (simp add: kept_def)

lemma keptD: "kept p (r :: ('a \<times> pager) result) \<Longrightarrow> r = Inr (x, q) \<Longrightarrow> roots q = roots p"
  by (simp add: kept_def)

lemma blob_write_roots: "kept p (blob_write data p)"
proof -
  have "kept p (blob_write_chunks cs l p)" for cs l p
  proof (induction cs arbitrary: l p)
    case (Cons c cs)
    show ?case by (auto intro!: kept_rbind kept_trans [OF Cons.IH] dest!: page_roots)
  qed simp
  then show ?thesis by (auto simp: blob_write_def blob_write_direct_def intro!: kept_rbind dest!: page_roots)
qed

lemma write_blob_pages_roots: "kept p (write_blob_pages bs p)"
proof (induction "length bs" arbitrary: bs p rule: less_induct)
  case less
  show ?case
  proof (cases bs)
    case (Cons b bs')
    have "length (drop (min (length (b # bs')) PAGE_SIZE) (b # bs')) < length bs" by (simp add: Cons PAGE_SIZE_def)
    from keptD [OF less [OF this]] show ?thesis
      unfolding Cons by (auto simp: Let_def simp del: length_Cons intro!: kept_rbind dest!: page_roots)
  qed simp
qed

lemma persist_roots: "kept p (persist seg p)"
  by (auto simp: persist_def Let_def intro!: kept_rbind dest!: page_roots keptD [OF write_blob_pages_roots])

lemma split_internal_roots: "split_internal i ks cs p = Inr (k, r, q) \<Longrightarrow> roots q = roots p"
  by (auto simp: split_internal_def Let_def rbind_Inr_iff dest!: page_roots)

lemma insert_into_parent_roots: "kept p (insert_into_parent path l k r root p)"
proof (induction path arbitrary: l k r p)
  case Nil
  show ?case by (auto intro!: kept_rbind dest!: page_roots)
next
  case (Cons e path)
  show ?case
    by (cases e) (auto simp: Let_def split: sum.split
        intro!: kept_rbind kept_trans [OF Cons.IH] dest!: page_roots split_internal_roots)
qed

lemma insert_at_leaf_roots: "kept p (insert_at_leaf key v path cur buf root p)"
  by (auto simp: insert_at_leaf_def insert_split_leaf_def Let_def split: sum.split
      intro!: kept_rbind kept_trans [OF insert_into_parent_roots] dest!: page_roots)

lemma insert_loop_roots:
  assumes "insert_loop key v path cur root p = Some r"
  shows "kept p r"
proof (rule insert_loop.raw_induct [where P = "\<lambda>_ _ _ _ _ p r. kept p r", OF _ assms])
  fix f :: "bytes \<Rightarrow> u64 \<Rightarrow> path_entry list \<Rightarrow> u64 \<Rightarrow> u64 \<Rightarrow> pager \<Rightarrow> (u64 \<times> pager) result option" and key v path cur root p r
  assume IH: "\<And>key v path cur root p r. f key v path cur root p = Some r \<Longrightarrow> kept p r"
  assume "(case rbind (read_page p cur) (\<lambda>buf. rbind (kind_of buf) (\<lambda>k. Inr (buf, k))) of
      Inl e \<Rightarrow> Some (Inl e)
    | Inr (buf, Leaf) \<Rightarrow> Some (insert_at_leaf key v path cur buf root p)
    | Inr (buf, Internal) \<Rightarrow>
        (case internal_child_for_key buf key of
           Inl e \<Rightarrow> Some (Inl e)
         | Inr (child, child_pos) \<Rightarrow> f key v ((cur, child_pos) # path) child root p)) = Some r"
  then show "kept p r"
    by (auto split: sum.splits page_kind.splits prod.splits intro: IH insert_at_leaf_roots)
qed

lemma btree_insert_roots: "btree_insert key v root p = Some r \<Longrightarrow> kept p r"
  by (simp add: btree_insert_def insert_loop_roots)

lemma sink_loop_roots: "sink_loop es root p = Some r \<Longrightarrow> kept p r"
proof (induction es arbitrary: root p)
  case (Cons e es)
  obtain k v where e: "e = (k, v)" by (cases e)
  show ?case
  proof (cases "rbind (pv_encode v) (\<lambda>encoded_val. blob_write encoded_val p)")
    case (Inr b)
    then obtain i q where b: "b = (i, q)" "roots q = roots p" by (cases b) (auto simp: rbind_Inr_iff dest: keptD [OF blob_write_roots])
    then show ?thesis
      using Cons.prems Inr keptD [OF btree_insert_roots] kept_trans [OF Cons.IH]
      by (auto simp: e split: option.splits sum.splits)
  next
    case (Inl err)
    then have "r = Inl err" using Cons.prems by (simp add: e)
    then show ?thesis by simp
  qed
qed auto

lemma sink_roots:
  assumes "sink_properties runs root p = Some r"
  shows "kept p r"
proof -
  let ?first = "if root = 0 then btree_create p else Inr (root, p)"
  have f: "roots q = roots p" if "?first = Inr (i, q)" for i q
    using that by (auto simp: btree_create_def rbind_Inr_iff dest!: page_roots split: if_splits)
  show ?thesis
  proof (cases ?first)
    case (Inr b)
    obtain i q where b: "b = (i, q)" by (cases b)
    then have "roots q = roots p" using f Inr by blast
    then show ?thesis
      using assms Inr keptD [OF sink_loop_roots] kept_trans [OF sink_loop_roots]
      by (auto simp: sink_properties_def b Let_def split: if_splits option.splits sum.splits)
  next
    case (Inl err)
    then have "r = Inl err \<or> r = Inr (root, p)" using assms by (simp add: sink_properties_def Let_def split: if_splits)
    then show ?thesis by auto
  qed
qed

lemma idmap_load_extend:
  assumes inv: "pager_inv p" "pager_inv q" and pages: "\<forall>i. pg_pages p i \<noteq> None \<longrightarrow> pg_pages q i = pg_pages p i"
    and roots: "roots q = roots p" and load: "idmap_load p = Inr im"
  shows "idmap_load q = Inr im"
proof -
  have m: "mt_i2e_start_page_id (pg_meta q) = mt_i2e_start_page_id (pg_meta p)" "mt_i2e_len (pg_meta q) = mt_i2e_len (pg_meta p)"
    using roots by (auto simp: roots_def dest: arg_cong [of _ _ mt_i2e_start_page_id] arg_cong [of _ _ mt_i2e_len])
  have r: "read_page q i = Inr b" if "read_page p i = Inr b" for i b
    using that pages unfolding read_page_iff [OF inv(1)] read_page_iff [OF inv(2)] by (auto split: option.splits)
  have "idmap_load_records q s ks im0 = Inr im" if "idmap_load_records p s ks im0 = Inr im" for s ks im0
    using that by (induction ks arbitrary: im0) (auto simp: rbind_Inr_iff read_i2e_record_def Let_def dest!: r split: prod.splits)
  with load show ?thesis
    by (auto simp: idmap_load_def i2e_start_page_def pager_i2e_len_def m Let_def split: option.splits if_splits)
qed

end
