(* ===== verification/Stats.thy ===== *)
theory Stats
  imports PropertyStore
begin

text \<open>
  Graph statistics: the record and its binary format (nervusdb-storage/src/stats.rs), reading it
  back from its blob (read_path_stats.rs), the counts a reader asks for
  (read_path_api_stats.rs), and the counting that \<open>compact\<close> does in engine.rs.
\<close>

section \<open>Definitions\<close>

record graph_statistics =
  gs_node_counts_by_label :: "(u32, u64) btmap"
  gs_edge_counts_by_type :: "(u32, u64) btmap"
  gs_total_nodes :: u64
  gs_total_edges :: u64

definition stats_default :: graph_statistics where
  "stats_default = \<lparr>gs_node_counts_by_label = [], gs_edge_counts_by_type = [], gs_total_nodes = 0, gs_total_edges = 0\<rparr>"

definition encode_counts :: "(u32, u64) btmap \<Rightarrow> bytes" where
  "encode_counts m = to_le (of_nat (length m) :: u32) @ concat (map (\<lambda>(k, c). to_le k @ to_le c) m)"

definition stats_encode :: "graph_statistics \<Rightarrow> bytes" where
  "stats_encode s = to_le (gs_total_nodes s) @ to_le (gs_total_edges s) @
     encode_counts (gs_node_counts_by_label s) @ encode_counts (gs_edge_counts_by_type s)"

text \<open>The slices of the source panic when they run past the end.\<close>

fun decode_count_loop :: "nat \<Rightarrow> bytes \<Rightarrow> nat \<Rightarrow> (u32, u64) btmap \<Rightarrow> ((u32, u64) btmap \<times> nat) result" where
  "decode_count_loop 0 bs pos m = Inr (m, pos)"
| "decode_count_loop (Suc n) bs pos m =
     rbind (subslice_checked pos 4 bs) (\<lambda>k.
     rbind (subslice_checked (pos + 4) 8 bs) (\<lambda>c.
     decode_count_loop n bs (pos + 12) (bt_insert (from_le k) (from_le c) m)))"

definition decode_counts :: "bytes \<Rightarrow> nat \<Rightarrow> ((u32, u64) btmap \<times> nat) result" where
  "decode_counts bs pos =
     rbind (subslice_checked pos 4 bs) (\<lambda>n.
     decode_count_loop (unat (from_le n :: u32)) bs (pos + 4) [])"

definition stats_decode :: "bytes \<Rightarrow> graph_statistics option result" where
  "stats_decode bs =
    (if length bs < 16 then Inr None
     else
       rbind (decode_counts bs 16) (\<lambda>(node_counts, pos).
       rbind (decode_counts bs pos) (\<lambda>(edge_counts, pos).
       Inr (Some \<lparr>gs_node_counts_by_label = node_counts, gs_edge_counts_by_type = edge_counts,
         gs_total_nodes = from_le (subslice 0 8 bs), gs_total_edges = from_le (subslice 8 8 bs)\<rparr>))))"

definition read_statistics :: "pager \<Rightarrow> u64 \<Rightarrow> graph_statistics result option" where
  "read_statistics p stats_root =
    (if stats_root = 0 then Some (Inr stats_default)
     else map_option (\<lambda>r. rbind r (\<lambda>bs. rbind (stats_decode bs) (\<lambda>s.
       case s of None \<Rightarrow> Inl (StorageCorrupted ''failed to decode statistics'') | Some s \<Rightarrow> Inr s)))
       (blob_read p stats_root))"

definition node_count_from_stats :: "graph_statistics option \<Rightarrow> u32 option \<Rightarrow> u64" where
  "node_count_from_stats stats label =
    (case stats of None \<Rightarrow> 0
     | Some stats \<Rightarrow>
         (case label of
            None \<Rightarrow> gs_total_nodes stats
          | Some lid \<Rightarrow> (case bt_get (gs_node_counts_by_label stats) lid of None \<Rightarrow> 0 | Some c \<Rightarrow> c)))"

definition edge_count_from_stats :: "graph_statistics option \<Rightarrow> u32 option \<Rightarrow> u64" where
  "edge_count_from_stats stats rel =
    (case stats of None \<Rightarrow> 0
     | Some stats \<Rightarrow>
         (case rel of
            None \<Rightarrow> gs_total_edges stats
          | Some rid \<Rightarrow> (case bt_get (gs_edge_counts_by_type stats) rid of None \<Rightarrow> 0 | Some c \<Rightarrow> c)))"

text \<open>\<open>*m.entry(k).or_default() += 1\<close>\<close>

definition count_one :: "u32 \<Rightarrow> (u32, u64) btmap \<Rightarrow> (u32, u64) btmap" where
  "count_one k m = bt_insert k ((case bt_get m k of None \<Rightarrow> 0 | Some c \<Rightarrow> c) + 1) m"

definition collect_statistics :: "u32 list list \<Rightarrow> csr_segment list \<Rightarrow> graph_statistics" where
  "collect_statistics node_labels segments =
    (let s = stats_default\<lparr>gs_total_nodes := of_nat (length node_labels)\<rparr>;
         s = fold (\<lambda>labels s. fold (\<lambda>l s. s\<lparr>gs_node_counts_by_label := count_one l (gs_node_counts_by_label s)\<rparr>) labels s) node_labels s
     in fold (\<lambda>seg s.
          let s = s\<lparr>gs_total_edges := gs_total_edges s + of_nat (length (cs_edges seg))\<rparr>
          in fold (\<lambda>e s. s\<lparr>gs_edge_counts_by_type := count_one (er_rel e) (gs_edge_counts_by_type s)\<rparr>) (cs_edges seg) s)
        segments s)"

section \<open>The codec\<close>

definition stats_wf :: "graph_statistics \<Rightarrow> bool" where
  "stats_wf s \<longleftrightarrow> bt_wf (gs_node_counts_by_label s) \<and> bt_wf (gs_edge_counts_by_type s) \<and>
     length (gs_node_counts_by_label s) < 2 ^ 32 \<and> length (gs_edge_counts_by_type s) < 2 ^ 32"

lemma decode_count_loop_ok:
  "length pre = pos \<Longrightarrow> bt_wf (acc @ m) \<Longrightarrow>
    decode_count_loop (length m) (pre @ concat (map (\<lambda>(k, c). to_le k @ to_le c) m) @ post) pos acc =
      Inr (acc @ m, pos + 12 * length m)"
proof (induction m arbitrary: pre pos acc)
  case (Cons e m)
  obtain k c where e: "e = (k, c)" by fastforce
  have ins: "bt_insert k c acc = acc @ [(k, c)]"
    using Cons.prems(2) by (intro bt_insert_last) (auto simp: e bt_wf_def sorted_wrt_append)
  have "decode_count_loop (length m) ((pre @ to_le k @ to_le c) @ concat (map (\<lambda>(k, c). to_le k @ to_le c) m) @ post) (pos + 12)
      (acc @ [(k, c)]) = Inr ((acc @ [(k, c)]) @ m, pos + 12 + 12 * length m)"
    using Cons.prems by (intro Cons.IH) (simp_all add: e)
  then show ?case using Cons.prems(1) by (simp add: e ins subslice_checked_def subslice_def)
qed simp

lemma length_encode_counts: "length (encode_counts m) = 4 + 12 * length m"
  by (induction m) (auto simp: encode_counts_def)

lemma decode_counts_ok:
  assumes "bt_wf m" "length m < 2 ^ 32" "length pre = pos"
  shows "decode_counts (pre @ encode_counts m @ post) pos = Inr (m, pos + 4 + 12 * length m)"
proof -
  have "subslice_checked pos 4 (pre @ encode_counts m @ post) = Inr (to_le (of_nat (length m) :: u32))"
    using assms(3) by (simp add: subslice_checked_def subslice_def encode_counts_def)
  then show ?thesis
    using decode_count_loop_ok [of "pre @ to_le (of_nat (length m) :: u32)" "pos + 4" "[]" m post] assms
    by (simp add: decode_counts_def encode_counts_def unat_word_of_nat_less)
qed

lemma stats_decode_encode:
  assumes "stats_wf s"
  shows "stats_decode (stats_encode s) = Inr (Some s)"
proof -
  let ?h = "to_le (gs_total_nodes s) @ to_le (gs_total_edges s)"
  let ?n = "encode_counts (gs_node_counts_by_label s)" and ?e = "encode_counts (gs_edge_counts_by_type s)"
  have enc: "stats_encode s = ?h @ ?n @ ?e" by (simp add: stats_encode_def)
  have "decode_counts (stats_encode s) 16 = Inr (gs_node_counts_by_label s, 20 + 12 * length (gs_node_counts_by_label s))"
    using decode_counts_ok [of "gs_node_counts_by_label s" ?h 16 ?e] assms by (simp add: enc stats_wf_def)
  moreover have "decode_counts (stats_encode s) (20 + 12 * length (gs_node_counts_by_label s)) =
      Inr (gs_edge_counts_by_type s, 24 + 12 * length (gs_node_counts_by_label s) + 12 * length (gs_edge_counts_by_type s))"
    using decode_counts_ok [of "gs_edge_counts_by_type s" "?h @ ?n" _ "[]"] assms
    by (simp add: enc stats_wf_def length_encode_counts)
  moreover have "subslice 0 8 (stats_encode s) = to_le (gs_total_nodes s)" "subslice 8 8 (stats_encode s) = to_le (gs_total_edges s)"
    by (simp_all add: enc subslice_def)
  moreover have "16 \<le> length (stats_encode s)" by (simp add: enc)
  ultimately show ?thesis by (simp add: stats_decode_def)
qed

text \<open>Decoding fails in one way only: it panics when the counts run past the end.\<close>

lemma decode_count_loop_cases:
  "pos \<le> length bs \<Longrightarrow>
   if pos + 12 * n \<le> length bs then \<exists>m'. decode_count_loop n bs pos m = Inr (m', pos + 12 * n)
   else is_panic (decode_count_loop n bs pos m)"
proof (induction n arbitrary: pos m)
  case (Suc n)
  show ?case
  proof (cases "pos + 12 \<le> length bs")
    case True
    then show ?thesis using Suc.IH [of "pos + 12" "bt_insert (from_le (subslice pos 4 bs)) (from_le (subslice (pos + 4) 8 bs)) m"]
      by (auto simp: subslice_checked_def add.assoc split: if_splits)
  next
    case False
    then show ?thesis by (auto simp: subslice_checked_def)
  qed
qed simp

definition counts_at :: "bytes \<Rightarrow> nat \<Rightarrow> nat" where
  "counts_at bs pos = unat (from_le (subslice pos 4 bs) :: u32)"

lemma decode_counts_cases:
  "if pos + 4 + 12 * counts_at bs pos \<le> length bs then \<exists>m'. decode_counts bs pos = Inr (m', pos + 4 + 12 * counts_at bs pos)
   else is_panic (decode_counts bs pos)"
  using decode_count_loop_cases [of "pos + 4" bs "counts_at bs pos" "[]"]
  by (auto simp: decode_counts_def subslice_checked_def counts_at_def)

text \<open>
  Decoding statistics panics exactly on bytes that have the sixteen bytes that are checked
  for and are shorter than their own counts say; it returns \<open>None\<close> on fewer than sixteen bytes
  and statistics otherwise.
\<close>

lemma stats_decode_panics_iff:
  "is_panic (stats_decode bs) \<longleftrightarrow> 16 \<le> length bs \<and>
     length bs < (let e = 20 + 12 * counts_at bs 16 in e + 4 + 12 * counts_at bs e)"
proof -
  let ?e = "20 + 12 * counts_at bs 16"
  show ?thesis
  proof (cases "?e \<le> length bs")
    case True
    then obtain m where "decode_counts bs 16 = Inr (m, ?e)" using decode_counts_cases [of 16 bs] by (auto split: if_splits)
    then show ?thesis using True decode_counts_cases [of ?e bs]
      by (auto simp: stats_decode_def Let_def panic_rbind_left split: if_splits)
  next
    case False
    then have "is_panic (decode_counts bs 16)" using decode_counts_cases [of 16 bs] by simp
    then show ?thesis using False by (auto simp: stats_decode_def Let_def panic_rbind_left)
  qed
qed

lemma blob_at_nonzero: "blob_at p I pid data \<Longrightarrow> data \<noteq> [] \<Longrightarrow> pid \<noteq> 0"
proof -
  assume "blob_at p I pid data" "data \<noteq> []"
  then obtain l where "chain_wf l" "concat (map snd l) = data" "pid = chain_next l" by (auto simp: blob_at_def)
  moreover from this \<open>data \<noteq> []\<close> have "l \<noteq> []" by auto
  ultimately show "pid \<noteq> 0" by (cases l) (auto simp: chain_wf_def)
qed

text \<open>
  Statistics written as a blob are read back unchanged, and the read terminates.
\<close>

lemma statistics_persist_read:
  assumes "pager_inv p" and "stats_wf s" and "blob_need (stats_encode s) \<le> free_pages p"
  shows "\<exists>root p'. blob_write (stats_encode s) p = Inr (root, p') \<and> pager_inv p' \<and> pg_pages p \<subseteq>\<^sub>m pg_pages p' \<and>
    read_statistics p' root = Some (Inr s)"
proof -
  obtain pid p' where w: "blob_write (stats_encode s) p = Inr (pid, p')" "pager_inv p'" "pg_pages p \<subseteq>\<^sub>m pg_pages p'"
    "blob_at p' {} pid (stats_encode s)"
    using blob_write_fits [OF assms(1,3)] by (metis empty_subsetI)
  have "stats_encode s \<noteq> []" by (simp add: stats_encode_def flip: length_greater_0_conv)
  then have "pid \<noteq> 0" using w(4) blob_at_nonzero by blast
  then show ?thesis
    using w blob_at_read [OF w(2,4)] stats_decode_encode [OF assms(2)] by (auto simp: read_statistics_def)
qed

section \<open>Counting\<close>

lemma count_one_ok:
  "bt_wf m \<Longrightarrow> bt_wf (fold count_one ks m) \<and> bt_get (fold count_one ks m) k =
    (if k \<in> set ks then Some ((case bt_get m k of None \<Rightarrow> 0 | Some c \<Rightarrow> c) + of_nat (count_list ks k)) else bt_get m k)"
proof (induction ks arbitrary: m)
  case (Cons x ks)
  have "bt_wf (count_one x m)" using Cons.prems by (simp add: count_one_def)
  from Cons.IH [OF this] Cons.prems show ?case
    by (auto simp: count_one_def bt_get_insert count_list_0_iff split: option.split)
qed simp

lemma collect_fields:
  "gs_node_counts_by_label (collect_statistics nl segs) = fold count_one (concat nl) []"
  "gs_edge_counts_by_type (collect_statistics nl segs) = fold count_one (map er_rel (concat (map cs_edges segs))) []"
  "gs_total_nodes (collect_statistics nl segs) = of_nat (length nl)"
  "gs_total_edges (collect_statistics nl segs) = of_nat (length (concat (map cs_edges segs)))"
proof -
  define fe where "fe = (\<lambda>(e :: edge_record) (s :: graph_statistics). s\<lparr>gs_edge_counts_by_type := count_one (er_rel e) (gs_edge_counts_by_type s)\<rparr>)"
  define fs where "fs = (\<lambda>(seg :: csr_segment) s. fold fe (cs_edges seg) (s\<lparr>gs_total_edges := gs_total_edges s + of_nat (length (cs_edges seg))\<rparr>))"
  define fl where "fl = (\<lambda>labels (s :: graph_statistics). fold (\<lambda>l s. s\<lparr>gs_node_counts_by_label := count_one l (gs_node_counts_by_label s)\<rparr>) labels s)"
  have c: "collect_statistics nl segs = fold fs segs (fold fl nl (stats_default\<lparr>gs_total_nodes := of_nat (length nl)\<rparr>))"
    by (simp add: collect_statistics_def fe_def fs_def fl_def Let_def)
  have e: "fold fe es s = s\<lparr>gs_edge_counts_by_type := fold count_one (map er_rel es) (gs_edge_counts_by_type s)\<rparr>" for es s
    by (induction es arbitrary: s) (simp_all add: fe_def)
  have g: "fold fs segs s = s\<lparr>gs_edge_counts_by_type := fold count_one (map er_rel (concat (map cs_edges segs))) (gs_edge_counts_by_type s),
      gs_total_edges := gs_total_edges s + of_nat (length (concat (map cs_edges segs)))\<rparr>" for s
    by (induction segs arbitrary: s) (simp_all add: fs_def e ac_simps)
  have l: "fl ls s = s\<lparr>gs_node_counts_by_label := fold count_one ls (gs_node_counts_by_label s)\<rparr>" for ls s
    unfolding fl_def by (induction ls arbitrary: s) simp_all
  have n: "fold fl nl s = s\<lparr>gs_node_counts_by_label := fold count_one (concat nl) (gs_node_counts_by_label s)\<rparr>" for nl s
    by (induction nl arbitrary: s) (simp_all add: l)
  show "gs_node_counts_by_label (collect_statistics nl segs) = fold count_one (concat nl) []"
    "gs_edge_counts_by_type (collect_statistics nl segs) = fold count_one (map er_rel (concat (map cs_edges segs))) []"
    "gs_total_nodes (collect_statistics nl segs) = of_nat (length nl)"
    "gs_total_edges (collect_statistics nl segs) = of_nat (length (concat (map cs_edges segs)))"
    unfolding c g n by (simp_all add: stats_default_def)
qed

text \<open>
  The statistics a compaction collects answer every count exactly: nodes in all and with a
  label, edges in all and of a type.
\<close>

lemma statistics_exact:
  "node_count_from_stats (Some (collect_statistics nl segs)) None = of_nat (length nl) \<and>
   node_count_from_stats (Some (collect_statistics nl segs)) (Some l) = of_nat (count_list (concat nl) l) \<and>
   edge_count_from_stats (Some (collect_statistics nl segs)) None = of_nat (length (concat (map cs_edges segs))) \<and>
   edge_count_from_stats (Some (collect_statistics nl segs)) (Some r) =
     of_nat (count_list (map er_rel (concat (map cs_edges segs))) r)"
  using count_one_ok [of "[]" "concat nl" l] count_one_ok [of "[]" "map er_rel (concat (map cs_edges segs))" r]
  by (auto simp: node_count_from_stats_def edge_count_from_stats_def collect_fields count_list_0_iff)

end
