(* ===== verification/OrderedKey.thy ===== *)
theory OrderedKey
  imports PropertyValue
begin

unbundle bit_operations_syntax

text \<open>
  The order-preserving key encoding of nervusdb-storage/src/index/ordered_key.rs, with which
  the secondary indexes turn property values into B-tree keys.
\<close>

section \<open>Definitions\<close>

text \<open>\<open>0x00\<close> becomes \<open>0x00 0xFF\<close>, so that the terminator \<open>0x00 0x00\<close> sorts below every
  continuation of the string.\<close>

fun stuff_bytes :: "bytes \<Rightarrow> bytes" where
  "stuff_bytes [] = []"
| "stuff_bytes (b # bs) = (if b = 0x00 then [0x00, 0xFF] else [b]) @ stuff_bytes bs"

definition flip_sign :: "i64 \<Rightarrow> u64" where
  "flip_sign i = i XOR 0x8000000000000000"

definition sortable_float :: "f64 \<Rightarrow> u64" where
  "sortable_float w = (if w AND (push_bit 63 1) \<noteq> 0 then NOT w else w XOR (push_bit 63 1))"

fun encode_ordered_value :: "property_value \<Rightarrow> bytes" where
  "encode_ordered_value PNull = [0x00]"
| "encode_ordered_value (PBool b) = [0x01, if b then 1 else 0]"
| "encode_ordered_value (PInt i) = 0x02 # to_be (flip_sign i)"
| "encode_ordered_value (PFloat f) = 0x03 # to_be (sortable_float f)"
| "encode_ordered_value (PString s) = 0x04 # stuff_bytes s @ [0x00, 0x00]"
| "encode_ordered_value (PDateTime i) = 0x05 # to_be (flip_sign i)"
| "encode_ordered_value (PBlob b) = 0x06 # stuff_bytes b @ [0x00, 0x00]"
| "encode_ordered_value (PList _) = [0x07]"
| "encode_ordered_value (PMap _) = [0x08]"

definition encode_index_key :: "u32 \<Rightarrow> property_value \<Rightarrow> u64 \<Rightarrow> bytes" where
  "encode_index_key index_id v internal_node_id =
     to_be index_id @ encode_ordered_value v @ to_be internal_node_id"

section \<open>The order of values\<close>

text \<open>
  The order the encoding has to reproduce: by type, then by value. Floats are compared by the
  IEEE total order on bit patterns (sign and magnitude), which is the numeric order on the
  numbers other than zero.
\<close>

definition f64_rank :: "f64 \<Rightarrow> int" where
  "f64_rank w = (if 2 ^ 63 \<le> uint w then 2 ^ 63 - 1 - uint w else uint w)"

fun type_rank :: "property_value \<Rightarrow> nat" where
  "type_rank PNull = 0"
| "type_rank (PBool _) = 1"
| "type_rank (PInt _) = 2"
| "type_rank (PFloat _) = 3"
| "type_rank (PString _) = 4"
| "type_rank (PDateTime _) = 5"
| "type_rank (PBlob _) = 6"
| "type_rank (PList _) = 7"
| "type_rank (PMap _) = 8"

fun value_less :: "property_value \<Rightarrow> property_value \<Rightarrow> bool" where
  "value_less (PBool a) (PBool b) \<longleftrightarrow> \<not> a \<and> b"
| "value_less (PInt a) (PInt b) \<longleftrightarrow> sint a < sint b"
| "value_less (PFloat a) (PFloat b) \<longleftrightarrow> f64_rank a < f64_rank b"
| "value_less (PString a) (PString b) \<longleftrightarrow> a < b"
| "value_less (PDateTime a) (PDateTime b) \<longleftrightarrow> sint a < sint b"
| "value_less (PBlob a) (PBlob b) \<longleftrightarrow> a < b"
| "value_less v w \<longleftrightarrow> type_rank v < type_rank w"

definition is_scalar :: "property_value \<Rightarrow> bool" where
  "is_scalar v \<longleftrightarrow> type_rank v < 7"

section \<open>Each encoding preserves its order\<close>

lemma flip_sign_plus: "flip_sign i = i + 2 ^ 63"
proof -
  have m: "(0x8000000000000000 :: u64) = push_bit 63 1" by simp
  have flip: "flip_sign i = flip_bit 63 i" by (simp only: flip_sign_def m flip_bit_eq_xor)
  have neg: "- (2 ^ 63) = (2 ^ 63 :: u64)" by simp
  show ?thesis
  proof (cases "bit i 63")
    case True
    then have "flip_sign i = i + - (2 ^ 63)"
      unfolding flip flip_bit_eq_if unset_bit_eq by simp
    then show ?thesis by (simp only: neg)
  next
    case False
    then show ?thesis unfolding flip flip_bit_eq_if set_bit_eq by simp
  qed
qed

lemma uint_flip_sign: "uint (flip_sign i) = sint i + 2 ^ 63"
proof -
  have "sint i = take_bit 64 (uint i + 2 ^ 63) - 2 ^ 63"
    by (simp add: sint_uint signed_take_bit_eq_take_bit_shift)
  moreover have "uint (flip_sign i) = take_bit 64 (uint i + 2 ^ 63)"
    by (simp add: flip_sign_plus uint_word_ariths take_bit_eq_mod)
  ultimately show ?thesis by linarith
qed

lemma flip_sign_less_iff: "flip_sign a < flip_sign b \<longleftrightarrow> sint a < sint b"
  by (simp only: word_less_def uint_flip_sign add_less_cancel_right)

lemma flip_sign_inject: "flip_sign a = flip_sign b \<longleftrightarrow> a = b"
  by (simp only: flip_sign_plus add_right_cancel)

lemma uint_u64_bounds: "0 \<le> uint (w :: u64)" "uint (w :: u64) < 2 ^ 64"
  using uint_bounded [of w] by simp_all

lemma uint_not_u64: "uint (NOT (w :: u64)) = 2 ^ 64 - 1 - uint w"
proof -
  have "uint (NOT w) = (- uint w - 1) mod 2 ^ 64"
    by (simp add: not_eq_complement uint_word_ariths mod_simps)
  also have "\<dots> = (- uint w - 1 + 2 ^ 64) mod 2 ^ 64" by (simp only: mod_add_self2)
  also have "\<dots> = - uint w - 1 + 2 ^ 64"
    by (rule mod_pos_pos_trivial) (use uint_u64_bounds [of w] in linarith)+
  finally show ?thesis by linarith
qed

lemma top_bit_u64: "w AND push_bit 63 1 \<noteq> 0 \<longleftrightarrow> 2 ^ 63 \<le> uint (w :: u64)"
proof -
  have "w AND push_bit 63 1 \<noteq> 0 \<longleftrightarrow> bit w 63"
    by (simp only: push_bit_of_1 and_exp_eq_0_iff_not_bit not_not)
  also have "\<dots> \<longleftrightarrow> bit (uint w) 63" by (simp add: bit_uint_iff)
  also have "\<dots> \<longleftrightarrow> odd (uint w div 2 ^ 63)" by (rule bit_iff_odd)
  also have "\<dots> \<longleftrightarrow> 2 ^ 63 \<le> uint w"
  proof (cases "2 ^ 63 \<le> uint w")
    case True
    moreover have "uint w < 2 * 2 ^ 63" using uint_u64_bounds [of w] by simp
    ultimately have "uint w div 2 ^ 63 = 1" by (intro int_div_pos_eq [where r = "uint w - 2 ^ 63"]) auto
    with True show ?thesis by simp
  next
    case False
    then have "uint w div 2 ^ 63 = 0" using uint_u64_bounds [of w] by (intro div_pos_pos_trivial) linarith+
    with False show ?thesis by simp
  qed
  finally show ?thesis .
qed

lemma uint_sortable_float: "uint (sortable_float w) = f64_rank w + 2 ^ 63"
proof (cases "2 ^ 63 \<le> uint w")
  case True
  then have "sortable_float w = NOT w" by (simp only: sortable_float_def top_bit_u64 if_True)
  with True show ?thesis by (simp add: f64_rank_def uint_not_u64)
next
  case False
  then have "sortable_float w = w XOR push_bit 63 1"
    by (simp only: sortable_float_def top_bit_u64 if_False)
  also have "\<dots> = flip_sign w" by (simp add: flip_sign_def)
  finally have e: "sortable_float w = w + 2 ^ 63" by (simp only: flip_sign_plus)
  have "uint (w + 2 ^ 63) = (uint w + 2 ^ 63) mod 2 ^ 64" by (simp add: uint_word_ariths)
  also have "\<dots> = uint w + 2 ^ 63"
    by (rule mod_pos_pos_trivial) (use False uint_u64_bounds [of w] in simp_all)
  finally show ?thesis using False by (simp only: e f64_rank_def if_False)
qed

lemma sortable_float_less_iff: "sortable_float a < sortable_float b \<longleftrightarrow> f64_rank a < f64_rank b"
  by (simp only: word_less_def uint_sortable_float add_less_cancel_right)

lemma sortable_float_inject: "sortable_float a = sortable_float b \<longleftrightarrow> f64_rank a = f64_rank b"
  by (simp only: word_uint_eq_iff uint_sortable_float add_right_cancel)

lemma f64_rank_inject: "f64_rank a = f64_rank b \<longleftrightarrow> a = b"
proof
  have inj: "x = y"
    if "0 \<le> x" "x < 2 ^ 64" "0 \<le> y" "y < 2 ^ 64"
      and "(if 2 ^ 63 \<le> x then 2 ^ 63 - 1 - x else x) = (if 2 ^ 63 \<le> y then 2 ^ 63 - 1 - y else y)"
    for x y :: int
    using that by (simp split: if_splits)
  assume "f64_rank a = f64_rank b"
  then have "uint a = uint b"
    unfolding f64_rank_def by (rule inj [OF uint_u64_bounds uint_u64_bounds])
  then show "a = b" by (simp only: word_uint_eq_iff)
qed simp

lemma sint_inject_i64: "sint (a :: i64) = sint b \<longleftrightarrow> a = b"
  by (metis uint_flip_sign flip_sign_inject word_uint_eq_iff)

lemma stuff_bytes_less:
  "stuff_bytes s @ 0 # 0 # u < stuff_bytes t @ 0 # 0 # v \<longleftrightarrow> s < t \<or> s = t \<and> u < v"
proof (induction s arbitrary: t)
  case Nil
  then show ?case by (cases t) (auto simp: word_gt_0)
next
  case (Cons a s)
  then show ?case by (cases t) (auto simp: word_gt_0)
qed

lemma to_be_append_less:
  "to_be (a :: u64) @ u < to_be b @ v \<longleftrightarrow> a < b \<or> a = b \<and> u < v"
  "to_be (c :: u32) @ u < to_be d @ v \<longleftrightarrow> c < d \<or> c = d \<and> u < v"
  by (simp_all add: lex_append_same_length to_be_less_iff)
   (metis from_be_to_be_widths)+

lemmas value_order_simps =
  to_be_append_less flip_sign_less_iff flip_sign_inject sortable_float_less_iff
  sortable_float_inject f64_rank_inject

lemma encode_ordered_value_append_less:
  assumes "is_scalar v" "is_scalar w"
  shows "encode_ordered_value v @ u < encode_ordered_value w @ x \<longleftrightarrow>
    value_less v w \<or> v = w \<and> u < x"
  using assms stuff_bytes_less
  by (cases v; cases w) (simp_all add: is_scalar_def value_order_simps)

lemma value_less_total:
  assumes "is_scalar v" "is_scalar w" "v \<noteq> w"
  shows "value_less v w \<or> value_less w v"
proof -
  have i: "a \<noteq> b \<Longrightarrow> sint a < sint b \<or> sint b < sint a" for a b :: i64
    by (metis linorder_neq_iff sint_inject_i64)
  have f: "a \<noteq> b \<Longrightarrow> f64_rank a < f64_rank b \<or> f64_rank b < f64_rank a" for a b
    by (metis linorder_neq_iff f64_rank_inject)
  show ?thesis
    using assms by (cases v; cases w) (auto simp: is_scalar_def dest: i f)
qed

lemma encode_ordered_value_prefix_free:
  assumes "is_scalar v" "is_scalar w" "encode_ordered_value w @ x = encode_ordered_value v @ u"
  shows "v = w"
proof (rule ccontr)
  assume "v \<noteq> w"
  then consider "value_less v w" | "value_less w v" using value_less_total assms by blast
  then show False
  proof cases
    case 1
    then have "encode_ordered_value v @ u < encode_ordered_value w @ x"
      by (simp add: encode_ordered_value_append_less assms(1,2))
    then show False by (simp add: assms(3))
  next
    case 2
    then have "encode_ordered_value w @ x < encode_ordered_value v @ u"
      by (simp add: encode_ordered_value_append_less assms(1,2))
    then show False by (simp add: assms(3))
  qed
qed

section \<open>Properties\<close>

text \<open>
  C5. For scalar values the byte order of the index keys is the order of the triples
  (index, value, node): keys of one index are contiguous, within it values are ordered by type
  and then by value (signed integers, floats by sign and magnitude, strings bytewise, embedded
  zero bytes included), and entries with the same value by node.
\<close>

theorem encode_index_key_order:
  assumes "is_scalar v" "is_scalar w"
  shows "encode_index_key i v n < encode_index_key j w m \<longleftrightarrow>
    i < j \<or> i = j \<and> (value_less v w \<or> v = w \<and> n < m)"
proof -
  have "to_be n < to_be m \<longleftrightarrow> n < m"
    using to_be_append_less(1) [of n "[]" m "[]"] by simp
  then show ?thesis
    unfolding encode_index_key_def to_be_append_less encode_ordered_value_append_less [OF assms]
    by simp
qed

theorem encode_index_key_order_witness:
  "is_scalar (PInt (- 5)) \<and> is_scalar (PString [0, 65]) \<and>
   encode_index_key 7 (PInt (- 5)) 900 < encode_index_key 7 (PString [0, 65]) 1 \<and>
   encode_index_key 7 (PInt (- 5)) 900 < encode_index_key 7 (PInt 3) 1"
  using encode_index_key_order [of "PInt (- 5)" "PString [0, 65]" 7 900 7 1]
    encode_index_key_order [of "PInt (- 5)" "PInt 3" 7 900 7 1]
  by (simp add: is_scalar_def)

end
