(* ===== verification/Catalog.thy ===== *)
theory Catalog
  imports PropertyStore IdMap
begin

text \<open>
  The index catalog, nervusdb-storage/src/index/catalog.rs: one page that maps the name of every
  index to its number and to the root of its B-tree.
\<close>

section \<open>Definitions\<close>

definition CAT_MAGIC :: bytes where
  "CAT_MAGIC = [78, 68, 66, 88, 67, 65, 84, 49]"

definition CAT_HEADER_SIZE :: nat where
  "CAT_HEADER_SIZE = 16"

record index_def =
  ix_id :: u32
  ix_root :: u64

record index_catalog =
  ic_page :: u64
  ic_entries :: "(rstring, index_def) btmap"

definition init_empty_catalog_page :: bytes where
  "init_empty_catalog_page = overwrite 8 (to_le (0 :: u16)) (overwrite 0 CAT_MAGIC (replicate PAGE_SIZE 0))"

fun decode_catalog_loop :: "nat \<Rightarrow> bytes \<Rightarrow> nat \<Rightarrow> (rstring, index_def) btmap \<Rightarrow> (rstring, index_def) btmap result" where
  "decode_catalog_loop 0 buf off entries = Inr entries"
| "decode_catalog_loop (Suc n) buf off entries =
    (if PAGE_SIZE < off + 2 then Inl (WalProtocol ''index catalog: truncated'')
     else
       let name_len = unat (from_le (subslice off 2 buf) :: u16); off = off + 2
       in if PAGE_SIZE < off + name_len + 4 + 8 then Inl (WalProtocol ''index catalog: truncated'')
          else
            rbind (from_utf8 (WalProtocol ''index catalog: invalid utf8'') (subslice off name_len buf)) (\<lambda>name.
            let off = off + name_len;
                id = from_le (subslice off 4 buf);
                root = from_le (subslice (off + 4) 8 buf)
            in decode_catalog_loop n buf (off + 4 + 8) (bt_insert name \<lparr>ix_id = id, ix_root = root\<rparr> entries)))"

definition decode_catalog_page :: "bytes \<Rightarrow> (rstring, index_def) btmap result" where
  "decode_catalog_page buf =
    (if subslice 0 8 buf \<noteq> CAT_MAGIC then Inl (WalProtocol ''index catalog: bad magic'')
     else decode_catalog_loop (unat (from_le (subslice 8 2 buf) :: u16)) buf CAT_HEADER_SIZE [])"

fun encode_catalog_loop :: "(rstring, index_def) btmap \<Rightarrow> nat \<Rightarrow> bytes \<Rightarrow> bytes result" where
  "encode_catalog_loop [] off out = Inr out"
| "encode_catalog_loop ((name, def) # entries) off out =
    (if 2 ^ 16 \<le> length name then Inl (WalProtocol ''index catalog: name too long'')
     else if PAGE_SIZE < off + (2 + length name + 4 + 8) then Inl (WalProtocol ''index catalog: page full'')
     else
       let out = overwrite off (to_le (of_nat (length name) :: u16)) out; off = off + 2;
           out = overwrite off name out; off = off + length name;
           out = overwrite off (to_le (ix_id def)) out; off = off + 4;
           out = overwrite off (to_le (ix_root def)) out; off = off + 8
       in encode_catalog_loop entries off out)"

definition encode_catalog_page :: "(rstring, index_def) btmap \<Rightarrow> bytes result" where
  "encode_catalog_page entries =
    (let out = overwrite 0 CAT_MAGIC (replicate PAGE_SIZE 0)
     in if 2 ^ 16 \<le> length entries then Inl (WalProtocol ''index catalog: too many entries'')
        else encode_catalog_loop entries CAT_HEADER_SIZE
          (overwrite 8 (to_le (of_nat (length entries) :: u16)) out))"

definition open_or_create :: "pager \<Rightarrow> (index_catalog \<times> pager) result" where
  "open_or_create p =
    rbind (case index_catalog_root p of
        Some page \<Rightarrow> Inr (page, p)
      | None \<Rightarrow>
          rbind (allocate_page p) (\<lambda>(page, p).
          rbind (write_page page init_empty_catalog_page p) (\<lambda>p.
          Inr (page, set_index_catalog_root (Some page) p)))) (\<lambda>(page, p).
    rbind (read_page p page) (\<lambda>buf.
    rbind (decode_catalog_page buf) (\<lambda>entries.
    Inr (\<lparr>ic_page = page, ic_entries = entries\<rparr>, p))))"

definition open_existing :: "pager \<Rightarrow> index_catalog option result" where
  "open_existing p =
    (case index_catalog_root p of
       None \<Rightarrow> Inr None
     | Some page \<Rightarrow>
         rbind (read_page p page) (\<lambda>buf.
         rbind (decode_catalog_page buf) (\<lambda>entries.
         Inr (Some \<lparr>ic_page = page, ic_entries = entries\<rparr>))))"

definition catalog_get :: "index_catalog \<Rightarrow> rstring \<Rightarrow> index_def option" where
  "catalog_get cat name = bt_get (ic_entries cat) name"

definition catalog_flush :: "index_catalog \<Rightarrow> pager \<Rightarrow> pager result" where
  "catalog_flush cat p =
    rbind (encode_catalog_page (ic_entries cat)) (\<lambda>buf. write_page (ic_page cat) buf p)"

definition get_or_create :: "rstring \<Rightarrow> index_catalog \<Rightarrow> pager \<Rightarrow> (index_def \<times> index_catalog \<times> pager) result" where
  "get_or_create name cat p =
    (case bt_get (ic_entries cat) name of
       Some def \<Rightarrow> Inr (def, cat, p)
     | None \<Rightarrow>
         let (id, p) = allocate_index_id p
         in rbind (btree_create p) (\<lambda>(root, p).
            let def = \<lparr>ix_id = id, ix_root = root\<rparr>;
                cat = cat\<lparr>ic_entries := bt_insert name def (ic_entries cat)\<rparr>
            in rbind (catalog_flush cat p) (\<lambda>p. Inr (def, cat, p))))"

definition update_root :: "rstring \<Rightarrow> u64 \<Rightarrow> index_catalog \<Rightarrow> pager \<Rightarrow> (index_catalog \<times> pager) result" where
  "update_root name new_root cat p =
    (case bt_get (ic_entries cat) name of
       None \<Rightarrow> Inl (WalProtocol ''index catalog: missing entry'')
     | Some def \<Rightarrow>
         let cat = cat\<lparr>ic_entries := bt_insert name (def\<lparr>ix_root := new_root\<rparr>) (ic_entries cat)\<rparr>
         in rbind (catalog_flush cat p) (\<lambda>p. Inr (cat, p)))"

section \<open>The page\<close>

definition catalog_record :: "rstring \<times> index_def \<Rightarrow> bytes" where
  "catalog_record e = to_le (of_nat (length (fst e)) :: u16) @ fst e @ to_le (ix_id (snd e)) @ to_le (ix_root (snd e))"

definition catalog_size :: "(rstring, index_def) btmap \<Rightarrow> nat" where
  "catalog_size entries = (\<Sum>e \<leftarrow> entries. 14 + length (fst e))"

lemma length_catalog_record [simp]: "length (catalog_record e) = 14 + length (fst e)"
  by (simp add: catalog_record_def)

lemma length_concat_records: "length (concat (map catalog_record es)) = catalog_size es"
  by (induction es) (simp_all add: catalog_size_def)

lemma encode_catalog_loop_ok:
  "length out = PAGE_SIZE \<Longrightarrow>
   if off + catalog_size es \<le> PAGE_SIZE then encode_catalog_loop es off out = Inr (overwrite off (concat (map catalog_record es)) out)
   else es = [] \<or> (\<exists>m. encode_catalog_loop es off out = Inl (WalProtocol m))"
proof (induction es arbitrary: off out)
  case (Cons e es)
  obtain name d where e: "e = (name, d)" by fastforce
  let ?n = "to_le (of_nat (length name) :: u16)" and ?i = "to_le (ix_id d)" and ?r = "to_le (ix_root d)"
  show ?case
  proof (cases "off + (14 + length name) \<le> PAGE_SIZE")
    case True
    then have small: "length name < 2 ^ 16" by (simp add: PAGE_SIZE_def)
    have w: "overwrite (off + 2 + length name + 4) ?r (overwrite (off + 2 + length name) ?i
        (overwrite (off + 2) name (overwrite off ?n out))) = overwrite off (catalog_record e) out" (is "?out = _")
      using overwrite_overwrite [of off ?n name out] overwrite_overwrite [of off "?n @ name" ?i out]
        overwrite_overwrite [of off "?n @ name @ ?i" ?r out] True Cons.prems
      by (simp add: catalog_record_def e ac_simps)
    have step: "encode_catalog_loop (e # es) off out =
        encode_catalog_loop es (off + (14 + length name)) (overwrite off (catalog_record e) out)"
      using True small w by (simp add: e Let_def ac_simps not_le)
    have size: "off + catalog_size (e # es) = off + (14 + length name) + catalog_size es" by (simp add: catalog_size_def e)
    have len: "length (overwrite off (catalog_record e) out) = PAGE_SIZE" using Cons.prems True by (simp add: e length_overwrite)
    note ih = Cons.IH [OF len, of "off + (14 + length name)"]
    show ?thesis
    proof (cases "off + catalog_size (e # es) \<le> PAGE_SIZE")
      case fits: True
      have "overwrite (off + length (catalog_record e)) (concat (map catalog_record es)) (overwrite off (catalog_record e) out) =
          overwrite off (catalog_record e @ concat (map catalog_record es)) out"
        using fits size Cons.prems by (intro overwrite_overwrite) (simp add: e length_concat_records)
      moreover have "length (catalog_record e) = 14 + length name" by (simp add: e)
      ultimately show ?thesis using fits ih unfolding step size by simp
    next
      case False
      then have "es \<noteq> []" using True unfolding size by (auto simp: catalog_size_def)
      with False ih show ?thesis unfolding step size by simp
    qed
  next
    case False
    then show ?thesis by (auto simp: e catalog_size_def)
  qed
qed (simp add: catalog_size_def overwrite_def)

lemma decode_catalog_loop_ok:
  "length pre = off \<Longrightarrow> length (pre @ concat (map catalog_record es) @ post) = PAGE_SIZE \<Longrightarrow>
   bt_wf (acc @ es) \<Longrightarrow> \<forall>e \<in> set es. utf8_valid (fst e) \<Longrightarrow>
   decode_catalog_loop (length es) (pre @ concat (map catalog_record es) @ post) off acc = Inr (acc @ es)"
proof (induction es arbitrary: pre off acc)
  case (Cons e es)
  obtain name d where e: "e = (name, d)" by fastforce
  let ?buf = "pre @ concat (map catalog_record (e # es)) @ post"
  have len: "off + 14 + length name \<le> PAGE_SIZE" using Cons.prems(1,2) by (simp add: e)
  have f: "unat (from_le (subslice off 2 ?buf) :: u16) = length name" "subslice (off + 2) (length name) ?buf = name"
    "from_le (subslice (off + 2 + length name) 4 ?buf) = ix_id d" "from_le (subslice (off + 2 + length name + 4) 8 ?buf) = ix_root d"
    using len Cons.prems(1) by (simp_all add: e catalog_record_def subslice_def unat_word_of_nat_less PAGE_SIZE_def)
  have ins: "bt_insert name \<lparr>ix_id = ix_id d, ix_root = ix_root d\<rparr> acc = acc @ [(name, d)]"
    using Cons.prems(3) by (subst bt_insert_last) (auto simp: e bt_wf_def sorted_wrt_append)
  have "decode_catalog_loop (length es) ((pre @ catalog_record e) @ concat (map catalog_record es) @ post) (off + 14 + length name)
      (acc @ [(name, d)]) = Inr ((acc @ [(name, d)]) @ es)"
    using Cons.prems by (intro Cons.IH) (simp_all add: e)
  then show ?case using f len Cons.prems(4) ins by (simp add: e Let_def ac_simps)
qed simp

lemma size_length: "14 * length es \<le> catalog_size es"
  by (induction es) (simp_all add: catalog_size_def)

text \<open>A catalog that fits its page is written and decodes to itself; one that does not is refused.\<close>

lemma encode_catalog_page_ok:
  assumes fits: "CAT_HEADER_SIZE + catalog_size es \<le> PAGE_SIZE" and wf: "bt_wf es" "\<forall>e \<in> set es. utf8_valid (fst e)"
  obtains buf where "encode_catalog_page es = Inr buf" "length buf = PAGE_SIZE" "decode_catalog_page buf = Inr es"
proof -
  let ?n = "to_le (of_nat (length es) :: u16)" and ?c = "concat (map catalog_record es)"
  let ?b = "overwrite 8 ?n (overwrite 0 CAT_MAGIC (replicate PAGE_SIZE 0))"
  have small: "length es < 2 ^ 16" using fits size_length [of es] by (simp add: PAGE_SIZE_def)
  have lb: "length ?b = PAGE_SIZE" by (simp add: length_overwrite CAT_MAGIC_def PAGE_SIZE_def)
  have enc: "encode_catalog_page es = Inr (overwrite 16 ?c ?b)"
    using encode_catalog_loop_ok [OF lb, of 16 es] fits small by (simp add: encode_catalog_page_def CAT_HEADER_SIZE_def Let_def)
  let ?buf = "overwrite 16 ?c ?b"
  have len: "length ?buf = PAGE_SIZE" using lb fits by (simp add: length_overwrite length_concat_records CAT_HEADER_SIZE_def)
  have head: "subslice 0 8 ?buf = CAT_MAGIC" "subslice 8 2 ?buf = ?n"
    by (simp_all add: subslice_overwrite_same subslice_overwrite_before subslice_overwrite_after CAT_MAGIC_def PAGE_SIZE_def length_overwrite)
  have split: "?buf = take 16 ?b @ ?c @ drop (16 + length ?c) ?b" by (simp add: overwrite_def)
  have "decode_catalog_loop (length es) ?buf 16 [] = Inr es"
    using decode_catalog_loop_ok [of "take 16 ?b" 16 es "drop (16 + length ?c) ?b" "[]"] wf len lb unfolding split
    by (simp add: PAGE_SIZE_def)
  then have "decode_catalog_page ?buf = Inr es"
    using small by (simp add: decode_catalog_page_def head CAT_HEADER_SIZE_def unat_word_of_nat_less)
  with enc len that show thesis by blast
qed

lemma encode_catalog_page_full:
  assumes "PAGE_SIZE < CAT_HEADER_SIZE + catalog_size es"
  shows "\<exists>m. encode_catalog_page es = Inl (WalProtocol m)"
proof -
  have "length (overwrite 8 (to_le (of_nat (length es) :: u16)) (overwrite 0 CAT_MAGIC (replicate PAGE_SIZE 0))) = PAGE_SIZE"
    by (simp add: length_overwrite CAT_MAGIC_def PAGE_SIZE_def)
  from encode_catalog_loop_ok [OF this, of 16 es] assms show ?thesis
    by (auto simp: encode_catalog_page_def CAT_HEADER_SIZE_def Let_def catalog_size_def PAGE_SIZE_def split: if_splits)
qed

section \<open>The catalog and its page\<close>

text \<open>The catalog in memory is what its page says.\<close>

definition catalog_ok :: "index_catalog \<Rightarrow> pager \<Rightarrow> bool" where
  "catalog_ok cat p \<longleftrightarrow> pager_inv p \<and> bt_wf (ic_entries cat) \<and> (\<forall>e \<in> set (ic_entries cat). utf8_valid (fst e)) \<and>
     index_catalog_root p = Some (ic_page cat) \<and>
     (\<exists>buf. pg_pages p (ic_page cat) = Some buf \<and> decode_catalog_page buf = Inr (ic_entries cat))"

definition catalog_fits :: "(rstring, index_def) btmap \<Rightarrow> bool" where
  "catalog_fits es \<longleftrightarrow> CAT_HEADER_SIZE + catalog_size es \<le> PAGE_SIZE"

lemma catalog_open:
  assumes "catalog_ok cat p"
  shows "open_or_create p = Inr (cat, p)" "open_existing p = Inr (Some cat)"
  using assms pgs.read_law by (auto simp: catalog_ok_def open_or_create_def open_existing_def)

lemma catalog_flush_ok:
  assumes "pager_inv p" "pg_pages p (ic_page cat) = Some b" "index_catalog_root p = Some (ic_page cat)"
    "bt_wf (ic_entries cat)" "\<forall>e \<in> set (ic_entries cat). utf8_valid (fst e)" "catalog_fits (ic_entries cat)"
  obtains p' buf where "catalog_flush cat p = Inr p'" "catalog_ok cat p'" "pg_pages p' = (pg_pages p)(ic_page cat \<mapsto> buf)"
proof -
  obtain buf where buf: "encode_catalog_page (ic_entries cat) = Inr buf" "length buf = PAGE_SIZE"
    "decode_catalog_page buf = Inr (ic_entries cat)"
    by (rule encode_catalog_page_ok [of "ic_entries cat"]) (use assms in \<open>auto simp: catalog_fits_def\<close>)
  from pgs.write_law [OF assms(1,2) buf(2)] obtain p' where
    p': "write_page (ic_page cat) buf p = Inr p'" "pager_inv p'" "pg_pages p' = (pg_pages p)(ic_page cat \<mapsto> buf)" by blast
  have "index_catalog_root p' = index_catalog_root p" using write_page_meta [OF p'(1)] by (simp add: index_catalog_root_def)
  then have "catalog_ok cat p'" using assms p' buf(3) by (simp add: catalog_ok_def)
  with p' buf(1) that show thesis by (simp add: catalog_flush_def)
qed

lemma allocate_index_id_root: "pager_inv p \<Longrightarrow> index_catalog_root (snd (allocate_index_id p)) = index_catalog_root p"
  using set_meta_ok(3) core_meta_ok pager_invD
  by (auto simp: allocate_index_id_def index_catalog_root_def Let_def meta_ok_def)

lemma btree_create_root: "pager_inv p \<Longrightarrow> btree_create p = Inr (i, p') \<Longrightarrow> index_catalog_root p' = index_catalog_root p"
  using allocate_page_meta write_page_meta
  by (fastforce simp: btree_create_def rbind_Inr_iff index_catalog_root_def split: prod.splits)

lemma bt_insert_valid: "\<forall>e \<in> set m. P (fst e) \<Longrightarrow> P k \<Longrightarrow> \<forall>e \<in> set (bt_insert k v m). P (fst e)"
  by (induction m) auto

lemma size_insert: "catalog_size (bt_insert k d m) \<le> catalog_size m + 14 + length k"
  by (induction m) (auto simp: catalog_size_def)

lemma catalog_new:
  assumes inv: "pager_inv p" and none: "index_catalog_root p = None" and free: "0 < free_pages p"
  obtains cat p' where "open_or_create p = Inr (cat, p')" "catalog_ok cat p'" "ic_entries cat = []"
    "free_pages p' = free_pages p - 1"
proof -
  obtain buf where buf: "encode_catalog_page [] = Inr buf" "length buf = PAGE_SIZE" "decode_catalog_page buf = Inr []"
    by (rule encode_catalog_page_ok [of "[]"]) (simp_all add: catalog_size_def CAT_HEADER_SIZE_def PAGE_SIZE_def)
  have "buf = init_empty_catalog_page" using buf(1) by (simp add: encode_catalog_page_def init_empty_catalog_page_def Let_def)
  then have b: "length init_empty_catalog_page = PAGE_SIZE" "decode_catalog_page init_empty_catalog_page = Inr []"
    using buf(2,3) by simp_all
  obtain i q r where r: "allocate_page p = Inr (i, q)" "write_page i init_empty_catalog_page q = Inr r" "pager_inv r"
    "pg_pages r = (pg_pages p)(i \<mapsto> init_empty_catalog_page)" "free_pages r = free_pages p - 1"
    by (rule alloc_write_free [OF inv free b(1)])
  let ?r = "set_index_catalog_root (Some i) r" and ?cat = "\<lparr>ic_page = i, ic_entries = []\<rparr>"
  have s: "pager_inv ?r" "pg_pages ?r = pg_pages r" using setters_inv(4) [OF r(3)] setters_pages(4) [OF r(3)] by simp_all
  have pi: "pg_pages r i = Some init_empty_catalog_page" using r(4) by simp
  have "i \<noteq> 0" using pi pgs.no_page_zero [of r] by auto
  then have root: "index_catalog_root ?r = Some i" using setters_meta(4) [OF r(3)] by (simp add: index_catalog_root_def opt_page_def)
  have "catalog_ok ?cat ?r" using s root pi b(2) by (simp add: catalog_ok_def)
  moreover have "open_or_create p = Inr (?cat, ?r)"
    using none r(1,2) pgs.read_law [OF s(1)] s(2) pi b(2) by (simp add: open_or_create_def)
  moreover have "free_pages ?r = free_pages p - 1" using s(2) r(5) by (simp add: free_pages_def)
  ultimately show thesis using that by simp
qed

text \<open>
  Creating an index adds exactly its entry to the catalog, with an empty B-tree on a page that
  was free, and is durable: opening the catalog from the pages gives the catalog in memory. No
  other page changes. Asking for an index that exists changes nothing.
\<close>

lemma get_or_create_ok:
  assumes "catalog_ok cat p" and "utf8_valid name" and "0 < free_pages p"
    and "CAT_HEADER_SIZE + catalog_size (ic_entries cat) + 14 + length name \<le> PAGE_SIZE"
  shows "\<exists>d cat' p'. get_or_create name cat p = Inr (d, cat', p') \<and> catalog_ok cat' p' \<and>
    open_or_create p' = Inr (cat', p') \<and> (\<forall>x. catalog_get cat' x = (if x = name then Some d else catalog_get cat x)) \<and>
    (case catalog_get cat name of
       Some d' \<Rightarrow> d = d' \<and> cat' = cat \<and> p' = p
     | None \<Rightarrow> btree s a b 0 {ix_root d} p' (ix_root d) [(ix_root d, [])] \<and> pg_pages p (ix_root d) = None \<and>
         pg_pages p' (ix_root d) = Some init_leaf \<and>
         (\<forall>i. i \<noteq> ic_page cat \<longrightarrow> i \<noteq> ix_root d \<longrightarrow> pg_pages p' i = pg_pages p i))"
proof (cases "catalog_get cat name")
  case (Some d)
  then show ?thesis using catalog_open [OF assms(1)] assms(1) by (simp add: get_or_create_def catalog_get_def)
next
  case None
  from assms(1) obtain pb where c: "pager_inv p" "bt_wf (ic_entries cat)" "\<forall>e \<in> set (ic_entries cat). utf8_valid (fst e)"
    "index_catalog_root p = Some (ic_page cat)" "pg_pages p (ic_page cat) = Some pb" by (auto simp: catalog_ok_def)
  obtain i q where q: "allocate_index_id p = (i, q)" by fastforce
  have qi: "pager_inv q" "pg_pages q = pg_pages p" "index_catalog_root q = index_catalog_root p"
    using setters_inv(5) [OF c(1)] setters_pages(5) [OF c(1)] allocate_index_id_root [OF c(1)] q by simp_all
  have "0 < free_pages q" using assms(3) by (simp add: free_pages_def qi(2))
  then obtain root r where r: "btree_create q = Inr (root, r)" "pager_inv r" "btree s a b 0 {root} r root [(root, [])]"
    "pg_pages q root = None" "pg_pages r = (pg_pages q)(root \<mapsto> init_leaf)"
    by (rule btree_create_ok [OF qi(1), of s a b])
  define cat' where "cat' = cat\<lparr>ic_entries := bt_insert name \<lparr>ix_id = i, ix_root = root\<rparr> (ic_entries cat)\<rparr>"
  have ne: "ic_page cat \<noteq> root" using r(4) qi(2) c(5) by auto
  obtain p' buf where p': "catalog_flush cat' r = Inr p'" "catalog_ok cat' p'" "pg_pages p' = (pg_pages r)(ic_page cat' \<mapsto> buf)"
  proof (rule catalog_flush_ok [of r cat' pb])
    show "pg_pages r (ic_page cat') = Some pb" using ne c(5) by (simp add: cat'_def r(5) qi(2))
    show "index_catalog_root r = Some (ic_page cat')" using btree_create_root [OF qi(1) r(1)] qi(3) c(4) by (simp add: cat'_def)
    show "\<forall>e \<in> set (ic_entries cat'). utf8_valid (fst e)" using bt_insert_valid [OF c(3) assms(2)] by (simp add: cat'_def)
    show "catalog_fits (ic_entries cat')"
      using assms(4) size_insert [of name "\<lparr>ix_id = i, ix_root = root\<rparr>" "ic_entries cat"] by (simp add: cat'_def catalog_fits_def)
  qed (use r(2) c(2) in \<open>simp_all add: cat'_def\<close>)
  have goc: "get_or_create name cat p = Inr (\<lparr>ix_id = i, ix_root = root\<rparr>, cat', p')"
    using None q r(1) p'(1) by (simp add: get_or_create_def catalog_get_def Let_def cat'_def)
  have "btree s a b 0 {root} p' root [(root, [])]"
    by (rule btree_cong [OF r(3)]) (use ne in \<open>simp add: p'(3) cat'_def\<close>)
  then show ?thesis
    using goc p' None catalog_open(1) [OF p'(2)] r(4,5) c(2) qi(2) ne
    by (auto simp: catalog_get_def bt_get_insert cat'_def)
qed

lemma new_catalog:
  obtains p cat q where "pager_open None = Inr p" "open_or_create p = Inr (cat, q)" "catalog_ok cat q"
    "ic_entries cat = []" "free_pages q = 65533"
proof -
  obtain p where p: "pager_open None = Inr p" "pager_inv p" "pg_pages p = (\<lambda>_. None)" "pg_meta p = meta_new" by (rule pager_create)
  have "index_catalog_root p = None" by (simp add: index_catalog_root_def p(4) meta_new_def)
  then obtain cat q where "open_or_create p = Inr (cat, q)" "catalog_ok cat q" "ic_entries cat = []" "free_pages q = free_pages p - 1"
    by (rule catalog_new [OF p(2)]) (use free_pages_new [OF p(3)] in simp)
  then show thesis using that p(1) free_pages_new [OF p(3)] by simp
qed

end
