(* ===== verification/IndexLookup.thy ===== *)
theory IndexLookup
  imports OrderedKey Catalog
begin

text \<open>
  Looking values up in a property index: \<open>lookup_index\<close> of nervusdb-storage/src/api.rs, with the
  keys that \<open>commit\<close> in engine.rs writes. The key is the number of the index and the ordered bytes
  of the value; the node is the payload.
\<close>

section \<open>Definitions\<close>

definition index_name :: "rstring \<Rightarrow> rstring \<Rightarrow> rstring" where
  "index_name label field = label @ [46] @ field"

definition index_key :: "u32 \<Rightarrow> property_value \<Rightarrow> bytes" where
  "index_key i v = to_be i @ encode_ordered_value v"

text \<open>
  An error of \<open>payload\<close> leaves the cursor where it is, so the loop of the source goes on for ever.
\<close>

partial_function (option) lookup_loop :: "pager \<Rightarrow> bytes \<Rightarrow> cursor \<Rightarrow> u32 list \<Rightarrow> u32 list option result option" where
  "lookup_loop p prefix cursor results =
    (if \<not> cursor_is_valid cursor then Some (Inr (Some results))
     else case try_ok (cursor_key cursor) (\<lambda>key. Inr (Some (take (length prefix) key = prefix))) of
       Inl e \<Rightarrow> Some (Inl e)
     | Inr None \<Rightarrow> Some (Inr None)
     | Inr (Some starts) \<Rightarrow>
         if \<not> starts then Some (Inr (Some results))
         else case cursor_payload cursor of
           Inl e \<Rightarrow> if is_panic (Inl e :: unit result) then Some (Inl e) else lookup_loop p prefix cursor results
         | Inr payload \<Rightarrow>
             (case try_ok (cursor_advance p cursor) (\<lambda>r. Inr (Some r)) of
                Inl e \<Rightarrow> Some (Inl e)
              | Inr None \<Rightarrow> Some (Inr None)
              | Inr (Some (go, cursor)) \<Rightarrow>
                  if go then lookup_loop p prefix cursor (results @ [ucast payload])
                  else Some (Inr (Some (results @ [ucast payload])))))"

definition lookup_index :: "pager \<Rightarrow> index_catalog \<Rightarrow> rstring \<Rightarrow> rstring \<Rightarrow> property_value \<Rightarrow> u32 list option result option" where
  "lookup_index p cat label field value =
    (case catalog_get cat (index_name label field) of
       None \<Rightarrow> Some (Inr None)
     | Some def \<Rightarrow>
         let prefix = index_key (ix_id def) value
         in case cursor_lower_bound p (ix_root def) prefix of
              None \<Rightarrow> None
            | Some r \<Rightarrow>
                (case try_ok r (\<lambda>c. Inr (Some c)) of
                   Inl e \<Rightarrow> Some (Inl e)
                 | Inr None \<Rightarrow> Some (Inr None)
                 | Inr (Some cursor) \<Rightarrow>
                     map_option (\<lambda>r. rbind r (\<lambda>results.
                       Inr (case results of None \<Rightarrow> None | Some [] \<Rightarrow> None | Some ns \<Rightarrow> Some ns)))
                       (lookup_loop p prefix cursor [])))"

section \<open>The loop\<close>

lemma lookup_loop_ok:
  assumes inv: "pager_inv p"
  shows "sees p c E \<Longrightarrow> lookup_loop p prefix c out = Some (Inr (Some (out @
    map (\<lambda>e. ucast (snd e)) (takeWhile (\<lambda>e. take (length prefix) (fst e) = prefix) E))))"
proof (induction E arbitrary: c out)
  case Nil
  then show ?case by (subst lookup_loop.simps) (simp add: sees_Nil)
next
  case (Cons e E)
  obtain k v where e: "e = (k, v)" by fastforce
  note see = sees_Cons [OF inv Cons.prems [unfolded e]]
  obtain c' where c': "cursor_advance p c = Inr (E \<noteq> [], c')" "E \<noteq> [] \<longrightarrow> sees p c' E" using see(4) by blast
  show ?case
    using Cons.IH [of c'] c' by (subst lookup_loop.simps) (cases "E = []", simp_all add: see(1-3) e)
qed

text \<open>The keys of an index.\<close>

definition index_keys :: "u32 \<Rightarrow> (bytes \<times> u64) list \<Rightarrow> bool" where
  "index_keys i es \<longleftrightarrow> (\<forall>e \<in> set es. \<exists>v. is_scalar v \<and> fst e = index_key i v)"

lemma index_key_prefix:
  assumes "is_scalar v" "is_scalar w"
  shows "take (length (index_key i v)) (index_key i w) = index_key i v \<longleftrightarrow> v = w"
proof
  assume "take (length (index_key i v)) (index_key i w) = index_key i v"
  then have "encode_ordered_value w = encode_ordered_value v @ drop (length (encode_ordered_value v)) (encode_ordered_value w)"
    by (simp add: index_key_def) (metis append_take_drop_id)
  then have "encode_ordered_value w @ [] = encode_ordered_value v @ drop (length (encode_ordered_value v)) (encode_ordered_value w)" by simp
  then show "v = w" by (rule encode_ordered_value_prefix_free [OF assms])
qed simp

lemma filter_dropWhile: "(\<And>x. Q x \<Longrightarrow> \<not> P x) \<Longrightarrow> filter Q (dropWhile P xs) = filter Q xs"
  by (induction xs) auto

lemma filter_unique:
  assumes "distinct (map fst es)"
  shows "filter (\<lambda>e. fst e = k) es = (case map_of es k of None \<Rightarrow> [] | Some v \<Rightarrow> [(k, v)])"
  using assms
proof (induction es)
  case (Cons e es)
  obtain x v where e: "e = (x, v)" by fastforce
  show ?case
  proof (cases "x = k")
    case True
    with Cons.prems have "k \<notin> fst ` set es" by (simp add: e)
    then have "filter (\<lambda>e. fst e = k) es = []" by (auto simp: filter_empty_conv)
    with True show ?thesis by (simp add: e)
  next
    case False
    with Cons show ?thesis by (simp add: e)
  qed
qed simp

text \<open>
  C20. A lookup in a property index whose values are distinct terminates and returns exactly the
  node that has the value, and nothing when no node has it: neither another value whose bytes
  begin the same nor another node is returned.
\<close>

theorem lookup_index_exact:
  assumes "pager_inv p" and "catalog_get cat (index_name label field) = Some def"
    and "btree True a b n I p (ix_root def) ls" and "\<forall>l \<in> set ls. snd l \<noteq> []"
    and "distinct (map fst (flat ls))" and "index_keys (ix_id def) (flat ls)" and "is_scalar value"
  shows "lookup_index p cat label field value =
    Some (Inr (case map_of (flat ls) (index_key (ix_id def) value) of None \<Rightarrow> None | Some node \<Rightarrow> Some [ucast node]))"
proof -
  let ?P = "index_key (ix_id def) value" and ?D = "dropWhile (\<lambda>e. fst e < index_key (ix_id def) value) (flat ls)"
  let ?has = "\<lambda>e::bytes \<times> u64. take (length ?P) (fst e) = ?P"
  obtain c where c: "cursor_lower_bound p (ix_root def) ?P = Some (Inr c)" "sees p c ?D" by (rule seek_sees [OF assms(1,3,4)])
  note so = dropWhile_sorted [OF btree_sorted [OF assms(3)], of ?P]
  have "\<forall>e \<in> set ?D. ?P \<le> fst e" using so(1) by auto
  then have "takeWhile ?has ?D = filter ?has ?D" using sorted_prefix_block [OF so(2)] by blast
  also have "\<dots> = filter (\<lambda>e. fst e = ?P) ?D"
  proof (rule filter_cong [OF refl])
    fix e assume "e \<in> set ?D"
    then obtain v where "is_scalar v" "fst e = index_key (ix_id def) v" using assms(6) so(1) by (auto simp: index_keys_def)
    then show "?has e \<longleftrightarrow> fst e = ?P" using index_key_prefix [OF assms(7), of v "ix_id def"] by auto
  qed
  also have "\<dots> = filter (\<lambda>e. fst e = ?P) (flat ls)" by (rule filter_dropWhile) simp
  finally have "lookup_loop p ?P c [] = Some (Inr (Some (map (\<lambda>e. ucast (snd e)) (case map_of (flat ls) ?P of None \<Rightarrow> [] | Some v \<Rightarrow> [(?P, v)]))))"
    using lookup_loop_ok [OF assms(1) c(2), of ?P "[]"] by (simp add: filter_unique [OF assms(5)])
  then show ?thesis using c(1) assms(2) by (simp add: lookup_index_def Let_def split: option.split)
qed

theorem lookup_index_exact_witness:
  "\<exists>p cat q d cat' r s. pager_open None = Inr p \<and> open_or_create p = Inr (cat, q) \<and>
     get_or_create (index_name [97] [98]) cat q = Inr (d, cat', r) \<and>
     btree_insert (index_key (ix_id d) (PBool True)) 5 (ix_root d) r = Some (Inr (ix_root d, s)) \<and>
     lookup_index s cat' [97] [98] (PBool True) = Some (Inr (Some [5])) \<and>
     lookup_index s cat' [97] [98] (PBool False) = Some (Inr None)"
proof (rule new_catalog)
  fix p cat q
  assume c: "pager_open None = Inr p" "open_or_create p = Inr (cat, q)" "catalog_ok cat q" "ic_entries cat = []" "free_pages q = 65533"
  have "utf8_valid (index_name [97] [98])" by (simp add: index_name_def utf8_len_def byte_in_def utf8_tail_def)
  from get_or_create_ok [OF c(3) this, of True 17 17] c(4,5) obtain d cat' r where g:
    "get_or_create (index_name [97] [98]) cat q = Inr (d, cat', r)" "catalog_ok cat' r" "catalog_get cat' (index_name [97] [98]) = Some d"
    "pg_pages r (ix_root d) = Some init_leaf"
    by (auto simp: catalog_size_def CAT_HEADER_SIZE_def PAGE_SIZE_def catalog_get_def index_name_def)
  have "varint_u32_len 6 = 1" by (subst varint_u32_len.simps) (simp add: word_le_nat_alt)
  then have sz: "window 17 17" "sized 17 17 (index_key (ix_id d) (PBool True))"
    by (simp_all add: sized_def cell_size_def window_def index_key_def)
  have inv: "pager_inv r" using g(2) by (simp add: catalog_ok_def)
  obtain s where s: "btree_insert (index_key (ix_id d) (PBool True)) 5 (ix_root d) r = Some (Inr (ix_root d, s))" "pager_inv s"
    "btree True 17 17 0 {ix_root d} s (ix_root d) [(ix_root d, [(index_key (ix_id d) (PBool True), 5)])]"
    by (rule empty_tree_insert [OF inv g(4) sz])
  have k: "index_keys (ix_id d) (flat [(ix_root d, [(index_key (ix_id d) (PBool True), 5)])])"
    by (auto simp: index_keys_def is_scalar_def intro!: exI [of _ "PBool True"])
  have "index_key (ix_id d) (PBool False) \<noteq> index_key (ix_id d) (PBool True)" by (simp add: index_key_def)
  with lookup_index_exact [OF s(2) g(3) s(3) _ _ k, of "PBool True"] lookup_index_exact [OF s(2) g(3) s(3) _ _ k, of "PBool False"]
  have "lookup_index s cat' [97] [98] (PBool True) = Some (Inr (Some [5]))" "lookup_index s cat' [97] [98] (PBool False) = Some (Inr None)"
    by (simp_all add: is_scalar_def)
  with c(1,2) g(1) s(1) show ?thesis by blast
qed

end
