(* ===== verification/Engine.thy ===== *)
theory Engine
  imports Recovery MetaRoots Stats IndexLookup
begin

text \<open>
  The engine of nervusdb-storage/src/engine.rs around its components: the state of
  \<open>GraphEngine\<close>, what \<open>open\<close> makes of the log, labels, indexes, read snapshots, write
  transactions up to what they log, \<open>compact\<close> and \<open>checkpoint_on_close\<close>.

  The vector index is not part of the state. The locks are not either: every operation below is
  one a caller runs alone, under the write lock or the lock of the component it changes.
\<close>

section \<open>Definitions\<close>

record graph_engine =
  ge_pager :: pager
  ge_wal :: wal
  ge_idmap :: id_map
  ge_label_interner :: label_interner
  ge_index_catalog :: index_catalog
  ge_published_runs :: "l0_run list"
  ge_published_segments :: "csr_segment list"
  ge_published_labels :: label_snapshot
  ge_published_node_labels :: "u32 list list"
  ge_next_txid :: u64
  ge_next_segment_id :: u64
  ge_manifest_epoch :: u64
  ge_checkpoint_txid :: u64
  ge_properties_root :: u64
  ge_stats_root :: u64

definition saturating_succ :: "u64 \<Rightarrow> u64" where
  "saturating_succ x = (if x = - 1 then x else x + 1)"

definition saturating_pred :: "u64 \<Rightarrow> u64" where
  "saturating_pred x = (if x = 0 then x else x - 1)"

fun load_segments :: "segment_pointer list \<Rightarrow> pager \<Rightarrow> csr_segment list result" where
  "load_segments [] p = Inr []"
| "load_segments (ptr # ptrs) p =
     rbind (csr_load p (sp_meta_page_id ptr)) (\<lambda>seg.
     if cs_id seg \<noteq> sp_id ptr then Inl (WalProtocol ''csr segment id mismatch'')
     else rbind (load_segments ptrs p) (\<lambda>segs. Inr (seg # segs)))"

text \<open>\<open>open\<close> from the replay of the log on, with the id map and the catalog loaded before.\<close>

definition open_recovered :: "(bytes \<Rightarrow> u32) \<Rightarrow> wal \<Rightarrow> id_map \<Rightarrow> index_catalog \<Rightarrow> pager \<Rightarrow> graph_engine result option" where
  "open_recovered crc w idmap catalog p =
    (case rbind (replay_committed crc (wl_data w)) (\<lambda>committed.
            rbind (load_segments (rs_manifest_segments (scan_recovery_state committed)) p) (\<lambda>segments.
            Inr (committed, segments))) of
       Inl e \<Rightarrow> Some (Inl e)
     | Inr (committed, segments) \<Rightarrow>
         let state = scan_recovery_state committed;
             max_seg_id = fold max (map cs_id segments) 0
         in case replay_label_transactions committed li_new of
              None \<Rightarrow> None
            | Some interner \<Rightarrow> Some (rbind interner (\<lambda>interner.
                rbind (replay_graph_transactions committed (rs_checkpoint_txid state) idmap p []) (\<lambda>(idmap, p, runs).
                Inr \<lparr>ge_pager = p, ge_wal = w, ge_idmap = idmap, ge_label_interner = interner, ge_index_catalog = catalog,
                  ge_published_runs = rev runs, ge_published_segments = segments,
                  ge_published_labels = li_snapshot interner, ge_published_node_labels = im_i2l idmap,
                  ge_next_txid = max (saturating_succ (rs_max_txid state)) 1,
                  ge_next_segment_id = max (saturating_succ max_seg_id) 1,
                  ge_manifest_epoch = rs_manifest_epoch state, ge_checkpoint_txid = rs_checkpoint_txid state,
                  ge_properties_root = rs_properties_root state, ge_stats_root = rs_stats_root state\<rparr>))))"

definition create_index :: "rstring \<Rightarrow> rstring \<Rightarrow> graph_engine \<Rightarrow> graph_engine result" where
  "create_index label field e =
    (let name = index_name label field
     in if catalog_get (ge_index_catalog e) name \<noteq> None then Inr e
        else rbind (get_or_create name (ge_index_catalog e) (ge_pager e)) (\<lambda>(_, catalog, p).
             rbind (catalog_flush catalog p) (\<lambda>p.
             Inr (e\<lparr>ge_index_catalog := catalog, ge_pager := p\<rparr>))))"

definition begin_read :: "graph_engine \<Rightarrow> snapshot" where
  "begin_read e = \<lparr>sn_runs = ge_published_runs e, sn_segments = ge_published_segments e, sn_labels = ge_published_labels e,
     sn_node_labels = ge_published_node_labels e, sn_properties_root = ge_properties_root e, sn_stats_root = ge_stats_root e\<rparr>"

definition lookup_internal_id :: "graph_engine \<Rightarrow> u64 \<Rightarrow> u32 option" where
  "lookup_internal_id e external_id = idmap_lookup (ge_idmap e) external_id"

definition append_to_wal :: "(bytes \<Rightarrow> u32) \<Rightarrow> wal_record \<Rightarrow> graph_engine \<Rightarrow> graph_engine result" where
  "append_to_wal crc r e = rbind (wal_append crc r (ge_wal e)) (\<lambda>(_, w). Inr (e\<lparr>ge_wal := w\<rparr>))"

fun append_records :: "(bytes \<Rightarrow> u32) \<Rightarrow> wal_record list \<Rightarrow> graph_engine \<Rightarrow> unit result \<times> graph_engine" where
  "append_records crc [] e = (wal_fsync (ge_wal e), e)"
| "append_records crc (r # rs) e =
     (case append_to_wal crc r e of Inl err \<Rightarrow> (Inl err, e) | Inr e \<Rightarrow> append_records crc rs e)"

text \<open>The label is in the interner from the second step on, whether or not its record is logged.\<close>

definition get_or_create_label :: "(bytes \<Rightarrow> u32) \<Rightarrow> rstring \<Rightarrow> graph_engine \<Rightarrow> u32 result \<times> graph_engine" where
  "get_or_create_label crc name e =
    (case li_get_id (ge_label_interner e) name of
       Some i \<Rightarrow> (Inr i, e)
     | None \<Rightarrow>
         let (returned_id, interner) = li_get_or_create name (ge_label_interner e);
             txid = ge_next_txid e;
             e = e\<lparr>ge_label_interner := interner, ge_next_txid := txid + 1\<rparr>
         in case append_records crc [BeginTx txid, CreateLabel name returned_id, CommitTx txid] e of
              (Inl err, e) \<Rightarrow> (Inl err, e)
            | (Inr _, e) \<Rightarrow> (Inr returned_id, e\<lparr>ge_published_labels := li_snapshot (ge_label_interner e)\<rparr>))"

definition update_published_node_labels :: "graph_engine \<Rightarrow> graph_engine" where
  "update_published_node_labels e = e\<lparr>ge_published_node_labels := im_i2l (ge_idmap e)\<rparr>"

definition publish_run :: "l0_run \<Rightarrow> graph_engine \<Rightarrow> graph_engine" where
  "publish_run run e = e\<lparr>ge_published_runs := run # ge_published_runs e\<rparr>"

definition segment_pointers :: "csr_segment list \<Rightarrow> segment_pointer list" where
  "segment_pointers segs = map (\<lambda>s. \<lparr>sp_id = cs_id s, sp_meta_page_id = cs_meta_page_id s\<rparr>) segs"

text \<open>
  Compaction. The segment is written and then the properties and the statistics; the manifest
  and the checkpoint are one transaction of the log; the new state is published last.
\<close>

definition compact :: "(bytes \<Rightarrow> u32) \<Rightarrow> graph_engine \<Rightarrow> graph_engine result option" where
  "compact crc e =
    (let runs = ge_published_runs e
     in if runs = [] then Some (Inr e)
     else let has_properties = list_ex run_has_properties runs;
              seg_id = ge_next_segment_id e;
              e = e\<lparr>ge_next_segment_id := seg_id + 1\<rparr>
     in case rbind (build_segment_from_runs seg_id runs) (\<lambda>seg. persist seg (ge_pager e)) of
       Inl err \<Rightarrow> Some (Inl err)
     | Inr (seg, p) \<Rightarrow>
         let up_to_txid = fold max (map run_txid runs) 0;
             epoch = ge_manifest_epoch e + 1;
             new_segments = seg # ge_published_segments e
         in case sink_properties runs (ge_properties_root e) p of
           None \<Rightarrow> None
         | Some (Inl err) \<Rightarrow> Some (Inl err)
         | Some (Inr (current_root, p)) \<Rightarrow> Some (
             rbind (blob_write (stats_encode (collect_statistics (im_i2l (ge_idmap e)) new_segments)) p) (\<lambda>(stats_root, p).
             let system_txid = ge_next_txid e;
                 e = e\<lparr>ge_pager := p, ge_next_txid := system_txid + 1\<rparr>
             in case append_records crc [BeginTx system_txid,
                    ManifestSwitch epoch (segment_pointers new_segments) current_root stats_root,
                    Checkpoint up_to_txid epoch current_root stats_root, CommitTx system_txid] e of
                  (Inl err, e) \<Rightarrow> Inl err
                | (Inr _, e) \<Rightarrow>
                    let e = e\<lparr>ge_checkpoint_txid := up_to_txid, ge_properties_root := current_root, ge_stats_root := stats_root,
                              ge_published_runs := [], ge_published_segments := new_segments, ge_manifest_epoch := epoch\<rparr>
                    in Inr (if \<not> has_properties then e\<lparr>ge_checkpoint_txid := up_to_txid\<rparr> else e))))"

definition label_records :: "label_snapshot \<Rightarrow> wal_record list" where
  "label_records labels =
     List.map_filter (\<lambda>i. case ls_get_name labels i of None \<Rightarrow> None | Some name \<Rightarrow> Some (CreateLabel name i)) (ls_iter_ids labels)"

text \<open>\<open>tmp_exists\<close> as in \<open>rewrite_as_snapshot\<close>.\<close>

definition checkpoint_on_close :: "(bytes \<Rightarrow> u32) \<Rightarrow> bool \<Rightarrow> graph_engine \<Rightarrow> unit result \<times> graph_engine" where
  "checkpoint_on_close crc tmp_exists e =
    (if ge_published_runs e \<noteq> [] then (wal_fsync (ge_wal e), e)
     else
       let labels = li_snapshot (ge_label_interner e);
           pointers = segment_pointers (ge_published_segments e);
           up_to_txid = saturating_pred (ge_next_txid e);
           epoch = ge_manifest_epoch e;
           system_txid = ge_next_txid e;
           e = e\<lparr>ge_next_txid := system_txid + 1\<rparr>;
           ops = label_records labels @
             [ManifestSwitch epoch pointers (ge_properties_root e) (ge_stats_root e),
              Checkpoint up_to_txid epoch (ge_properties_root e) (ge_stats_root e)]
       in case rewrite_as_snapshot crc tmp_exists system_txid ops (ge_wal e) of
            (Inl err, w) \<Rightarrow> (Inl err, e\<lparr>ge_wal := w\<rparr>)
          | (Inr _, w) \<Rightarrow> (wal_fsync w, e\<lparr>ge_wal := w\<rparr>))"

subsection \<open>Write transactions\<close>

record write_txn =
  wt_txid :: u64
  wt_created_nodes :: "(u64 \<times> u32 \<times> u32) list"
  wt_pending_label_additions :: "(u32 \<times> u32) list"
  wt_pending_label_removals :: "(u32 \<times> u32) list"
  wt_created_external_ids :: "u64 set"
  wt_memtable :: memtable

definition begin_write :: "graph_engine \<Rightarrow> write_txn \<times> graph_engine" where
  "begin_write e =
    (\<lparr>wt_txid = ge_next_txid e, wt_created_nodes = [], wt_pending_label_additions = [], wt_pending_label_removals = [],
      wt_created_external_ids = {}, wt_memtable = mt_default\<rparr>, e\<lparr>ge_next_txid := ge_next_txid e + 1\<rparr>)"

definition create_node :: "graph_engine \<Rightarrow> u64 \<Rightarrow> u32 \<Rightarrow> write_txn \<Rightarrow> (u32 \<times> write_txn) result" where
  "create_node e external_id label_id t =
    (if lookup_internal_id e external_id \<noteq> None then Inl (WalProtocol ''external id already exists'')
     else if external_id \<in> wt_created_external_ids t then Inl (WalProtocol ''duplicate external id in same tx'')
     else let internal_id = idmap_next_internal_id (ge_idmap e) + of_nat (length (wt_created_nodes t))
          in Inr (internal_id, t\<lparr>wt_created_external_ids := insert external_id (wt_created_external_ids t),
               wt_created_nodes := wt_created_nodes t @ [(external_id, label_id, internal_id)]\<rparr>))"

definition add_node_label :: "u32 \<Rightarrow> u32 \<Rightarrow> write_txn \<Rightarrow> write_txn" where
  "add_node_label node label_id t = t\<lparr>wt_pending_label_additions := wt_pending_label_additions t @ [(node, label_id)]\<rparr>"

definition remove_node_label :: "u32 \<Rightarrow> u32 \<Rightarrow> write_txn \<Rightarrow> write_txn" where
  "remove_node_label node label_id t = t\<lparr>wt_pending_label_removals := wt_pending_label_removals t @ [(node, label_id)]\<rparr>"

definition txn_create_edge :: "u32 \<Rightarrow> u32 \<Rightarrow> u32 \<Rightarrow> write_txn \<Rightarrow> write_txn" where
  "txn_create_edge src rel dst t = t\<lparr>wt_memtable := mt_create_edge src rel dst (wt_memtable t)\<rparr>"

definition txn_tombstone_node :: "u32 \<Rightarrow> write_txn \<Rightarrow> write_txn" where
  "txn_tombstone_node node t = t\<lparr>wt_memtable := mt_tombstone_node node (wt_memtable t)\<rparr>"

definition txn_tombstone_edge :: "u32 \<Rightarrow> u32 \<Rightarrow> u32 \<Rightarrow> write_txn \<Rightarrow> write_txn" where
  "txn_tombstone_edge src rel dst t = t\<lparr>wt_memtable := mt_tombstone_edge src rel dst (wt_memtable t)\<rparr>"

definition txn_set_node_property :: "u32 \<Rightarrow> rstring \<Rightarrow> property_value \<Rightarrow> write_txn \<Rightarrow> write_txn" where
  "txn_set_node_property node key v t = t\<lparr>wt_memtable := mt_set_node_property node key v (wt_memtable t)\<rparr>"

definition txn_set_edge_property :: "u32 \<Rightarrow> u32 \<Rightarrow> u32 \<Rightarrow> rstring \<Rightarrow> property_value \<Rightarrow> write_txn \<Rightarrow> write_txn" where
  "txn_set_edge_property src rel dst key v t = t\<lparr>wt_memtable := mt_set_edge_property src rel dst key v (wt_memtable t)\<rparr>"

definition txn_remove_node_property :: "u32 \<Rightarrow> rstring \<Rightarrow> write_txn \<Rightarrow> write_txn" where
  "txn_remove_node_property node key t = t\<lparr>wt_memtable := mt_remove_node_property node key (wt_memtable t)\<rparr>"

definition txn_remove_edge_property :: "u32 \<Rightarrow> u32 \<Rightarrow> u32 \<Rightarrow> rstring \<Rightarrow> write_txn \<Rightarrow> write_txn" where
  "txn_remove_edge_property src rel dst key t = t\<lparr>wt_memtable := mt_remove_edge_property src rel dst key (wt_memtable t)\<rparr>"

definition staged_labels :: "write_txn \<Rightarrow> (u32, u32 list) btmap" where
  "staged_labels t =
    (let entry = (\<lambda>node m. case bt_get m node of None \<Rightarrow> [] | Some ls \<Rightarrow> ls);
         m = fold (\<lambda>(_, label_id, node) m.
               bt_insert node (if label_id \<noteq> - 1 then bs_insert label_id (entry node m) else entry node m) m) (wt_created_nodes t) [];
         m = fold (\<lambda>(node, label_id) m. bt_insert node (bs_insert label_id (entry node m)) m) (wt_pending_label_additions t) m
     in fold (\<lambda>(node, label_id) m.
          case bt_get m node of None \<Rightarrow> m | Some ls \<Rightarrow> bt_insert node (filter (\<lambda>l. l \<noteq> label_id) ls) m) (wt_pending_label_removals t) m)"

definition staged_created_nodes_with_labels :: "graph_engine \<Rightarrow> write_txn \<Rightarrow> (u32 \<times> rstring list) list" where
  "staged_created_nodes_with_labels e t =
     map (\<lambda>(_, _, node). (node, List.map_filter (li_get_name (ge_label_interner e))
       (case bt_get (staged_labels t) node of None \<Rightarrow> [] | Some ls \<Rightarrow> ls))) (wt_created_nodes t)"

text \<open>The records \<open>commit\<close> appends between \<open>BeginTx\<close> and \<open>CommitTx\<close>, in its order.\<close>

definition commit_records :: "write_txn \<Rightarrow> wal_record list" where
  "commit_records t =
     map (\<lambda>(external_id, label_id, internal_id). CreateNode external_id label_id internal_id) (wt_created_nodes t) @
     map (\<lambda>(node, label_id). AddNodeLabel node label_id) (wt_pending_label_additions t) @
     map (\<lambda>(node, label_id). RemoveNodeLabel node label_id) (wt_pending_label_removals t) @
     graph_records (wt_memtable t) (freeze_into_run (wt_txid t) (wt_memtable t))"

text \<open>The step of \<open>commit\<close> behind the log: the id map, then the published state.\<close>

fun apply_created :: "(u64 \<times> u32 \<times> u32) list \<Rightarrow> id_map \<times> pager \<Rightarrow> (id_map \<times> pager) result" where
  "apply_created [] s = Inr s"
| "apply_created ((external_id, label_id, internal_id) # rest) (im, p) =
     rbind (apply_create_node external_id label_id internal_id im p) (apply_created rest)"

fun apply_labels :: "(u32 \<Rightarrow> u32 \<Rightarrow> id_map \<Rightarrow> id_map result) \<Rightarrow> (u32 \<times> u32) list \<Rightarrow> id_map \<Rightarrow> id_map result" where
  "apply_labels f [] im = Inr im"
| "apply_labels f ((node, label_id) # rest) im = rbind (f node label_id im) (apply_labels f rest)"

definition commit_publish :: "write_txn \<Rightarrow> graph_engine \<Rightarrow> graph_engine result" where
  "commit_publish t e =
     rbind (apply_created (wt_created_nodes t) (ge_idmap e, ge_pager e)) (\<lambda>(im, p).
     rbind (apply_labels apply_add_label (wt_pending_label_additions t) im) (\<lambda>im.
     rbind (apply_labels apply_remove_label (wt_pending_label_removals t) im) (\<lambda>im.
     let run = freeze_into_run (wt_txid t) (wt_memtable t);
         e = e\<lparr>ge_idmap := im, ge_pager := p\<rparr>;
         e = (if wt_created_nodes t \<noteq> [] \<or> wt_pending_label_additions t \<noteq> [] \<or> wt_pending_label_removals t \<noteq> []
              then update_published_node_labels e else e);
         e = (if run_is_empty run then e else publish_run run e)
     in Inr (e\<lparr>ge_next_txid := ge_next_txid e + 1\<rparr>))))"

section \<open>The log\<close>

definition logs :: "(bytes \<Rightarrow> u32) \<Rightarrow> committed_tx list \<Rightarrow> wal \<Rightarrow> bool" where
  "logs crc txs w \<longleftrightarrow> wl_open w \<and> wl_data w = log_of crc txs \<and> (\<forall>t \<in> set txs. tx_ok t)"

lemma append_records_frames:
  assumes "wl_open (ge_wal e)" "\<forall>r \<in> set rs. loggable r"
  shows "append_records crc rs e =
    (Inr (), e\<lparr>ge_wal := (ge_wal e)\<lparr>wl_data := wl_data (ge_wal e) @ concat (map (frame_of crc) rs)\<rparr>\<rparr>)"
  using assms
proof (induction rs arbitrary: e)
  case (Cons r rs)
  let ?e = "e\<lparr>ge_wal := (ge_wal e)\<lparr>wl_data := wl_data (ge_wal e) @ frame_of crc r\<rparr>\<rparr>"
  have "append_to_wal crc r e = Inr ?e"
    using Cons.prems by (simp add: append_to_wal_def wal_append_def loggable_append)
  then show ?case using Cons.IH [of ?e] Cons.prems by simp
qed (simp add: wal_fsync_def)

lemma append_tx:
  assumes "logs crc txs (ge_wal e)" "\<forall>r \<in> set ops. loggable r \<and> \<not> is_marker r"
  obtains w where "append_records crc (BeginTx txid # ops @ [CommitTx txid]) e = (Inr (), e\<lparr>ge_wal := w\<rparr>)"
    "logs crc (txs @ [\<lparr>ct_txid = txid, ct_ops = ops\<rparr>]) w"
proof
  let ?t = "\<lparr>ct_txid = txid, ct_ops = ops\<rparr>"
  let ?w = "(ge_wal e)\<lparr>wl_data := log_of crc (txs @ [?t])\<rparr>"
  have l: "log_of crc (txs @ [?t]) = log_of crc txs @ concat (map (frame_of crc) (BeginTx txid # ops @ [CommitTx txid]))"
    by (simp add: log_of_def tx_bytes_def tx_records_def)
  show "append_records crc (BeginTx txid # ops @ [CommitTx txid]) e = (Inr (), e\<lparr>ge_wal := ?w\<rparr>)"
    using append_records_frames [of e "BeginTx txid # ops @ [CommitTx txid]" crc] assms unfolding l by (auto simp: logs_def)
  show "logs crc (txs @ [?t]) ?w" using assms by (auto simp: logs_def tx_ok_def)
qed

lemma logs_replay: "logs crc txs w \<Longrightarrow> replay_committed crc (wl_data w) = Inr txs"
  using replay_log_part [of txs "[]" crc] by (simp add: logs_def)

section \<open>Labels\<close>

lemma replay_label_ops_append:
  "replay_label_ops (xs @ ys) s =
    (case replay_label_ops xs s of None \<Rightarrow> None | Some (Inl e) \<Rightarrow> Some (Inl e) | Some (Inr s) \<Rightarrow> replay_label_ops ys s)"
  by (induction xs arbitrary: s) (auto split: wal_record.split option.split)

lemma replay_label_append:
  "replay_label_transactions txs li_new = Some (Inr s) \<Longrightarrow>
    replay_label_transactions (txs @ [t]) li_new = replay_label_ops (ct_ops t) s"
  by (simp add: replay_label_transactions_def replay_label_ops_append)

lemma replay_new_label:
  assumes "li_get_id s name = None" "i = of_nat (length (li_i2s s))"
  shows "replay_label_ops (CreateLabel name i # ops) s = replay_label_ops ops (snd (li_get_or_create name s))"
  using assms by (simp add: fill_placeholders.simps [of _ s] li_next_id_def)

text \<open>An interner in which ids were given in order.\<close>

definition in_order :: "label_interner \<Rightarrow> bool" where
  "in_order s \<longleftrightarrow> li_inv s \<and> s = li_run (li_i2s s) li_new"

lemma in_order_new [simp]: "in_order li_new"
  by (simp add: in_order_def li_run_def)

lemma in_order_create:
  assumes "in_order s" "length (li_i2s s) < 2 ^ 32"
  shows "in_order (snd (li_get_or_create name s))"
proof (cases "li_get_id s name")
  case None
  from assms have s: "li_inv s" "s = li_run (li_i2s s) li_new" by (simp_all add: in_order_def)
  obtain s' where s': "li_get_or_create name s = (of_nat (length (li_i2s s)), s')" "li_inv s'" "li_i2s s' = li_i2s s @ [name]"
    using li_get_or_create_new [OF s(1) None assms(2)] by blast
  have "li_run (li_i2s s @ [name]) li_new = snd (li_get_or_create name (li_run (li_i2s s) li_new))" by (simp add: li_run_def)
  then have "li_run (li_i2s s') li_new = s'" using s(2) s'(1,3) by simp
  with s' show ?thesis by (simp add: in_order_def)
next
  case (Some i)
  with assms show ?thesis by (simp add: li_get_or_create_old)
qed

text \<open>Replaying one record per label, in the order of the ids, rebuilds the interner.\<close>

lemma replay_names:
  assumes "li_inv s0" "distinct (li_i2s s0 @ names)" "length (li_i2s s0 @ names) < 2 ^ 32"
  shows "replay_label_ops (map (\<lambda>(i, n). CreateLabel n (of_nat i)) (enumerate (length (li_i2s s0)) names)) s0 =
    Some (Inr (li_run names s0))"
  using assms
proof (induction names arbitrary: s0)
  case (Cons n names)
  have "li_get_id s0 n = None"
  proof (rule ccontr)
    assume "li_get_id s0 n \<noteq> None"
    then obtain i where "li_get_name s0 i = Some n" using li_invD [OF Cons.prems(1)] by blast
    then have "n \<in> set (li_i2s s0)" by (auto simp: li_get_name_def vec_get_def split: if_splits)
    with Cons.prems(2) show False by simp
  qed
  note new = this
  obtain s' where s': "li_get_or_create n s0 = (of_nat (length (li_i2s s0)), s')" "li_inv s'" "li_i2s s' = li_i2s s0 @ [n]"
    using li_get_or_create_new [OF Cons.prems(1) new] Cons.prems(3) by auto
  have "replay_label_ops (map (\<lambda>(i, n). CreateLabel n (of_nat i)) (enumerate (length (li_i2s s')) names)) s' =
    Some (Inr (li_run names s'))"
    using Cons.IH [OF s'(2)] Cons.prems(2,3) s'(3) by simp
  then show ?case using replay_new_label [OF new refl] s' by (simp add: li_run_def)
qed (simp add: li_run_def)

lemma li_inv_distinct:
  assumes "li_inv s"
  shows "distinct (li_i2s s)"
proof -
  have "i = j" if "i < length (li_i2s s)" "j < length (li_i2s s)" "li_i2s s ! i = li_i2s s ! j" for i j
  proof -
    have small: "i < 2 ^ 32" "j < 2 ^ 32" using that assms by (auto simp: li_inv_def)
    then have u: "unat (of_nat i :: u32) = i" "unat (of_nat j :: u32) = j" by (simp_all add: unat_of_nat)
    then have "li_get_name s (of_nat i) = Some (li_i2s s ! i)" "li_get_name s (of_nat j) = Some (li_i2s s ! i)"
      using that by (simp_all add: li_get_name_def vec_get_def)
    then have "(of_nat i :: u32) = of_nat j" using li_invD [OF assms] by (metis option.inject)
    then show ?thesis using u by metis
  qed
  then show ?thesis by (simp add: distinct_conv_nth) blast
qed

lemma label_records_eq:
  assumes "length (li_i2s s) < 2 ^ 32"
  shows "label_records (li_snapshot s) = map (\<lambda>(i, n). CreateLabel n (of_nat i)) (enumerate 0 (li_i2s s))"
proof -
  have u: "unat (of_nat i :: u32) = i" if "i < 2 ^ 32" for i using that by (simp add: unat_of_nat)
  have "label_records (li_snapshot s) = map (\<lambda>i. CreateLabel (li_i2s s ! i) (of_nat i)) [0..<length (li_i2s s)]"
    unfolding label_records_def List.map_filter_def
    using assms u by (auto simp: ls_iter_ids_def li_snapshot_def ls_new_def ls_get_name_def vec_get_def filter_map comp_def
        intro!: map_cong)
  also have "\<dots> = map (\<lambda>(i, n). CreateLabel n (of_nat i)) (enumerate 0 (li_i2s s))"
    by (rule nth_equalityI) (simp_all add: nth_enumerate_eq)
  finally show ?thesis .
qed

lemma replay_label_records:
  assumes "in_order s" "length (li_i2s s) < 2 ^ 32"
  shows "replay_label_ops (label_records (li_snapshot s)) li_new = Some (Inr s)"
  using replay_names [of li_new "li_i2s s"] assms li_inv_distinct [of s] by (simp add: label_records_eq in_order_def)

section \<open>Reopening\<close>

text \<open>
  The engine's log, file and memory agree: replaying the transactions of the log over the file and
  the id map that \<open>IdMap::load\<close> reads from it gives what is in memory.
\<close>

definition recoverable :: "(bytes \<Rightarrow> u32) \<Rightarrow> committed_tx list \<Rightarrow> graph_engine \<Rightarrow> bool" where
  "recoverable crc txs e \<longleftrightarrow> pager_inv (ge_pager e) \<and> logs crc txs (ge_wal e) \<and>
     replay_label_transactions txs li_new = Some (Inr (ge_label_interner e)) \<and> in_order (ge_label_interner e) \<and>
     ge_published_labels e = li_snapshot (ge_label_interner e) \<and> ge_published_node_labels e = im_i2l (ge_idmap e) \<and>
     (\<forall>s \<in> set (ge_published_segments e). csr_load (ge_pager e) (cs_meta_page_id s) = Inr s) \<and>
     (let state = scan_recovery_state txs
      in rs_manifest_segments state = segment_pointers (ge_published_segments e) \<and>
         rs_manifest_epoch state = ge_manifest_epoch e \<and> rs_checkpoint_txid state = ge_checkpoint_txid e \<and>
         rs_properties_root state = ge_properties_root e \<and> rs_stats_root state = ge_stats_root e) \<and>
     rbind (idmap_load (ge_pager e)) (\<lambda>im. replay_graph_transactions txs (ge_checkpoint_txid e) im (ge_pager e) []) =
       Inr (ge_idmap e, ge_pager e, rev (ge_published_runs e))"

lemma load_published:
  "\<forall>s \<in> set segs. csr_load p (cs_meta_page_id s) = Inr s \<Longrightarrow> load_segments (segment_pointers segs) p = Inr segs"
  by (induction segs) (simp_all add: segment_pointers_def)

text \<open>
  A restart. Between the id map and the log, \<open>open\<close> also reads the index catalog and the vector
  index; what follows depends on neither, and the catalog here stays the one in memory.
\<close>

definition reopen :: "(bytes \<Rightarrow> u32) \<Rightarrow> graph_engine \<Rightarrow> graph_engine result option" where
  "reopen crc e =
    (case idmap_load (ge_pager e) of
       Inl err \<Rightarrow> Some (Inl err)
     | Inr im \<Rightarrow> open_recovered crc (ge_wal e) im (ge_index_catalog e) (ge_pager e))"

definition same_state :: "graph_engine \<Rightarrow> graph_engine \<Rightarrow> bool" where
  "same_state r e \<longleftrightarrow> begin_read r = begin_read e \<and> ge_pager r = ge_pager e \<and> ge_wal r = ge_wal e \<and> ge_idmap r = ge_idmap e \<and>
     ge_label_interner r = ge_label_interner e \<and> ge_manifest_epoch r = ge_manifest_epoch e \<and>
     ge_checkpoint_txid r = ge_checkpoint_txid e"

text \<open>
  The engine with another id map. Once the checkpoint covers the log, a restart has the id map of
  the file, in which a node has its first label only: labels added or removed later are in the log.
\<close>

definition with_idmap :: "id_map \<Rightarrow> graph_engine \<Rightarrow> graph_engine" where
  "with_idmap im e = e\<lparr>ge_idmap := im, ge_published_node_labels := im_i2l im\<rparr>"

lemma reopen_recoverable:
  assumes "recoverable crc txs e"
  shows "\<exists>r. reopen crc e = Some (Inr r) \<and> same_state r e \<and>
    ge_next_txid r = max (saturating_succ (rs_max_txid (scan_recovery_state txs))) 1"
  using assms load_published [of "ge_published_segments e" "ge_pager e"] logs_replay [of crc txs "ge_wal e"]
  by (auto simp: recoverable_def reopen_def open_recovered_def same_state_def begin_read_def Let_def rbind_Inr_iff)

lemma scan_append: "scan_recovery_state (txs @ [t]) = scan_tx t (scan_recovery_state txs)"
  by (simp add: scan_recovery_state_def)

text \<open>Transactions that leave the graph alone.\<close>

fun is_admin_op :: "wal_record \<Rightarrow> bool" where
  "is_admin_op (CreateLabel _ _) = True"
| "is_admin_op (ManifestSwitch _ _ _ _) = True"
| "is_admin_op (Checkpoint _ _ _ _) = True"
| "is_admin_op _ = False"

lemma admin_op: "is_admin_op r \<Longrightarrow> replay_op r s = Inr s"
  by (cases r; cases s) simp_all

lemma admin_ops: "\<forall>r \<in> set ops. is_admin_op r \<Longrightarrow> replay_ops ops s = Inr s"
  by (induction ops) (simp_all add: admin_op)

lemma empty_buffer_run: "run_is_empty (freeze_into_run txid mt_default)"
  by (simp add: run_is_empty_def freeze_into_run_def mt_default_def bt_collect_def)

lemma replay_admin:
  assumes "\<forall>r \<in> set (ct_ops t). is_admin_op r"
  shows "replay_graph_transactions [t] ck im p out = Inr (im, p, out)"
  using admin_ops [OF assms] empty_buffer_run by (simp add: Let_def)

lemma replay_graph_append:
  "replay_graph_transactions (xs @ ys) ck im p out =
    rbind (replay_graph_transactions xs ck im p out) (\<lambda>(im, p, out). replay_graph_transactions ys ck im p out)"
proof (induction xs arbitrary: im p out)
  case (Cons t xs)
  then show ?case by (cases "replay_ops (ct_ops t) (mt_default, im, p)") (auto simp: Let_def)
qed simp

text \<open>Behind a checkpoint that covers every graph transaction nothing is left to replay.\<close>

lemma replay_covered:
  "\<forall>t \<in> set txs. ct_txid t \<le> ck \<or> (\<forall>r \<in> set (ct_ops t). is_admin_op r) \<Longrightarrow>
    replay_graph_transactions txs ck im p out = Inr (im, p, out)"
proof (induction txs arbitrary: out)
  case (Cons t txs)
  then show ?case using admin_ops [of "ct_ops t"] empty_buffer_run by (auto simp: Let_def)
qed simp

subsection \<open>Creating a label\<close>

lemma loggable_label: "key_wf name \<Longrightarrow> length name \<le> 1048567 \<Longrightarrow> loggable (CreateLabel name i)"
  by (simp add: loggable_def body_of_def encode_body_def encode_key_def try_u32_def key_wf_def)

lemma label_recoverable:
  assumes rec: "recoverable crc txs e" and new: "li_get_id (ge_label_interner e) name = None"
    and name: "key_wf name" "length name \<le> 1048567" and room: "length (li_i2s (ge_label_interner e)) < 2 ^ 32"
  shows "\<exists>i e' txs'. get_or_create_label crc name e = (Inr i, e') \<and> recoverable crc txs' e' \<and>
    li_get_or_create name (ge_label_interner e) = (i, ge_label_interner e')"
proof -
  let ?s = "ge_label_interner e" and ?txid = "ge_next_txid e"
  let ?i = "of_nat (length (li_i2s ?s)) :: u32"
  have s: "in_order ?s" "li_inv ?s" using rec by (simp_all add: recoverable_def in_order_def)
  obtain s' where s': "li_get_or_create name ?s = (?i, s')" using li_get_or_create_new [OF s(2) new room] by blast
  let ?ops = "[CreateLabel name ?i]" and ?e = "e\<lparr>ge_label_interner := s', ge_next_txid := ?txid + 1\<rparr>"
  let ?t = "\<lparr>ct_txid = ?txid, ct_ops = ?ops\<rparr>"
  have "logs crc txs (ge_wal ?e)" "\<forall>r \<in> set ?ops. loggable r \<and> \<not> is_marker r"
    using rec loggable_label [OF name] by (simp_all add: recoverable_def)
  then obtain w where w: "append_records crc (BeginTx ?txid # ?ops @ [CommitTx ?txid]) ?e = (Inr (), ?e\<lparr>ge_wal := w\<rparr>)"
    "logs crc (txs @ [?t]) w" using append_tx by blast
  let ?e' = "?e\<lparr>ge_wal := w, ge_published_labels := li_snapshot s'\<rparr>"
  have "get_or_create_label crc name e = (Inr ?i, ?e')"
    using w(1) new s' by (simp add: get_or_create_label_def Let_def)
  moreover have "replay_label_transactions (txs @ [?t]) li_new = Some (Inr s')"
    using rec replay_label_append [of txs ?s ?t] replay_new_label [OF new refl, of "[]"] s' by (simp add: recoverable_def)
  moreover have "in_order s'" using in_order_create [OF s(1) room, of name] s' by simp
  moreover have "rbind (idmap_load (ge_pager e)) (\<lambda>im. replay_graph_transactions (txs @ [?t]) (ge_checkpoint_txid e) im (ge_pager e) []) =
      Inr (ge_idmap e, ge_pager e, rev (ge_published_runs e))"
    using rec replay_admin [of ?t] by (auto simp: recoverable_def replay_graph_append rbind_Inr_iff)
  ultimately have "recoverable crc (txs @ [?t]) ?e'"
    using rec w(2) by (simp add: recoverable_def scan_append scan_tx_def Let_def)
  with \<open>get_or_create_label crc name e = (Inr ?i, ?e')\<close> s' show ?thesis by fastforce
qed

subsection \<open>Rewriting the log\<close>

lemma loggable_manifest:
  "length segs \<le> 65000 \<Longrightarrow> loggable (ManifestSwitch epoch segs proot sroot)" "loggable (Checkpoint up_to epoch proot sroot)"
proof -
  have "length (concat (map encode_segment segs)) = 16 * length segs" for segs
    by (induction segs) (simp_all add: encode_segment_def)
  then show "length segs \<le> 65000 \<Longrightarrow> loggable (ManifestSwitch epoch segs proot sroot)"
    by (simp add: loggable_def body_of_def encode_body_def try_u32_def)
  show "loggable (Checkpoint up_to epoch proot sroot)" by (simp add: loggable_def body_of_def encode_body_def)
qed

lemma length_segment_pointers [simp]: "length (segment_pointers segs) = length segs"
  by (simp add: segment_pointers_def)

lemma fold_scan_labels: "fold scan_op (map (\<lambda>(i, n). CreateLabel n (f i)) xs) st = st"
  by (induction xs arbitrary: st) auto

lemma replay_label_admin:
  "\<forall>r \<in> set ops. \<not> (\<exists>name i. r = CreateLabel name i) \<Longrightarrow> replay_label_ops ops s = Some (Inr s)"
proof (induction ops)
  case (Cons r ops)
  then show ?case by (cases r) auto
qed simp

lemma checkpoint_recoverable:
  assumes rec: "recoverable crc txs e" and im: "idmap_load (ge_pager e) = Inr im" and runs: "ge_published_runs e = []"
    and names: "\<forall>name \<in> set (li_i2s (ge_label_interner e)). key_wf name \<and> length name \<le> 1048567"
    and room: "length (li_i2s (ge_label_interner e)) < 2 ^ 32" "length (ge_published_segments e) \<le> 65000"
  shows "\<exists>e' txs' up_to. checkpoint_on_close crc False e = (Inr (), e') \<and>
    recoverable crc txs' (with_idmap im (e'\<lparr>ge_checkpoint_txid := up_to\<rparr>)) \<and>
    rs_max_txid (scan_recovery_state txs') = ge_next_txid e \<and> begin_read e' = begin_read e \<and>
    ge_label_interner e' = ge_label_interner e \<and> ge_manifest_epoch e' = ge_manifest_epoch e \<and> length txs' = 1"
proof -
  let ?s = "ge_label_interner e" and ?txid = "ge_next_txid e" and ?up = "saturating_pred (ge_next_txid e)"
  let ?tail = "[ManifestSwitch (ge_manifest_epoch e) (segment_pointers (ge_published_segments e)) (ge_properties_root e) (ge_stats_root e),
    Checkpoint ?up (ge_manifest_epoch e) (ge_properties_root e) (ge_stats_root e)]"
  let ?ops = "label_records (li_snapshot ?s) @ ?tail"
  let ?t = "\<lparr>ct_txid = ?txid, ct_ops = ?ops\<rparr>"
  have s: "in_order ?s" using rec by (simp add: recoverable_def)
  have labels: "label_records (li_snapshot ?s) = map (\<lambda>(i, n). CreateLabel n (of_nat i)) (enumerate 0 (li_i2s ?s))"
    by (rule label_records_eq [OF room(1)])
  have ops: "\<forall>r \<in> set ?ops. loggable r \<and> \<not> is_marker r"
    using names loggable_label loggable_manifest room(2) unfolding labels by (auto simp: in_set_enumerate_eq)
  obtain w where w: "rewrite_as_snapshot crc False ?txid ?ops (ge_wal e) = (Inr (), w)" "wl_open w" "wl_data w = log_of crc [?t]"
    using rewrite_replay [OF ops, of crc ?txid "ge_wal e"] by blast
  let ?e' = "e\<lparr>ge_next_txid := ?txid + 1, ge_wal := w\<rparr>"
  have "checkpoint_on_close crc False e = (Inr (), ?e')"
    using w(1,2) runs by (simp add: checkpoint_on_close_def Let_def wal_fsync_def)
  moreover have "replay_label_transactions [?t] li_new = Some (Inr ?s)"
    using replay_label_records [OF s room(1)] replay_label_admin [of ?tail]
    by (simp add: replay_label_transactions_def replay_label_ops_append)
  moreover have "replay_graph_transactions [?t] ?up im (ge_pager e) [] = Inr (im, ge_pager e, [])"
    by (rule replay_admin) (auto simp: labels)
  moreover have st: "scan_recovery_state [?t] = \<lparr>rs_manifest_epoch = ge_manifest_epoch e,
      rs_manifest_segments = segment_pointers (ge_published_segments e), rs_checkpoint_txid = ?up, rs_max_txid = ?txid,
      rs_properties_root = ge_properties_root e, rs_stats_root = ge_stats_root e\<rparr>"
    by (simp add: scan_recovery_state_def scan_tx_def labels fold_scan_labels recovery_state_default_def max_def)
  ultimately have "recoverable crc [?t] (with_idmap im (?e'\<lparr>ge_checkpoint_txid := ?up\<rparr>))"
    using rec runs im w(2,3) ops by (simp add: recoverable_def with_idmap_def logs_def tx_ok_def)
  with \<open>checkpoint_on_close crc False e = (Inr (), ?e')\<close> st show ?thesis
    by (intro exI [of _ ?e'] exI [of _ "[?t]"] exI [of _ ?up]) (simp add: begin_read_def)
qed

subsection \<open>Compaction\<close>

lemma csr_load_extend:
  assumes inv: "pager_inv p" "pager_inv q" and pages: "\<forall>i. pg_pages p i \<noteq> None \<longrightarrow> pg_pages q i = pg_pages p i"
    and load: "csr_load p m = Inr seg"
  shows "csr_load q m = Inr seg"
proof -
  have r: "read_page q i = Inr b" if "read_page p i = Inr b" for i b
    using that pages unfolding read_page_iff [OF inv(1)] read_page_iff [OF inv(2)] by (auto split: option.splits)
  have bs: "read_blob_pages q is = Inr b" if "read_blob_pages p is = Inr b" for "is" b
    using that by (induction "is" arbitrary: b) (auto simp: rbind_Inr_iff r)
  show ?thesis
    using load unfolding csr_load_def decode_segment_def Let_def
    by (auto simp: rbind_Inr_iff r bs split: if_splits intro!: r bs)
qed

text \<open>
  What a first compaction needs: a segment whose page lists fit in its meta page, properties that
  can be stored, and room for all of it and the statistics in the file.
\<close>

definition compactable :: "nat \<Rightarrow> nat \<Rightarrow> graph_engine \<Rightarrow> csr_segment \<Rightarrow> bool" where
  "compactable a b e seg1 \<longleftrightarrow>
     rbind (build_segment_from_runs (ge_next_segment_id e) (ge_published_runs e)) build_reverse = Inr seg1 \<and>
     80 + 8 * segment_pages seg1 \<le> PAGE_SIZE \<and> window a b \<and>
     (\<forall>x \<in> set (sink_entries (ge_published_runs e)). sized a b (fst x) \<and> pv_wf (snd x)) \<and>
     segment_pages seg1 + 2 + sink_need 0 (sink_entries (ge_published_runs e)) +
       blob_need (stats_encode (collect_statistics (im_i2l (ge_idmap e)) (seg1 # ge_published_segments e))) \<le> free_pages (ge_pager e)"

lemma collect_statistics_meta:
  "collect_statistics ls (seg\<lparr>cs_meta_page_id := m\<rparr> # segs) = collect_statistics ls (seg # segs)"
  by (simp add: collect_statistics_def)

lemma compact_writes:
  assumes inv: "pager_inv (ge_pager e)" and runs: "ge_published_runs e = runs_of h"
    and c: "compactable a b e seg1"
  obtains seg m p1 root p2 sroot p3 where
    "rbind (build_segment_from_runs (ge_next_segment_id e) (runs_of h)) (\<lambda>seg. persist seg (ge_pager e)) = Inr (seg, p1)"
    "seg = seg1\<lparr>cs_meta_page_id := m\<rparr>"
    "sink_properties (runs_of h) 0 p1 = Some (Inr (root, p2))"
    "blob_write (stats_encode (collect_statistics (im_i2l (ge_idmap e)) (seg # ge_published_segments e))) p2 = Inr (sroot, p3)"
    "pager_inv p3" "csr_load p3 (cs_meta_page_id seg) = Inr seg"
    "\<forall>i. pg_pages (ge_pager e) i \<noteq> None \<longrightarrow> pg_pages p3 i = pg_pages (ge_pager e) i"
    "blob_at p3 {} sroot (stats_encode (collect_statistics (im_i2l (ge_idmap e)) (seg1 # ge_published_segments e)))"
    "holds_sunk a b p3 root h" "roots p3 = roots (ge_pager e)"
proof -
  let ?p = "ge_pager e" and ?es = "sink_entries (runs_of h)"
  let ?st = "\<lambda>seg. stats_encode (collect_statistics (im_i2l (ge_idmap e)) (seg # ge_published_segments e))"
  from c obtain seg0 where seg0: "build_segment_from_runs (ge_next_segment_id e) (runs_of h) = Inr seg0" "build_reverse seg0 = Inr seg1"
    by (auto simp: compactable_def runs rbind_Inr_iff)
  have room: "segment_pages seg1 + 2 + sink_need 0 ?es + blob_need (?st seg1) \<le> free_pages ?p"
    "80 + 8 * segment_pages seg1 \<le> PAGE_SIZE" using c by (simp_all add: compactable_def runs)
  obtain seg p1 where p1: "persist seg0 ?p = Inr (seg, p1)" "free_pages p1 = free_pages ?p - (segment_pages seg1 + 1)"
    using persist_bound_aux [OF inv seg0(2)] room by auto
  obtain seg2 where k1: "build_reverse seg0 = Inr seg2" "seg = seg2\<lparr>cs_meta_page_id := cs_meta_page_id seg\<rparr>"
    "pager_inv p1" "pg_pages ?p \<subseteq>\<^sub>m pg_pages p1" "csr_load p1 (cs_meta_page_id seg) = Inr seg"
    by (rule persist_ok [OF inv p1(1)])
  have seg: "seg = seg1\<lparr>cs_meta_page_id := cs_meta_page_id seg\<rparr>" using k1(1,2) seg0(2) by simp
  have st: "?st seg = ?st seg1" by (subst seg) (simp only: collect_statistics_meta)
  have "sinkable a b p1 (runs_of h)" using c k1(3) p1(2) room by (simp add: sinkable_def compactable_def runs)
  from sink_holds [OF this] obtain root p2 where p2: "sink_properties (runs_of h) 0 p1 = Some (Inr (root, p2))" "holds_sunk a b p2 root h"
    "\<forall>i. pg_pages p1 i \<noteq> None \<longrightarrow> pg_pages p2 i = pg_pages p1 i" "free_pages p1 \<le> free_pages p2 + 1 + sink_need 0 ?es" by blast
  have p2inv: "pager_inv p2" using p2(2) by (simp add: holds_sunk_def)
  obtain sroot p3 where p3: "blob_write (?st seg) p2 = Inr (sroot, p3)" "pager_inv p3" "pg_pages p2 \<subseteq>\<^sub>m pg_pages p3" "blob_at p3 {} sroot (?st seg)"
    by (rule blob_write_fits [OF p2inv, of "?st seg"]) (use room p1(2) p2(4) in \<open>auto simp: st\<close>)
  have keep: "\<forall>i. pg_pages p2 i \<noteq> None \<longrightarrow> pg_pages p3 i = pg_pages p2 i" using p3(3) by (metis domIff map_le_def)
  have loads: "csr_load p3 (cs_meta_page_id seg) = Inr seg"
    using csr_load_extend [OF k1(3) p3(2) _ k1(5)] p2(3) keep by metis
  have kept: "\<forall>i. pg_pages ?p i \<noteq> None \<longrightarrow> pg_pages p3 i = pg_pages ?p i"
    using k1(4) p2(3) keep by (metis domIff map_le_def)
  have "rbind (build_segment_from_runs (ge_next_segment_id e) (runs_of h)) (\<lambda>seg. persist seg ?p) = Inr (seg, p1)"
    using p1(1) seg0(1) by simp
  moreover have "roots p3 = roots ?p"
    using keptD [OF persist_roots p1(1)] keptD [OF sink_roots [OF p2(1)]] keptD [OF blob_write_roots p3(1)] by simp
  ultimately show thesis
    using that [OF _ seg p2(1) p3(1,2) loads kept p3(4) [unfolded st] holds_sunk_extend [OF p2(2) p3(2) keep]] by blast
qed

definition covered :: "u64 \<Rightarrow> committed_tx list \<Rightarrow> bool" where
  "covered up_to txs \<longleftrightarrow> (\<forall>t \<in> set txs. ct_txid t \<le> up_to \<or> (\<forall>r \<in> set (ct_ops t). is_admin_op r))"

lemma epoch_grows:
  fixes x :: u64
  assumes "x \<noteq> - 1"
  shows "x \<le> x + 1"
  using assms unatSuc [of x] by (auto simp: word_le_nat_alt add.commute eq_neg_iff_add_eq_0)

lemma compact_recoverable:
  assumes rec: "recoverable crc txs e" and im: "idmap_load (ge_pager e) = Inr im" and runs: "ge_published_runs e = runs_of h" "h \<noteq> []"
    and first: "ge_properties_root e = 0"
    and c: "compactable a b e seg1" and cov: "covered (fold max (map run_txid (runs_of h)) 0) txs"
    and room: "ge_manifest_epoch e \<noteq> - 1" "length (ge_published_segments e) < 65000"
  shows "\<exists>e' txs' m. compact crc e = Some (Inr e') \<and> recoverable crc txs' (with_idmap im e') \<and> ge_published_runs e' = [] \<and>
    ge_published_segments e' = seg1\<lparr>cs_meta_page_id := m\<rparr> # ge_published_segments e \<and> ge_idmap e' = ge_idmap e \<and>
    ge_label_interner e' = ge_label_interner e \<and>
    blob_at (ge_pager e') {} (ge_stats_root e') (stats_encode (collect_statistics (im_i2l (ge_idmap e)) (seg1 # ge_published_segments e))) \<and>
    holds_sunk a b (ge_pager e') (ge_properties_root e') h"
proof -
  have inv: "pager_inv (ge_pager e)" using rec by (simp add: recoverable_def)
  obtain seg m p1 root p2 sroot p3 where w:
    "rbind (build_segment_from_runs (ge_next_segment_id e) (runs_of h)) (\<lambda>seg. persist seg (ge_pager e)) = Inr (seg, p1)"
    "seg = seg1\<lparr>cs_meta_page_id := m\<rparr>"
    "sink_properties (runs_of h) 0 p1 = Some (Inr (root, p2))"
    "blob_write (stats_encode (collect_statistics (im_i2l (ge_idmap e)) (seg # ge_published_segments e))) p2 = Inr (sroot, p3)"
    "pager_inv p3" "csr_load p3 (cs_meta_page_id seg) = Inr seg"
    "\<forall>i. pg_pages (ge_pager e) i \<noteq> None \<longrightarrow> pg_pages p3 i = pg_pages (ge_pager e) i"
    "blob_at p3 {} sroot (stats_encode (collect_statistics (im_i2l (ge_idmap e)) (seg1 # ge_published_segments e)))"
    "holds_sunk a b p3 root h" "roots p3 = roots (ge_pager e)"
    by (rule compact_writes [OF inv runs(1) c])
  let ?up = "fold max (map run_txid (runs_of h)) 0" and ?epoch = "ge_manifest_epoch e + 1" and ?segs = "seg # ge_published_segments e"
  let ?txid = "ge_next_txid e" and ?e = "e\<lparr>ge_next_segment_id := ge_next_segment_id e + 1, ge_pager := p3, ge_next_txid := ge_next_txid e + 1\<rparr>"
  let ?ops = "[ManifestSwitch ?epoch (segment_pointers ?segs) root sroot, Checkpoint ?up ?epoch root sroot]"
  let ?t = "\<lparr>ct_txid = ?txid, ct_ops = ?ops\<rparr>"
  have "logs crc txs (ge_wal ?e)" "\<forall>r \<in> set ?ops. loggable r \<and> \<not> is_marker r"
    using rec room(2) loggable_manifest by (simp_all add: recoverable_def)
  then obtain l where l: "append_records crc (BeginTx ?txid # ?ops @ [CommitTx ?txid]) ?e = (Inr (), ?e\<lparr>ge_wal := l\<rparr>)"
    "logs crc (txs @ [?t]) l" using append_tx by blast
  let ?e' = "?e\<lparr>ge_wal := l, ge_checkpoint_txid := ?up, ge_properties_root := root, ge_stats_root := sroot,
    ge_published_runs := [], ge_published_segments := ?segs, ge_manifest_epoch := ?epoch\<rparr>"
  have nonempty: "runs_of h \<noteq> []" using runs(2) by (simp add: runs_of_def)
  have compacted: "compact crc e = Some (Inr ?e')"
    using w(1,3,4) l(1) nonempty by (simp add: compact_def runs(1) first Let_def)
  have le: "ge_manifest_epoch e \<le> ?epoch" using room(1) by (rule epoch_grows)
  have "replay_graph_transactions (txs @ [?t]) ?up im p3 [] = Inr (im, p3, [])"
    using cov by (intro replay_covered) (auto simp: covered_def)
  moreover have "idmap_load p3 = Inr im" by (rule idmap_load_extend [OF inv w(5,7,10) im])
  moreover have "replay_label_transactions (txs @ [?t]) li_new = Some (Inr (ge_label_interner e))"
    using rec replay_label_append [of txs _ ?t] replay_label_admin [of ?ops] by (simp add: recoverable_def)
  moreover have "\<forall>s \<in> set ?segs. csr_load p3 (cs_meta_page_id s) = Inr s"
    using rec w(6) csr_load_extend [OF inv w(5) w(7)] by (auto simp: recoverable_def)
  ultimately have "recoverable crc (txs @ [?t]) (with_idmap im ?e')"
    using rec w(5) l(2) le by (simp add: recoverable_def with_idmap_def scan_append scan_tx_def Let_def max_def)
  with compacted w(2,8,9) show ?thesis
    by (intro exI [of _ ?e'] exI [of _ "txs @ [?t]"] exI [of _ m]) simp
qed

subsection \<open>What a compaction changes\<close>

lemma append_records_wal: "append_records crc rs e = (r, e') \<Longrightarrow> \<exists>w. e' = e\<lparr>ge_wal := w\<rparr>"
proof (induction rs arbitrary: e)
  case Nil
  then have "e' = e\<lparr>ge_wal := ge_wal e\<rparr>" by simp
  then show ?case ..
next
  case (Cons x rs)
  show ?case
  proof (cases "append_to_wal crc x e")
    case (Inl err)
    with Cons.prems have "e' = e\<lparr>ge_wal := ge_wal e\<rparr>" by simp
    then show ?thesis ..
  next
    case (Inr e1)
    then obtain w where "e1 = e\<lparr>ge_wal := w\<rparr>" by (auto simp: append_to_wal_def rbind_Inr_iff)
    with Cons Inr show ?thesis by fastforce
  qed
qed

text \<open>Readers lose the runs and see one more segment, the one that was persisted.\<close>

lemma compact_published:
  assumes c: "compact crc e = Some (Inr e')" and runs: "ge_published_runs e \<noteq> []"
  obtains seg p root sroot where
    "rbind (build_segment_from_runs (ge_next_segment_id e) (ge_published_runs e)) (\<lambda>seg. persist seg (ge_pager e)) = Inr (seg, p)"
    "begin_read e' = (publish_segment seg (begin_read e))\<lparr>sn_properties_root := root, sn_stats_root := sroot\<rparr>"
    "ge_idmap e' = ge_idmap e"
proof -
  let ?e = "e\<lparr>ge_next_segment_id := ge_next_segment_id e + 1\<rparr>"
  note def = compact_def Let_def
  obtain seg p where
    s: "rbind (build_segment_from_runs (ge_next_segment_id e) (ge_published_runs e)) (\<lambda>seg. persist seg (ge_pager e)) = Inr (seg, p)"
    by (cases "rbind (build_segment_from_runs (ge_next_segment_id e) (ge_published_runs e)) (\<lambda>seg. persist seg (ge_pager e))")
       (use c runs in \<open>auto simp: def simp del: append_records.simps\<close>)
  obtain root p2 where k: "sink_properties (ge_published_runs e) (ge_properties_root e) p = Some (Inr (root, p2))"
    by (cases "sink_properties (ge_published_runs e) (ge_properties_root e) p")
       (use c runs s in \<open>auto simp: def simp del: append_records.simps split: sum.splits\<close>)
  obtain sroot p3 where
    b: "blob_write (stats_encode (collect_statistics (im_i2l (ge_idmap e)) (seg # ge_published_segments e))) p2 = Inr (sroot, p3)"
    by (cases "blob_write (stats_encode (collect_statistics (im_i2l (ge_idmap e)) (seg # ge_published_segments e))) p2")
       (use c runs s k in \<open>auto simp: def simp del: append_records.simps\<close>)
  let ?e2 = "?e\<lparr>ge_pager := p3, ge_next_txid := ge_next_txid e + 1\<rparr>" and ?ep = "ge_manifest_epoch e + 1"
  let ?rs = "[BeginTx (ge_next_txid e), ManifestSwitch ?ep (segment_pointers (seg # ge_published_segments e)) root sroot,
    Checkpoint (fold max (map run_txid (ge_published_runs e)) 0) ?ep root sroot, CommitTx (ge_next_txid e)]"
  obtain r e3 where a: "append_records crc ?rs ?e2 = (r, e3)" by fastforce
  then obtain w where "e3 = ?e2\<lparr>ge_wal := w\<rparr>" using append_records_wal by blast
  with c runs s k b a have "begin_read e' = (publish_segment seg (begin_read e))\<lparr>sn_properties_root := root, sn_stats_root := sroot\<rparr>"
    "ge_idmap e' = ge_idmap e"
    by (auto simp: compact_def Let_def begin_read_def publish_segment_def simp del: append_records.simps split: sum.splits if_splits)
  with s that show thesis by blast
qed

section \<open>Properties\<close>

text \<open>An engine that has published and logged a history of transactions, and nothing else.\<close>

definition small_engine :: "(u64 \<times> wal_record list) list \<Rightarrow> id_map \<Rightarrow> pager \<Rightarrow> graph_engine" where
  "small_engine h im p = \<lparr>ge_pager = p, ge_wal = \<lparr>wl_data = log_of (\<lambda>_. 0) (map logged h), wl_open = True\<rparr>,
     ge_idmap = im, ge_label_interner = li_new, ge_index_catalog = \<lparr>ic_page = 2, ic_entries = []\<rparr>,
     ge_published_runs = runs_of h, ge_published_segments = [], ge_published_labels = li_snapshot li_new,
     ge_published_node_labels = im_i2l im, ge_next_txid = 4, ge_next_segment_id = 1, ge_manifest_epoch = 0,
     ge_checkpoint_txid = 0, ge_properties_root = 0, ge_stats_root = 0\<rparr>"

definition replays :: "(u64 \<times> wal_record list) list \<Rightarrow> bool" where
  "replays h \<longleftrightarrow> (\<forall>t \<in> set h. 0 < fst t \<and> tx_ok (logged t) \<and>
     run_of (fst t) (ct_ops (logged t)) = run_of (fst t) (snd t) \<and> \<not> run_is_empty (run_of (fst t) (snd t)))"

lemma no_labels_logged: "replay_label_transactions (map logged h) li_new = Some (Inr li_new)"
  unfolding replay_label_transactions_def
  by (rule replay_label_admin) (auto simp: logged_def graph_records_def)

lemma small_recoverable:
  assumes inv: "pager_inv p" and im: "idmap_load p = Inr im" and h: "replays h"
  shows "recoverable (\<lambda>_. 0) (map logged h) (small_engine h im p)"
proof -
  obtain m where m: "scan_recovery_state (map logged h) = recovery_state_default\<lparr>rs_max_txid := m\<rparr>"
    using scan_logged by blast
  have new: "filter (\<lambda>t. 0 < ct_txid t) (map logged h) = map logged h"
    using h by (auto simp: filter_id_conv logged_def replays_def)
  have "map (\<lambda>t. run_of (ct_txid (logged t)) (ct_ops (logged t))) h = rev (runs_of h)"
    using h by (simp add: runs_of_def replays_def logged_def case_prod_beta)
  moreover have "filter (\<lambda>r. \<not> run_is_empty r) (rev (runs_of h)) = rev (runs_of h)"
    using h by (auto simp: filter_id_conv runs_of_def replays_def)
  ultimately have "replay_graph_transactions (map logged h) 0 im p [] = Inr (im, p, rev (runs_of h))"
    using replay_graph_runs [of "map logged h" 0 im p "[]"] unfolding new by (auto simp: logged_def graph_records_graph comp_def)
  then show ?thesis
    using inv im h m no_labels_logged
    by (simp add: recoverable_def small_engine_def logs_def replays_def segment_pointers_def recovery_state_default_def)
qed

lemma new_file:
  obtains p where "pager_open None = Inr p" "pager_inv p" "idmap_load p = Inr no_nodes" "free_pages p = 65534"
proof -
  obtain p where p: "pager_open None = Inr p" "pager_inv p" "pg_pages p = (\<lambda>_. None)" "pg_meta p = meta_new"
    using pager_create by blast
  have "idmap_load p = Inr no_nodes"
    by (simp add: idmap_load_def i2e_start_page_def pager_i2e_len_def p(4) meta_new_def no_nodes_def)
  with p free_pages_new [OF p(3)] that show thesis by blast
qed

text \<open>A file with one node.\<close>

lemma one_node:
  obtains p im where "pager_inv p" "idmap_inv im p" "idmap_load p = Inr im" "im_i2l im = [[1]]" "map ie_label_id (im_i2e im) = [1]"
    "idmap_lookup im 9 = Some 0" "free_pages p = 65533"
proof -
  obtain q where q: "pager_open None = Inr q" "pager_inv q" "idmap_load q = Inr no_nodes" "free_pages q = 65534" by (rule new_file)
  obtain im p where c: "idmap_inv no_nodes q" "apply_create_node_multi_label 9 [1] 0 no_nodes q = Inr (im, p)"
    using empty_create [of 9 "[1]"] q(1,3) by (metis sum.inject(2))
  obtain s im1 p1 p2 where k: "create_start no_nodes q = Inr (s, im1, p1)" "write_i2e_record s (unat (0 :: u32)) (new_record 9 [1]) p1 = Inr p2"
    "im = im1\<lparr>im_i2e_len := im_i2e_len im1 + 1, im_e2i := hm_insert 9 0 (im_e2i im1),
       im_i2l := im_i2l im1 @ [remdups_adj (sort [1])], im_i2e := im_i2e im1 @ [new_record 9 [1]]\<rparr>"
    "p = set_next_internal_id (u32_saturate (im_i2e_len im1 + 1)) (set_i2e_len (im_i2e_len im1 + 1) p2)"
    by (rule create_cases [OF c]) blast
  note st = create_start_ok [OF c(1) k(1)]
  have im: "im = \<lparr>im_e2i = hm_insert 9 0 [], im_i2l = [[1]], im_i2e = [new_record 9 [1]], im_i2e_start = Some s, im_i2e_len = 1\<rparr>"
    unfolding k(3) st(1) by (simp add: no_nodes_def)
  have inv: "idmap_inv im p" by (rule create_inv [OF c(1) _ c(2)]) (simp add: no_nodes_def)
  note i = idmap_invD [OF inv]
  have "read_i2e_record p s 0 = Inr (new_record 9 [1])" using i(8) [of 0] by (simp add: read_i2e_record_at [OF i(1)] im)
  then have load: "idmap_load p = Inr im"
    using i(2,3) by (simp add: idmap_load_def im new_record_def flip: i(2) i(3))
  obtain b where p1: "allocate_page q = Inr (s, b)" "p1 = set_i2e_start_page (Some s) b"
    using k(1) by (auto simp: create_start_def no_nodes_def rbind_Inr_iff)
  from pgs.alloc_law [OF q(2) p1(1)] obtain z where
    z: "pager_inv b" "pg_pages q s = None" "pg_pages b = (pg_pages q)(s \<mapsto> z)" by blast
  have pg1: "pg_pages p1 = (pg_pages q)(s \<mapsto> z)" by (simp add: p1(2) setters_pages(1) [OF z(1)] z(3))
  obtain y where p2: "pager_inv p2" "pg_pages p2 = (pg_pages p1)(s \<mapsto> y)"
    by (rule write_i2e_record_at [OF st(2) k(2)]) (auto simp: i2e_location_def)
  have "pg_pages p = pg_pages p2" unfolding k(4) setters_pages(3) [OF setters_inv(2) [OF p2(1)]] setters_pages(2) [OF p2(1)] ..
  then have "pg_pages p = (pg_pages q)(s \<mapsto> y)" by (simp add: p2(2) pg1)
  moreover have "pg_pages b s = Some z" using z(3) by simp
  then have "data_page s" by (simp add: pg_pages_def split: if_splits)
  ultimately have "free_pages p = 65533" using free_pages_fresh [OF z(2)] q(4) by simp
  with that [OF i(1) inv load] show thesis by (simp add: im new_record_def idmap_lookup_def)
qed

text \<open>A history that sets a property.\<close>

definition one_property :: "(u64 \<times> wal_record list) list" where
  "one_property = [(1, [SetNodeProperty 7 [97] (PInt 3)])]"

lemma one_property_replays: "replays one_property"
proof -
  have "\<not> run_is_empty (run_of 1 [SetNodeProperty 7 [97] (PInt 3)])" by code_simp
  then show ?thesis using one_logged(1,2) by (simp add: replays_def one_property_def)
qed

text \<open>Runs without edges give a segment of one page.\<close>

definition empty_segment :: csr_segment where
  "empty_segment = \<lparr>cs_id = 1, cs_meta_page_id = 0, cs_min_src = 0, cs_max_src = 0, cs_min_dst = 0, cs_max_dst = 0,
    cs_offsets = [0, 0], cs_edges = [], cs_in_offsets = [], cs_in_edges = []\<rparr>"

lemma blob_need_one: "data \<noteq> [] \<Longrightarrow> length data \<le> MAX_DATA_PER_PAGE \<Longrightarrow> blob_need data = 1"
  by (cases data) (simp_all add: blob_need_def)

lemma small_compactable:
  assumes "65000 \<le> free_pages p" "rbind (build_segment_from_runs 1 (runs_of h)) build_reverse = Inr seg1" "segment_pages seg1 \<le> 100"
    "\<forall>x \<in> set (sink_entries (runs_of h)). sized 21 21 (fst x) \<and> pv_wf (snd x)" "sink_need 0 (sink_entries (runs_of h)) \<le> 100"
    "length (stats_encode (collect_statistics (im_i2l im) [seg1])) \<le> 100"
  shows "compactable 21 21 (small_engine h im p) seg1"
proof -
  have "stats_encode s \<noteq> []" for s by (simp add: stats_encode_def flip: length_greater_0_conv)
  then have "blob_need (stats_encode (collect_statistics (im_i2l im) [seg1])) = 1"
    using assms(6) by (intro blob_need_one) (auto simp: blob_sizes)
  then show ?thesis using assms by (simp add: compactable_def small_engine_def window_def PAGE_SIZE_def)
qed

lemma empty_segment_built:
  assumes "surviving_edges runs {} {} = []"
  shows "rbind (build_segment_from_runs 1 runs) build_reverse = Inr empty_segment" "segment_pages empty_segment = 1"
  using assms by (simp_all add: build_segment_from_runs_def build_reverse_def segment_pages_def blob_page_count_def PAGE_SIZE_def empty_segment_def)

text \<open>A history that creates three edges and deletes one of them.\<close>

definition some_edges :: "(u64 \<times> wal_record list) list" where
  "some_edges = [(1, [CreateEdge 4 1 6, CreateEdge 4 1 7]), (2, [CreateEdge 4 1 5, TombstoneEdge 4 1 7])]"

definition some_segment :: csr_segment where
  "some_segment = \<lparr>cs_id = 1, cs_meta_page_id = 0, cs_min_src = 4, cs_max_src = 4, cs_min_dst = 5, cs_max_dst = 6,
    cs_offsets = [0, 2], cs_edges = [\<lparr>er_rel = 1, er_dst = 5\<rparr>, \<lparr>er_rel = 1, er_dst = 6\<rparr>],
    cs_in_offsets = [0, 1, 2], cs_in_edges = [\<lparr>er_rel = 1, er_dst = 4\<rparr>, \<lparr>er_rel = 1, er_dst = 4\<rparr>]\<rparr>"

lemma some_edges_replays: "replays some_edges"
proof -
  have "\<not> run_is_empty (run_of 1 [CreateEdge 4 1 6, CreateEdge 4 1 7])" "\<not> run_is_empty (run_of 2 [CreateEdge 4 1 5, TombstoneEdge 4 1 7])"
    "logged (1, [CreateEdge 4 1 6, CreateEdge 4 1 7]) = \<lparr>ct_txid = 1, ct_ops = [CreateEdge 4 1 6, CreateEdge 4 1 7]\<rparr>"
    "logged (2, [CreateEdge 4 1 5, TombstoneEdge 4 1 7]) = \<lparr>ct_txid = 2, ct_ops = [CreateEdge 4 1 5, TombstoneEdge 4 1 7]\<rparr>"
    by code_simp+
  then show ?thesis by (simp add: replays_def some_edges_def tx_ok_def loggable_def body_of_def encode_body_def)
qed

text \<open>The engine with a history that replays satisfies what a compaction asks for.\<close>

lemma small_compacts:
  assumes p: "pager_inv p" "idmap_load p = Inr im" and h: "replays h" "h \<noteq> []" and c: "compactable a b (small_engine h im p) seg1"
    and max: "\<forall>t \<in> set h. fst t \<le> fold max (map fst (rev h)) 0"
  shows "recoverable (\<lambda>_. 0) (map logged h) (small_engine h im p)" "idmap_load (ge_pager (small_engine h im p)) = Inr im"
    "ge_published_runs (small_engine h im p) = runs_of h"
    "h \<noteq> []" "ge_properties_root (small_engine h im p) = 0" "compactable a b (small_engine h im p) seg1"
    "covered (fold max (map run_txid (runs_of h)) 0) (map logged h)"
    "ge_manifest_epoch (small_engine h im p) \<noteq> - 1" "length (ge_published_segments (small_engine h im p)) < 65000"
proof -
  have "map run_txid (runs_of h) = map fst (rev h)"
    by (simp add: runs_of_def run_of_def freeze_into_run_def rev_map [symmetric] case_prod_beta comp_def)
  with max show "covered (fold max (map run_txid (runs_of h)) 0) (map logged h)" by (auto simp: covered_def logged_def)
qed (use small_recoverable [OF p h(1)] p(2) h(2) c in \<open>simp_all add: small_engine_def\<close>)

lemma some_edges_compact:
  assumes "pager_inv p" "idmap_load p = Inr no_nodes" "free_pages p = 65534"
  obtains e' where "compact (\<lambda>_. 0) (small_engine some_edges no_nodes p) = Some (Inr e')"
proof -
  have es: "rbind (build_segment_from_runs 1 (runs_of some_edges)) build_reverse = Inr some_segment"
    "sink_node_props (runs_of some_edges) = []" "sink_edge_props (runs_of some_edges) = []"
    "length (stats_encode (collect_statistics [] [some_segment])) \<le> 100" by code_simp+
  have "segment_pages some_segment \<le> 100" by (simp add: segment_pages_def blob_page_count_def PAGE_SIZE_def some_segment_def)
  then have "compactable 21 21 (small_engine some_edges no_nodes p) some_segment"
    using es assms(3) by (intro small_compactable) (simp_all add: sink_entries_def no_nodes_def)
  from compact_recoverable [OF small_compacts [OF assms(1,2) some_edges_replays _ this]] that show thesis
    by (auto simp: some_edges_def)
qed

lemma lookups_meta:
  "csr_neighbors (seg\<lparr>cs_meta_page_id := m\<rparr>) x rel = csr_neighbors seg x rel"
  "csr_incoming_neighbors (seg\<lparr>cs_meta_page_id := m\<rparr>) x rel = csr_incoming_neighbors seg x rel"
  by (simp_all add: csr_neighbors_def csr_incoming_neighbors_def)

text \<open>
  C6. Compaction keeps every adjacency list, in both directions. Take an engine that has no segment
  yet, whose transactions do not delete what they create, at least one of whose edges is still
  there, and whose edges do not end in the node \<open>u32::MAX\<close>. When \<open>compact\<close> succeeds, the outgoing and
  the incoming iterators of every node return, before and after, the same edges with the same
  multiplicities; the outgoing ones now in sorted order.
\<close>

theorem compaction_preserves_neighbors:
  assumes inv: "pager_inv (ge_pager e)" and c: "compact crc e = Some (Inr e')" and none: "ge_published_segments e = []"
    and runs: "\<forall>r \<in> set (ge_published_runs e). run_inv r \<and> self_consistent r"
    and es: "surviving_edges (ge_published_runs e) {} {} \<noteq> []" "length (surviving_edges (ge_published_runs e) {} {}) < 2 ^ 64"
      "\<forall>x \<in> set (surviving_edges (ge_published_runs e) {} {}). ek_dst x \<noteq> - 1"
  shows "\<exists>out inc inc'. drain outgoing (sn_neighbors (begin_read e) x rel) = Inr out \<and>
    drain outgoing (sn_neighbors (begin_read e') x rel) = Inr (sort out) \<and>
    drain incoming (sn_incoming_neighbors (begin_read e) x rel) = Inr inc \<and>
    drain incoming (sn_incoming_neighbors (begin_read e') x rel) = Inr inc' \<and> mset inc' = mset inc"
proof -
  let ?runs = "ge_published_runs e" and ?P = "\<lambda>sel e. sel e = x \<and> rel_matches rel (ek_rel e)"
  let ?es = "surviving_edges ?runs {} {}"
  have "?runs \<noteq> []" using es(1) by auto
  then obtain seg p root sroot where
    s: "rbind (build_segment_from_runs (ge_next_segment_id e) ?runs) (\<lambda>seg. persist seg (ge_pager e)) = Inr (seg, p)"
    and e': "begin_read e' = (publish_segment seg (begin_read e))\<lparr>sn_properties_root := root, sn_stats_root := sroot\<rparr>"
    by (rule compact_published [OF c])
  obtain seg0 where seg0: "build_segment_from_runs (ge_next_segment_id e) ?runs = Inr seg0" "csr_fwd seg0 (sort ?es)" "cs_in_edges seg0 = []"
    by (rule build_segment_fwd [OF es(2), of "ge_next_segment_id e"])
  obtain seg1 where seg1: "build_reverse seg0 = Inr seg1" "seg = seg1\<lparr>cs_meta_page_id := cs_meta_page_id seg\<rparr>"
    by (rule persist_ok [OF inv, of seg0 seg p]) (use s seg0(1) in simp_all)
  have "sort ?es \<noteq> []" "\<forall>x \<in> set (sort ?es). ek_dst x \<noteq> - 1" using es by auto
  from reverse_lookups [OF seg0(2) this(1) seg0(3) this(2), of x rel] seg1(1)
  have "csr_neighbors seg1 x rel = Inr (filter (?P ek_src) (sort ?es))"
    "csr_incoming_neighbors seg1 x rel = Inr (filter (?P ek_dst) (sort_key rev_key (sort ?es)))" by auto
  then have look: "csr_neighbors seg x rel = Inr (filter (?P ek_src) (sort ?es))"
    "csr_incoming_neighbors seg x rel = Inr (filter (?P ek_dst) (sort_key rev_key (sort ?es)))"
    using lookups_meta seg1(2) by metis+
  have after: "sn_runs (begin_read e') = []" "sn_segments (begin_read e') = [seg]"
    unfolding e' by (simp_all add: publish_segment_def begin_read_def none)
  have nil: "visible_segments dir segf [] = (\<lambda>_ _. [])" for dir segf by (simp add: visible_segments_def fun_eq_iff)
  have "drain outgoing (sn_neighbors (begin_read e) x rel) = Inr (filter (?P ek_src) ?es)"
    using drain_new [of "[]" outgoing x rel undefined ?runs] visible_surviving [OF runs, of x rel "{}" "{}"]
    by (simp add: sn_neighbors_def begin_read_def none nil)
  moreover have "drain outgoing (sn_neighbors (begin_read e') x rel) = Inr (sort (filter (?P ek_src) ?es))"
    using drain_new [of "[seg]" outgoing x rel "\<lambda>_. filter (?P ek_src) (sort ?es)" "[]"] look(1)
    by (simp add: after sn_neighbors_def visible_segments_def outgoing_def
        load_outgoing_segment_edges_def edge_blocked_outgoing_def filter_sort)
  moreover have "drain incoming (sn_incoming_neighbors (begin_read e) x rel) = Inr (visible_runs incoming x rel {} {} ?runs (\<lambda>_ _. []))"
    using drain_new [of "[]" incoming x rel undefined ?runs] by (simp add: sn_incoming_neighbors_def begin_read_def none nil)
  moreover have "drain incoming (sn_incoming_neighbors (begin_read e') x rel) = Inr (filter (?P ek_dst) (sort_key rev_key (sort ?es)))"
    using drain_new [of "[seg]" incoming x rel "\<lambda>_. filter (?P ek_dst) (sort_key rev_key (sort ?es))" "[]"] look(2)
    by (simp add: after sn_incoming_neighbors_def visible_segments_def incoming_def
        load_incoming_segment_edges_def edge_blocked_incoming_def)
  ultimately show ?thesis using visible_surviving_incoming [OF runs, of x rel "{}" "{}"] by (auto simp: mset_filter)
qed

theorem compaction_preserves_neighbors_witness:
  "\<exists>p e'. pager_open None = Inr p \<and> compact (\<lambda>_. 0) (small_engine some_edges no_nodes p) = Some (Inr e') \<and>
     drain outgoing (sn_neighbors (begin_read e') 4 None) = Inr [EdgeKey 4 1 5, EdgeKey 4 1 6]"
proof -
  obtain p where p: "pager_open None = Inr p" "pager_inv p" "idmap_load p = Inr no_nodes" "free_pages p = 65534" by (rule new_file)
  let ?e = "small_engine some_edges no_nodes p"
  obtain e' where c: "compact (\<lambda>_. 0) ?e = Some (Inr e')" by (rule some_edges_compact [OF p(2,3,4)])
  have runs: "\<forall>r \<in> set (ge_published_runs ?e). run_inv r" by (auto simp: small_engine_def runs_of_def run_of_ok(1))
  have eval: "list_all self_consistent (runs_of some_edges)" "surviving_edges (runs_of some_edges) {} {} = [EdgeKey 4 1 5, EdgeKey 4 1 6]"
    "drain outgoing (neighbors_iter_new (runs_of some_edges) [] 4 None) = Inr [EdgeKey 4 1 5, EdgeKey 4 1 6]"
    "EdgeKey 4 1 5 \<le> EdgeKey 4 1 6" by code_simp+
  have "drain outgoing (sn_neighbors (begin_read ?e) 4 None) = Inr [EdgeKey 4 1 5, EdgeKey 4 1 6]"
    "surviving_edges (ge_published_runs ?e) {} {} = [EdgeKey 4 1 5, EdgeKey 4 1 6]"
    using eval by (simp_all add: sn_neighbors_def begin_read_def small_engine_def)
  then show ?thesis
    using compaction_preserves_neighbors [of ?e, OF _ c, of 4 None] runs p(1,2) c eval(1,4)
    by (auto simp: small_engine_def list_all_iff)
qed

text \<open>
  C17. Labels are durable when \<open>get_or_create_label\<close> returns. For an engine whose log, file and
  memory agree the call succeeds, readers see the name under the id it returned, every earlier
  label keeps its id, and the engine agrees with its log again: a restart gives the same state.
\<close>

theorem label_durable:
  assumes rec: "recoverable crc txs e" and name: "key_wf name" "length name \<le> 1048567"
    and room: "length (li_i2s (ge_label_interner e)) < 2 ^ 32"
  shows "\<exists>i e' txs' r. get_or_create_label crc name e = (Inr i, e') \<and> sn_resolve_label_id (begin_read e') name = Some i \<and>
    (\<forall>m j. sn_resolve_label_id (begin_read e) m = Some j \<longrightarrow> sn_resolve_label_id (begin_read e') m = Some j) \<and>
    recoverable crc txs' e' \<and> reopen crc e' = Some (Inr r) \<and> same_state r e'"
proof -
  have inv: "li_inv (ge_label_interner e)" using rec by (simp add: recoverable_def in_order_def)
  have see: "sn_resolve_label_id (begin_read x) m = li_get_id (ge_label_interner x) m" if "recoverable crc ts x" for ts x m
    using that by (simp add: recoverable_def begin_read_def sn_resolve_label_id_def resolve_symbol_id_def ls_get_id_def
        li_snapshot_def ls_new_def li_get_id_def)
  have "\<exists>i e' txs'. get_or_create_label crc name e = (Inr i, e') \<and> recoverable crc txs' e' \<and>
    li_get_or_create name (ge_label_interner e) = (i, ge_label_interner e')"
  proof (cases "li_get_id (ge_label_interner e) name")
    case None
    then show ?thesis by (rule label_recoverable [OF rec _ name room])
  next
    case (Some i)
    then show ?thesis using rec by (auto simp: get_or_create_label_def li_get_or_create_old)
  qed
  then obtain i e' txs' where e': "get_or_create_label crc name e = (Inr i, e')" "recoverable crc txs' e'"
    "li_get_or_create name (ge_label_interner e) = (i, ge_label_interner e')" by blast
  have "li_get_id (ge_label_interner e') name = Some i"
    "\<forall>m j. li_get_id (ge_label_interner e) m = Some j \<longrightarrow> li_get_id (ge_label_interner e') m = Some j"
    using li_get_or_create_inv(2,3) [OF inv room, where n = name] e'(3) by simp_all
  with e'(1,2) reopen_recoverable [OF e'(2)] show ?thesis using see [OF rec] see [OF e'(2)] by metis
qed

theorem label_durable_witness:
  "\<exists>p i e' r. pager_open None = Inr p \<and> get_or_create_label (\<lambda>_. 0) [65] (small_engine one_property no_nodes p) = (Inr i, e') \<and>
     sn_resolve_label_id (begin_read e') [65] = Some i \<and> reopen (\<lambda>_. 0) e' = Some (Inr r) \<and> same_state r e'"
proof -
  obtain p where p: "pager_open None = Inr p" "pager_inv p" "idmap_load p = Inr no_nodes" by (rule new_file)
  have "key_wf [65]" by (simp add: key_wf_def utf8_len_def utf8_tail_def byte_in_def)
  moreover have "length (li_i2s (ge_label_interner (small_engine one_property no_nodes p))) < 2 ^ 32" by (simp add: small_engine_def)
  ultimately show ?thesis using label_durable [OF small_recoverable [OF p(2,3) one_property_replays], of "[65]"] p(1) by fastforce
qed

text \<open>
  When the log cannot be written, \<open>get_or_create_label\<close> returns an error but keeps the label in
  memory: the next call for the same name succeeds and returns its id, although the log has no
  record of it and never will.
\<close>

lemma unlogged_label_returned:
  assumes "li_get_id (ge_label_interner e) name = None" and "\<not> wl_open (ge_wal e)"
  shows "\<exists>err e' i. get_or_create_label crc name e = (Inl err, e') \<and> get_or_create_label crc name e' = (Inr i, e') \<and>
    ge_wal e' = ge_wal e"
proof -
  let ?s = "snd (li_get_or_create name (ge_label_interner e))"
  let ?e = "e\<lparr>ge_label_interner := ?s, ge_next_txid := ge_next_txid e + 1\<rparr>"
  have "get_or_create_label crc name e = (Inl (WalProtocol ''wal file is closed''), ?e)"
    using assms by (simp add: get_or_create_label_def append_to_wal_def wal_append_def Let_def split: prod.split)
  moreover have "li_get_id ?s name = Some (of_nat (length (li_i2s (ge_label_interner e))))"
    using assms(1) by (simp add: li_get_or_create_def li_get_id_def Let_def)
  then have "get_or_create_label crc name ?e = (Inr (of_nat (length (li_i2s (ge_label_interner e)))), ?e)"
    by (simp add: get_or_create_label_def)
  ultimately show ?thesis by fastforce
qed


text \<open>A node that was created with one label and got a second one, with the log that says so.\<close>

definition two_labels :: committed_tx where
  "two_labels = \<lparr>ct_txid = 1, ct_ops = [CreateNode 9 1 0, AddNodeLabel 0 2]\<rparr>"

lemma two_labels_engine:
  obtains e where "recoverable (\<lambda>_. 0) [two_labels] e" "idmap_inv (ge_idmap e) (ge_pager e)" "ge_published_runs e = []"
    "ge_label_interner e = li_new" "ge_published_segments e = []" "sn_node_labels (begin_read e) = [[1, 2]]"
    "map ie_label_id (im_i2e (ge_idmap e)) = [1]"
proof -
  obtain p im where n: "pager_inv p" "idmap_inv im p" "idmap_load p = Inr im" "im_i2l im = [[1]]" "map ie_label_id (im_i2e im) = [1]"
    "idmap_lookup im 9 = Some 0" by (rule one_node)
  let ?im = "im\<lparr>im_i2l := [[1, 2]]\<rparr>"
  let ?e = "(small_engine [] ?im p)\<lparr>ge_wal := \<lparr>wl_data = log_of (\<lambda>_. 0) [two_labels], wl_open = True\<rparr>\<rparr>"
  have "replay_graph_transactions [two_labels] 0 im p [] = Inr (?im, p, [])"
    using empty_buffer_run [of 1] n(4,6) by (simp add: two_labels_def apply_add_label_def vec_get_def)
  moreover have "tx_ok two_labels" by (simp add: two_labels_def tx_ok_def loggable_def body_of_def encode_body_def)
  moreover have "replay_label_transactions [two_labels] li_new = Some (Inr li_new)"
    by (simp add: replay_label_transactions_def two_labels_def)
  ultimately have "recoverable (\<lambda>_. 0) [two_labels] ?e"
    using n(1,3) by (simp add: recoverable_def small_engine_def logs_def segment_pointers_def runs_of_def two_labels_def
        scan_recovery_state_def scan_tx_def recovery_state_default_def)
  moreover have "idmap_inv ?im p" using n(2,4) by (auto simp: idmap_inv_def idmap_lookup_def)
  ultimately show thesis using that [of ?e] n(5) by (simp add: small_engine_def begin_read_def runs_of_def)
qed



lemma one_property_compact:
  assumes p: "pager_inv p" "idmap_load p = Inr no_nodes" "free_pages p = 65534"
  shows "compactable 21 21 (small_engine one_property no_nodes p) empty_segment"
proof -
  have es: "sink_node_props (runs_of one_property) = [((7, [97]), PInt 3)]" "sink_edge_props (runs_of one_property) = []"
    "surviving_edges (runs_of one_property) {} {} = []" "length (stats_encode (collect_statistics [] [empty_segment])) = 24"
    by code_simp+
  have "varint_u32_len 10 = 1" by (subst varint_u32_len.simps) (simp add: word_le_nat_alt)
  then have "sized 21 21 (node_prop_key 7 [97])" by (simp add: sized_def cell_size_def node_prop_key_def)
  moreover have "value_need (PInt 3) = 1" by (simp add: value_need_def blob_need_def blob_sizes)
  ultimately show ?thesis
    using es p(3) empty_segment_built [OF es(3)] by (intro small_compactable) (simp_all add: sink_entries_def no_nodes_def)
qed


subsection \<open>Committing and replaying\<close>

lemma replay_ops_append: "replay_ops (xs @ ys) s = rbind (replay_ops xs s) (replay_ops ys)"
proof (induction xs arbitrary: s)
  case (Cons r xs)
  then have "replay_ops (xs @ ys) = (\<lambda>s. rbind (replay_ops xs s) (replay_ops ys))" by (simp add: fun_eq_iff)
  then show ?case by (simp add: rbind_assoc)
qed simp

abbreviation node_records :: "write_txn \<Rightarrow> wal_record list" where
  "node_records t \<equiv> map (\<lambda>(external_id, label_id, internal_id). CreateNode external_id label_id internal_id) (wt_created_nodes t)"

lemma create_lookup:
  assumes "apply_create_node x l i im p = Inr (im', p')"
  shows "idmap_lookup im x = None" "idmap_lookup im' y = (if y = x then Some i else idmap_lookup im y)"
  using assms
  by (auto simp: apply_create_node_def apply_create_node_multi_label_def idmap_lookup_def Let_def rbind_Inr_iff split: if_splits option.splits)

lemma apply_created_lookup:
  assumes "apply_created ns (im, p) = Inr (im', p')"
  shows "(idmap_lookup im x = Some i \<longrightarrow> idmap_lookup im' x = Some i) \<and> ((x, l, i) \<in> set ns \<longrightarrow> idmap_lookup im' x = Some i)"
  using assms
proof (induction ns arbitrary: im p)
  case (Cons c ns)
  obtain y k j where c: "c = (y, k, j)" by (cases c)
  from Cons.prems obtain im1 p1 where a: "apply_create_node y k j im p = Inr (im1, p1)" "apply_created ns (im1, p1) = Inr (im', p')"
    by (auto simp: c rbind_Inr_iff)
  from Cons.IH [OF a(2)] create_lookup [OF a(1)] show ?case by (auto simp: c split: if_splits)
qed simp

lemma replay_created:
  "apply_created ns (im, p) = Inr (im', p') \<Longrightarrow>
    replay_ops (map (\<lambda>(x, l, i). CreateNode x l i) ns) (m, im, p) = Inr (m, im', p')"
proof (induction ns arbitrary: im p)
  case (Cons c ns)
  obtain y k j where c: "c = (y, k, j)" by (cases c)
  from Cons.prems obtain im1 p1 where a: "apply_create_node y k j im p = Inr (im1, p1)" "apply_created ns (im1, p1) = Inr (im', p')"
    by (auto simp: c rbind_Inr_iff)
  from Cons.IH [OF a(2)] create_lookup(1) [OF a(1)] a(1) show ?case by (simp add: c)
qed simp

lemma replay_created_again:
  "\<forall>(x, l, i) \<in> set ns. idmap_lookup im x = Some i \<Longrightarrow>
    replay_ops (map (\<lambda>(x, l, i). CreateNode x l i) ns) (m, im, p) = Inr (m, im, p)"
  by (induction ns) auto

lemma replay_labels:
  "apply_labels apply_add_label ls im = Inr im' \<Longrightarrow>
    replay_ops (map (\<lambda>(node, l). AddNodeLabel node l) ls) (m, im, p) = Inr (m, im', p)"
  "apply_labels apply_remove_label ls im = Inr im' \<Longrightarrow>
    replay_ops (map (\<lambda>(node, l). RemoveNodeLabel node l) ls) (m, im, p) = Inr (m, im', p)"
  by (induction ls arbitrary: im) (auto simp: rbind_Inr_iff)

lemma labels_keep_lookup:
  "apply_labels apply_add_label ls im = Inr im' \<Longrightarrow> idmap_lookup im' = idmap_lookup im"
  "apply_labels apply_remove_label ls im = Inr im' \<Longrightarrow> idmap_lookup im' = idmap_lookup im"
  by (induction ls arbitrary: im)
     (auto simp: rbind_Inr_iff apply_add_label_def apply_remove_label_def idmap_lookup_def fun_eq_iff split: option.splits if_splits)

text \<open>
  C16. Recovery repeats what commit does. When a transaction commits, replaying its log records over
  the id map and the file from before, which is what opening does after a crash between the log
  and the file, gives the id map and the file that commit left; replaying the node records over
  the id map from after, when the file was written in time, changes nothing. The replayed buffer
  says about properties what the published run says.
\<close>

theorem commit_replay_agree:
  assumes "commit_publish t e = Inr e'" and "mt_inv (wt_memtable t)"
  shows "\<exists>m. replay_ops (commit_records t) (mt_default, ge_idmap e, ge_pager e) = Inr (m, ge_idmap e', ge_pager e') \<and>
    replay_ops (node_records t) (mt_default, ge_idmap e', ge_pager e') = Inr (mt_default, ge_idmap e', ge_pager e') \<and>
    d_node_props (mt_abs m) = d_node_props (mt_abs (wt_memtable t)) \<and> d_edge_props (mt_abs m) = d_edge_props (mt_abs (wt_memtable t))"
proof -
  from assms(1) obtain im1 p im2 im3 where c: "apply_created (wt_created_nodes t) (ge_idmap e, ge_pager e) = Inr (im1, p)"
    "apply_labels apply_add_label (wt_pending_label_additions t) im1 = Inr im2"
    "apply_labels apply_remove_label (wt_pending_label_removals t) im2 = Inr im3"
    "ge_idmap e' = im3" "ge_pager e' = p"
    by (auto simp: commit_publish_def rbind_Inr_iff Let_def update_published_node_labels_def publish_run_def split: if_splits)
  let ?g = "graph_records (wt_memtable t) (freeze_into_run (wt_txid t) (wt_memtable t))"
  have "replay_ops ?g (mt_default, im3, p) = Inr (buffer_of ?g, im3, p)"
    by (simp add: replay_ops_graph graph_records_graph buffer_of_def)
  then have "replay_ops (commit_records t) (mt_default, ge_idmap e, ge_pager e) = Inr (buffer_of ?g, ge_idmap e', ge_pager e')"
    using replay_created [OF c(1)] replay_labels(1) [OF c(2)] replay_labels(2) [OF c(3)] c(4,5)
    by (simp add: commit_records_def replay_ops_append)
  moreover have "idmap_lookup im3 = idmap_lookup im1" using labels_keep_lookup c(2,3) by metis
  then have "\<forall>(x, l, i) \<in> set (wt_created_nodes t). idmap_lookup im3 x = Some i"
    using apply_created_lookup [OF c(1)] by fastforce
  note again = replay_created_again [OF this, of mt_default p]
  ultimately show ?thesis using again c(4,5) replay_delta [OF assms(2), of "wt_txid t"] buffer_ok(2) [of ?g] by fastforce
qed

theorem commit_replay_agree_witness:
  "\<exists>p e t e' m. pager_open None = Inr p \<and> ge_pager e = p \<and> create_node e 9 1 (fst (begin_write e)) = Inr (0, t) \<and>
     commit_publish t e = Inr e' \<and>
     replay_ops (commit_records t) (mt_default, ge_idmap e, ge_pager e) = Inr (m, ge_idmap e', ge_pager e') \<and>
     replay_ops (node_records t) (mt_default, ge_idmap e', ge_pager e') = Inr (mt_default, ge_idmap e', ge_pager e')"
proof -
  obtain p im im' p' where p: "pager_open None = Inr p" "apply_create_node_multi_label 9 [1] 0 im p = Inr (im', p')"
    by (rule empty_create)
  then have c: "apply_create_node 9 1 0 im p = Inr (im', p')" by (simp add: apply_create_node_def)
  from p(2) have n: "idmap_next_internal_id im = 0" by (simp add: apply_create_node_multi_label_def Let_def split: if_splits)
  let ?e = "(small_engine one_property no_nodes p)\<lparr>ge_idmap := im\<rparr>"
  let ?t = "(fst (begin_write ?e))\<lparr>wt_created_external_ids := {9}, wt_created_nodes := [(9, 1, 0)]\<rparr>"
  have t: "create_node ?e 9 1 (fst (begin_write ?e)) = Inr (0, ?t)"
    using n create_lookup(1) [OF c] by (simp add: create_node_def lookup_internal_id_def begin_write_def)
  have "mt_inv (wt_memtable ?t)" using mt_default_ok(1) by (simp add: begin_write_def)
  moreover have "\<exists>e'. commit_publish ?t ?e = Inr e'"
    using c by (simp add: commit_publish_def begin_write_def small_engine_def Let_def)
  ultimately obtain e' m where e': "commit_publish ?t ?e = Inr e'"
    "replay_ops (commit_records ?t) (mt_default, ge_idmap ?e, ge_pager ?e) = Inr (m, ge_idmap e', ge_pager e')"
    "replay_ops (node_records ?t) (mt_default, ge_idmap e', ge_pager e') = Inr (mt_default, ge_idmap e', ge_pager e')"
    using commit_replay_agree by blast
  have "ge_pager ?e = p" by (simp add: small_engine_def)
  with p(1) t e' show ?thesis by blast
qed

end
