(* ===== verification/StorageApi.thy ===== *)
theory StorageApi
  imports Engine
begin

text \<open>
  The storage API of nervusdb-storage/src/api.rs: the snapshot \<open>GraphStore::snapshot\<close> takes of the
  engine, and the reads of \<open>GraphSnapshot\<close> on it. The neighbours and the labels are those of the inner
  snapshot; an index lookup is \<open>lookup_index\<close> of the theory IndexLookup. The
  conversions of read_path_convert.rs between API and storage types are identities.

  The pager is shared with the engine, so the reads take it as an argument.
\<close>

section \<open>Definitions\<close>

record storage_snapshot =
  ss_inner :: snapshot
  ss_i2e :: "i2e_record list"
  ss_tombstoned_nodes :: "u32 set"
  ss_stats_cache :: "graph_statistics option"

definition api_snapshot :: "graph_engine \<Rightarrow> storage_snapshot" where
  "api_snapshot e =
    (let inner = begin_read e
     in \<lparr>ss_inner = inner, ss_i2e = im_i2e (ge_idmap e), ss_tombstoned_nodes = collect_tombstoned_nodes (sn_runs inner),
         ss_stats_cache = None\<rparr>)"

definition api_nodes :: "storage_snapshot \<Rightarrow> u32 list" where
  "api_nodes ss = map of_nat (filter (\<lambda>i. i < 2 ^ 32 \<and> of_nat i \<notin> ss_tombstoned_nodes ss) [0..<length (ss_i2e ss)])"

definition api_resolve_external :: "storage_snapshot \<Rightarrow> u32 \<Rightarrow> u64 option" where
  "api_resolve_external ss iid =
    (case vec_get (ss_i2e ss) (unat iid) of
       None \<Rightarrow> None
     | Some r \<Rightarrow> if ie_external_id r = 0 then None else Some (ie_external_id r))"

definition api_node_label :: "storage_snapshot \<Rightarrow> u32 \<Rightarrow> u32 option" where
  "api_node_label ss iid = map_option ie_label_id (vec_get (ss_i2e ss) (unat iid))"

definition api_resolve_node_labels :: "storage_snapshot \<Rightarrow> u32 \<Rightarrow> u32 list option" where
  "api_resolve_node_labels ss iid = sn_all_node_labels (ss_inner ss) iid"

definition api_is_tombstoned_node :: "storage_snapshot \<Rightarrow> u32 \<Rightarrow> bool" where
  "api_is_tombstoned_node ss iid \<longleftrightarrow> iid \<in> ss_tombstoned_nodes ss"

definition api_node_property :: "pager \<Rightarrow> storage_snapshot \<Rightarrow> u32 \<Rightarrow> rstring \<Rightarrow> property_value option result option" where
  "api_node_property p ss iid key =
    (case sn_node_property (ss_inner ss) iid key of
       Some v \<Rightarrow> Some (Inr (Some v))
     | None \<Rightarrow>
         if sn_properties_root (ss_inner ss) = 0 then Some (Inr None)
         else read_node_property_from_store p (sn_properties_root (ss_inner ss)) iid key)"

definition api_edge_property :: "pager \<Rightarrow> storage_snapshot \<Rightarrow> edge_key \<Rightarrow> rstring \<Rightarrow> property_value option result option" where
  "api_edge_property p ss edge key =
    (case sn_edge_property (ss_inner ss) edge key of
       Some v \<Rightarrow> Some (Inr (Some v))
     | None \<Rightarrow>
         if sn_properties_root (ss_inner ss) = 0 then Some (Inr None)
         else read_edge_property_from_store p (sn_properties_root (ss_inner ss)) edge key)"

text \<open>An absent map and an empty one are the same to the caller; an error on the way gives no map at all.\<close>

definition nonempty_props :: "(rstring, property_value) btmap option result \<Rightarrow> (rstring, property_value) btmap option result" where
  "nonempty_props r = rbind r (\<lambda>props. Inr (if props = Some [] then None else props))"

definition api_node_properties :: "pager \<Rightarrow> storage_snapshot \<Rightarrow> u32 \<Rightarrow> (rstring, property_value) btmap option result option" where
  "api_node_properties p ss iid =
    (let props = (case sn_node_properties (ss_inner ss) iid of None \<Rightarrow> [] | Some m \<Rightarrow> m)
     in map_option nonempty_props
          (if sn_properties_root (ss_inner ss) \<noteq> 0
           then extend_node_properties_from_store p (sn_properties_root (ss_inner ss)) iid props
           else Some (Inr (Some props))))"

definition api_edge_properties :: "pager \<Rightarrow> storage_snapshot \<Rightarrow> edge_key \<Rightarrow> (rstring, property_value) btmap option result option" where
  "api_edge_properties p ss edge =
    (let props = (case sn_edge_properties (ss_inner ss) edge of None \<Rightarrow> [] | Some m \<Rightarrow> m)
     in map_option nonempty_props
          (if sn_properties_root (ss_inner ss) \<noteq> 0
           then extend_edge_properties_from_store p (sn_properties_root (ss_inner ss)) edge props
           else Some (Inr (Some props))))"

text \<open>An error while reading the statistics leaves the cache empty; a panic is passed on.\<close>

definition ensure_stats_cache_loaded :: "pager \<Rightarrow> storage_snapshot \<Rightarrow> storage_snapshot result option" where
  "ensure_stats_cache_loaded p ss =
    (if ss_stats_cache ss \<noteq> None then Some (Inr ss)
     else map_option (\<lambda>r. case r of
            Inr stats \<Rightarrow> Inr (ss\<lparr>ss_stats_cache := Some stats\<rparr>)
          | Inl err \<Rightarrow> if is_panic (Inl err :: unit result) then Inl err else Inr ss)
            (read_statistics p (sn_stats_root (ss_inner ss))))"

definition api_node_count :: "pager \<Rightarrow> storage_snapshot \<Rightarrow> u32 option \<Rightarrow> (u64 \<times> storage_snapshot) result option" where
  "api_node_count p ss label =
     map_option (\<lambda>r. rbind r (\<lambda>ss. Inr (node_count_from_stats (ss_stats_cache ss) label, ss))) (ensure_stats_cache_loaded p ss)"

definition api_edge_count :: "pager \<Rightarrow> storage_snapshot \<Rightarrow> u32 option \<Rightarrow> (u64 \<times> storage_snapshot) result option" where
  "api_edge_count p ss rel =
     map_option (\<lambda>r. rbind r (\<lambda>ss. Inr (edge_count_from_stats (ss_stats_cache ss) rel, ss))) (ensure_stats_cache_loaded p ss)"

section \<open>Properties\<close>

text \<open>A history that removes no property.\<close>

fun removes :: "wal_record \<Rightarrow> bool" where
  "removes (RemoveNodeProperty _ _) = True"
| "removes (RemoveEdgeProperty _ _ _ _) = True"
| "removes _ = False"

definition never_removed :: "(u64 \<times> wal_record list) list \<Rightarrow> bool" where
  "never_removed h \<longleftrightarrow> (\<forall>t \<in> set h. \<forall>r \<in> set (snd t). \<not> removes r)"

lemma never_removed_delta:
  assumes "\<forall>r \<in> set ops. \<not> removes r"
  shows "d_node_props (fold delta_apply ops delta_empty) n k \<noteq> Some None \<and> d_edge_props (fold delta_apply ops delta_empty) e k \<noteq> Some None"
  using assms
proof (induction ops rule: rev_induct)
  case (snoc r ops)
  then show ?case by (cases r) (auto simp: upd2_def)
qed (simp_all add: delta_empty_def)

lemma property_runs_cong:
  "\<forall>r \<in> set rs. \<not> gone r \<and> look r = look' r \<Longrightarrow> property_from_runs (\<lambda>_. False) look rs = property_from_runs gone look' rs"
  by (induction rs) (auto split: option.split)

lemma newest_set_reads:
  assumes "never_removed h"
  shows "newest_set run_node_properties (runs_of h) n k = node_property_from_runs (runs_of h) n k"
    "newest_set run_edge_properties (runs_of h) e k = edge_property_from_runs (runs_of h) e k"
proof -
  have "\<not> bset_has (run_tombstoned_node_properties r) n k \<and> \<not> bset_has (run_tombstoned_edge_properties r) e k" if "r \<in> set (runs_of h)" for r
  proof -
    from that obtain t ops where r: "r = run_of t ops" "(t, ops) \<in> set h" by (auto simp: runs_of_def)
    have "\<forall>r \<in> set ops. \<not> removes r" using assms r(2) by (auto simp: never_removed_def)
    from never_removed_delta [OF this, of n k e] show ?thesis
      unfolding run_of_ok(2) [symmetric, of _ t] r(1) by (auto simp: run_abs_def run_prop_effect_def split: if_splits)
  qed
  then show "newest_set run_node_properties (runs_of h) n k = node_property_from_runs (runs_of h) n k"
    "newest_set run_edge_properties (runs_of h) e k = edge_property_from_runs (runs_of h) e k"
    unfolding newest_set_def node_property_from_runs_def edge_property_from_runs_def
    by (auto intro!: property_runs_cong simp: node_property_in_run_def edge_property_in_run_def)
qed

lemma api_reads_runs:
  assumes "sn_properties_root (begin_read e) = 0"
  shows "api_node_property p (api_snapshot e) n k = Some (Inr (node_property_from_runs (ge_published_runs e) n k))"
    "api_edge_property p (api_snapshot e) d k = Some (Inr (edge_property_from_runs (ge_published_runs e) d k))"
  using assms by (auto simp: api_node_property_def api_edge_property_def api_snapshot_def begin_read_def Let_def
      sn_node_property_def sn_edge_property_def split: option.split)

lemma api_reads_store:
  assumes "holds_sunk a b (ge_pager e) (ge_properties_root e) h" "ge_published_runs e = []"
  shows "api_node_property (ge_pager e) (api_snapshot e) n k = Some (Inr (newest_set run_node_properties (runs_of h) n k))"
    "api_edge_property (ge_pager e) (api_snapshot e) d k = Some (Inr (newest_set run_edge_properties (runs_of h) d k))"
  using sunk_read [OF assms(1)] assms(2)
  by (auto simp: api_node_property_def api_edge_property_def api_snapshot_def begin_read_def Let_def
      sn_node_property_def sn_edge_property_def node_property_from_runs_def edge_property_from_runs_def
      read_node_property_from_store_def read_edge_property_from_store_def read_property_from_store_def)

text \<open>The reads of all properties agree with the reads of one.\<close>

lemma nonempty_props_get:
  assumes "\<forall>k. bt_get ps k = f k"
  shows "\<exists>r. nonempty_props (Inr (Some ps)) = Inr r \<and> (\<forall>k. Option.bind r (\<lambda>m. bt_get m k) = f k)"
  using assms by (cases "ps = []") (simp_all add: nonempty_props_def)

lemma api_reads_all_store:
  assumes st: "holds_sunk a b (ge_pager e) (ge_properties_root e) h" and runs: "ge_published_runs e = []" and names: "names_ok (runs_of h)"
  shows "\<exists>ps. api_node_properties (ge_pager e) (api_snapshot e) n = Some (Inr ps) \<and>
      (\<forall>k. api_node_property (ge_pager e) (api_snapshot e) n k = Some (Inr (Option.bind ps (\<lambda>m. bt_get m k))))"
    "\<exists>ps. api_edge_properties (ge_pager e) (api_snapshot e) d = Some (Inr ps) \<and>
      (\<forall>k. api_edge_property (ge_pager e) (api_snapshot e) d k = Some (Inr (Option.bind ps (\<lambda>m. bt_get m k))))"
proof -
  have s: "sn_properties_root (ss_inner (api_snapshot e)) = ge_properties_root e"
    "sn_node_properties (ss_inner (api_snapshot e)) n = None" "sn_edge_properties (ss_inner (api_snapshot e)) d = None"
    using runs by (simp_all add: api_snapshot_def begin_read_def Let_def sn_node_properties_def sn_edge_properties_def
        merge_node_properties_from_runs_def merge_edge_properties_from_runs_def merge_properties_from_runs_def)
  obtain ps where ps: "extend_node_properties_from_store (ge_pager e) (ge_properties_root e) n [] = Some (Inr (Some ps))"
    "\<forall>k. bt_get ps k = newest_set run_node_properties (runs_of h) n k" using sunk_read_all(1) [OF st names, of "[]" n] by auto
  obtain qs where qs: "extend_edge_properties_from_store (ge_pager e) (ge_properties_root e) d [] = Some (Inr (Some qs))"
    "\<forall>k. bt_get qs k = newest_set run_edge_properties (runs_of h) d k" using sunk_read_all(2) [OF st names, of "[]" d] by auto
  have none: "extend_node_properties_from_store (ge_pager e) 0 n [] = Some (Inr (Some []))"
    "extend_edge_properties_from_store (ge_pager e) 0 d [] = Some (Inr (Some []))"
    by (simp_all add: extend_node_properties_from_store_def extend_edge_properties_from_store_def extend_properties_from_store_def)
  show "\<exists>ps. api_node_properties (ge_pager e) (api_snapshot e) n = Some (Inr ps) \<and>
      (\<forall>k. api_node_property (ge_pager e) (api_snapshot e) n k = Some (Inr (Option.bind ps (\<lambda>m. bt_get m k))))"
    using nonempty_props_get [OF ps(2)] ps(1) none by (auto simp: api_node_properties_def s api_reads_store(1) [OF st runs])
  show "\<exists>ps. api_edge_properties (ge_pager e) (api_snapshot e) d = Some (Inr ps) \<and>
      (\<forall>k. api_edge_property (ge_pager e) (api_snapshot e) d k = Some (Inr (Option.bind ps (\<lambda>m. bt_get m k))))"
    using nonempty_props_get [OF qs(2)] qs(1) none by (auto simp: api_edge_properties_def s api_reads_store(2) [OF st runs])
qed



lemma api_nodes_iff: "x \<in> set (api_nodes ss) \<longleftrightarrow> unat x < length (ss_i2e ss) \<and> x \<notin> ss_tombstoned_nodes ss"
proof
  assume "unat x < length (ss_i2e ss) \<and> x \<notin> ss_tombstoned_nodes ss"
  then show "x \<in> set (api_nodes ss)"
    using unat_bound [of x] unfolding api_nodes_def by (auto intro!: image_eqI [of _ _ "unat x"])
qed (auto simp: api_nodes_def unat_word_of_nat_less)


text \<open>A history that deletes a node, and sets and removes one of its properties.\<close>

definition deletions :: "(u64 \<times> wal_record list) list" where
  "deletions = [(1, [TombstoneNode 0]), (2, [SetNodeProperty 0 [97] (PInt 3)]), (3, [RemoveNodeProperty 0 [97]])]"

lemma deletions_replays: "replays deletions"
proof -
  have "\<not> run_is_empty (run_of 1 [TombstoneNode 0])" "\<not> run_is_empty (run_of 2 [SetNodeProperty 0 [97] (PInt 3)])"
    "\<not> run_is_empty (run_of 3 [RemoveNodeProperty 0 [97]])"
    "logged (1, [TombstoneNode 0]) = \<lparr>ct_txid = 1, ct_ops = [TombstoneNode 0]\<rparr>"
    "logged (2, [SetNodeProperty 0 [97] (PInt 3)]) = \<lparr>ct_txid = 2, ct_ops = [SetNodeProperty 0 [97] (PInt 3)]\<rparr>"
    "logged (3, [RemoveNodeProperty 0 [97]]) = \<lparr>ct_txid = 3, ct_ops = [RemoveNodeProperty 0 [97]]\<rparr>" by code_simp+
  then show ?thesis
    by (simp add: replays_def deletions_def tx_ok_def loggable_def body_of_def encode_body_def encode_key_def key_wf_def try_u32_def
        utf8_len_def utf8_tail_def byte_in_def)
qed

lemma deletions_compact:
  assumes "free_pages p = 65533" "im_i2l im = [[1]]"
  shows "compactable 21 21 (small_engine deletions im p) empty_segment"
proof -
  have es: "sink_node_props (runs_of deletions) = [((0, [97]), PInt 3)]" "sink_edge_props (runs_of deletions) = []"
    "surviving_edges (runs_of deletions) {} {} = []" "length (stats_encode (collect_statistics [[1]] [empty_segment])) \<le> 100"
    by code_simp+
  have "varint_u32_len 10 = 1" by (subst varint_u32_len.simps) (simp add: word_le_nat_alt)
  then have "sized 21 21 (node_prop_key 0 [97])" by (simp add: sized_def cell_size_def node_prop_key_def)
  moreover have "value_need (PInt 3) = 1" by (simp add: value_need_def blob_need_def blob_sizes)
  ultimately show ?thesis
    using es assms empty_segment_built [OF es(3)] by (intro small_compactable) (simp_all add: sink_entries_def)
qed


text \<open>The statistics of a compaction answer the counts of the API.\<close>

lemma api_counts:
  assumes inv: "pager_inv p" and b: "blob_at p I (sn_stats_root (ss_inner ss)) (stats_encode s)" and s: "stats_wf s" and c: "ss_stats_cache ss = None"
  shows "ensure_stats_cache_loaded p ss = Some (Inr (ss\<lparr>ss_stats_cache := Some s\<rparr>))"
proof -
  have "stats_encode s \<noteq> []" by (simp add: stats_encode_def flip: length_greater_0_conv)
  then have "sn_stats_root (ss_inner ss) \<noteq> 0" using blob_at_nonzero [OF b] by blast
  then have "read_statistics p (sn_stats_root (ss_inner ss)) = Some (Inr s)"
    using blob_at_read [OF inv b] stats_decode_encode [OF s] by (simp add: read_statistics_def)
  then show ?thesis by (simp add: ensure_stats_cache_loaded_def c)
qed

end
